(* ===== verification/Prelude.thy ===== *)
theory Prelude
  imports Complex_Main "HOL-Library.Sublist" "HOL-Library.Word"
begin

text \<open>
  Shared ground of the development: the Go values that every component uses (instants, durations,
  decimal printing, 64-bit counters), tables as lists of rows with the two SQL idioms of the
  stores (\<open>find\<close> by key and \<open>UPDATE ... WHERE\<close>), and the collections of simplification
  facts that the component theories extend.

  Conventions. A Go \<open>string\<close> is its list of bytes. A \<open>time.Time\<close> is the number of
  nanoseconds since Go's zero instant (1 January of year 1, UTC), so the zero value is 0. A
  \<open>time.Duration\<close> is a number of nanoseconds; \<open>Sub\<close> saturates at the limits of int64. A
  \<open>float64\<close> is an exact rational: rounding is not modelled.
\<close>

named_theorems store_simps \<open>behaviour of the store operations\<close>
named_theorems frame_simps \<open>what an operation leaves unchanged\<close>

type_synonym go_time = int
type_synonym duration = int
type_synonym float64 = rat
type_synonym int64 = "64 word"

subsection \<open>Instants and durations\<close>

definition second :: duration where
  "second = 1000000000"

definition minute :: duration where
  "minute = 60 * second"

definition maxDuration :: duration where
  "maxDuration = 9223372036854775807"

definition minDuration :: duration where
  "minDuration = - 9223372036854775808"

definition time_Sub :: "go_time \<Rightarrow> go_time \<Rightarrow> duration" where
  "time_Sub t u = max minDuration (min maxDuration (t - u))"

definition IsZero :: "go_time \<Rightarrow> bool" where
  "IsZero t \<longleftrightarrow> t = 0"

definition dur_Seconds :: "duration \<Rightarrow> float64" where
  "dur_Seconds d = of_int d / of_int second"

definition dur_Minutes :: "duration \<Rightarrow> float64" where
  "dur_Minutes d = of_int d / of_int minute"

definition Truncate :: "go_time \<Rightarrow> duration \<Rightarrow> go_time" where
  "Truncate t d = t - t mod d"

text \<open>\<open>Unix()\<close>: whole seconds since 1 January 1970, 62135596800 seconds after the zero instant.\<close>

definition Unix :: "go_time \<Rightarrow> int" where
  "Unix t = t div second - 62135596800"

lemmas time_defs = second_def minute_def maxDuration_def minDuration_def

lemma second_pos [simp]: "0 < second"
  by (simp add: second_def)

lemma minute_pos [simp]: "0 < minute"
  by (simp add: minute_def second_def)

lemma time_Sub_pos_iff: "0 < time_Sub t u \<longleftrightarrow> u < t"
  by (auto simp: time_Sub_def time_defs)

lemma time_Sub_exact: "\<bar>t - u\<bar> \<le> maxDuration \<Longrightarrow> time_Sub t u = t - u"
  by (auto simp: time_Sub_def time_defs)

lemma time_Sub_range: "minDuration \<le> time_Sub t u \<and> time_Sub t u \<le> maxDuration"
  by (auto simp: time_Sub_def time_defs)

lemma time_Sub_mono: "t \<le> t' \<Longrightarrow> time_Sub t u \<le> time_Sub t' u"
  by (auto simp: time_Sub_def)

lemma dur_Seconds_nonneg: "0 \<le> d \<Longrightarrow> 0 \<le> dur_Seconds d"
  by (simp add: dur_Seconds_def second_def)

lemma Truncate_le: "0 < d \<Longrightarrow> Truncate t d \<le> t"
  by (simp add: Truncate_def)

lemma Truncate_gt: "0 < d \<Longrightarrow> t < Truncate t d + d"
  by (simp add: Truncate_def)

subsection \<open>Decimal numerals\<close>

definition digit_char :: "nat \<Rightarrow> char" where
  "digit_char d = char_of (48 + d)"

definition digit_val :: "char \<Rightarrow> nat" where
  "digit_val c = of_char c - 48"

definition is_digit :: "char \<Rightarrow> bool" where
  "is_digit c \<longleftrightarrow> 48 \<le> (of_char c :: nat) \<and> (of_char c :: nat) \<le> 57"

fun show_nat :: "nat \<Rightarrow> string" where
  "show_nat n = (if n < 10 then [digit_char n] else show_nat (n div 10) @ [digit_char (n mod 10)])"

declare show_nat.simps [simp del]

definition itoa :: "int \<Rightarrow> string" where
  "itoa i = (if i < 0 then CHR ''-'' # show_nat (nat (- i)) else show_nat (nat i))"

fun digits_val :: "nat \<Rightarrow> string \<Rightarrow> nat" where
  "digits_val n [] = n"
| "digits_val n (c # cs) = digits_val (n * 10 + digit_val c) cs"

lemma digit_char_props [simp]:
  "d < 10 \<Longrightarrow> digit_val (digit_char d) = d"
  "d < 10 \<Longrightarrow> is_digit (digit_char d)"
  by (simp_all add: digit_char_def digit_val_def is_digit_def)

lemma digits_val_append: "digits_val n (xs @ ys) = digits_val (digits_val n xs) ys"
  by (induction xs arbitrary: n) auto

lemma show_nat_digits: "list_all is_digit (show_nat n)"
proof (induction n rule: show_nat.induct)
  case (1 n)
  then show ?case
    by (subst show_nat.simps) (auto simp: list_all_iff)
qed

lemma show_nat_not_Nil: "show_nat n \<noteq> []"
  by (subst show_nat.simps) simp

lemma digits_val_show_nat: "digits_val 0 (show_nat n) = n"
proof (induction n rule: show_nat.induct)
  case (1 n)
  then show ?case
    by (subst show_nat.simps) (auto simp: digits_val_append)
qed

lemma show_nat_inj: "show_nat m = show_nat n \<Longrightarrow> m = n"
  by (metis digits_val_show_nat)

text \<open>For evaluation: the same digits computed on binary integers.\<close>

function show_int :: "int \<Rightarrow> string" where
  "show_int i = (if i < 10 then [digit_char (nat i)] else show_int (i div 10) @ [digit_char (nat (i mod 10))])"
  by pat_completeness auto
termination
  by (relation "measure nat") auto

declare show_int.simps [simp del]

lemma show_nat_int [code]: "show_nat n = show_int (int n)"
proof (induction n rule: show_nat.induct)
  case (1 n)
  show ?case
  proof (cases "n < 10")
    case True
    then show ?thesis by (simp add: show_nat.simps [of n] show_int.simps [of "int n"])
  next
    case False
    have "int n div 10 = int (n div 10)" "nat (int n mod 10) = n mod 10"
      by (simp_all add: zdiv_int nat_mod_distrib)
    with False 1 show ?thesis by (simp add: show_nat.simps [of n] show_int.simps [of "int n"])
  qed
qed

lemma itoa_show_int [code]: "itoa i = (if i < 0 then CHR ''-'' # show_int (- i) else show_int i)"
  by (simp add: itoa_def show_nat_int)

subsection \<open>Tables\<close>

text \<open>
  A table is the list of its rows. \<open>UPDATE t SET ... WHERE key = k\<close> rewrites every row with
  that key; a query by key returns the first such row.
\<close>

definition upd_where :: "('r \<Rightarrow> 'k) \<Rightarrow> 'k \<Rightarrow> ('r \<Rightarrow> 'r) \<Rightarrow> 'r list \<Rightarrow> 'r list" where
  "upd_where key k f rows = map (\<lambda>r. if key r = k then f r else r) rows"

definition row_with :: "('r \<Rightarrow> 'k) \<Rightarrow> 'k \<Rightarrow> 'r list \<Rightarrow> 'r option" where
  "row_with key k rows = find (\<lambda>r. key r = k) rows"

definition has_row :: "('r \<Rightarrow> 'k) \<Rightarrow> 'k \<Rightarrow> 'r list \<Rightarrow> bool" where
  "has_row key k rows = list_ex (\<lambda>r. key r = k) rows"

lemma row_with_Nil [simp]: "row_with key k [] = None"
  by (simp add: row_with_def)

lemma row_with_Cons [simp]:
  "row_with key k (r # rs) = (if key r = k then Some r else row_with key k rs)"
  by (simp add: row_with_def)

lemma row_with_key: "row_with key k rows = Some r \<Longrightarrow> key r = k"
  by (induction rows) (auto split: if_splits)

lemma row_with_in_set: "row_with key k rows = Some r \<Longrightarrow> r \<in> set rows"
  by (induction rows) (auto split: if_splits)

lemma row_with_None_iff: "row_with key k rows = None \<longleftrightarrow> k \<notin> key ` set rows"
  by (induction rows) auto

lemma has_row_iff: "has_row key k rows \<longleftrightarrow> k \<in> key ` set rows"
  by (induction rows) (auto simp: has_row_def)

lemma row_with_append:
  "row_with key k (xs @ ys) = (case row_with key k xs of Some r \<Rightarrow> Some r | None \<Rightarrow> row_with key k ys)"
  by (induction xs) auto

lemma upd_where_Nil [simp]: "upd_where key k f [] = []"
  by (simp add: upd_where_def)

lemma upd_where_Cons [simp]:
  "upd_where key k f (r # rs) = (if key r = k then f r else r) # upd_where key k f rs"
  by (simp add: upd_where_def)

lemma length_upd_where [simp]: "length (upd_where key k f rows) = length rows"
  by (simp add: upd_where_def)

lemma row_with_upd_where_same:
  assumes "\<And>r. key (f r) = key r"
  shows "row_with key k (upd_where key k f rows) = map_option f (row_with key k rows)"
  by (induction rows) (auto simp: assms)

lemma row_with_upd_where_other:
  assumes "\<And>r. key (f r) = key r" and "k' \<noteq> k"
  shows "row_with key k' (upd_where key k f rows) = row_with key k' rows"
  using assms(2) by (induction rows) (auto simp: assms(1))

lemma keys_upd_where:
  assumes "\<And>r. key (f r) = key r"
  shows "map key (upd_where key k f rows) = map key rows"
  by (induction rows) (auto simp: assms)

lemma upd_where_upd_where:
  assumes "\<And>r. key (g r) = key r"
  shows "upd_where key k f (upd_where key k g rows) = upd_where key k (\<lambda>r. f (g r)) rows"
  by (induction rows) (auto simp: assms)

lemma upd_where_absent: "k \<notin> key ` set rows \<Longrightarrow> upd_where key k f rows = rows"
  by (induction rows) auto

lemma row_with_distinct:
  "distinct (map key rows) \<Longrightarrow> r \<in> set rows \<Longrightarrow> row_with key (key r) rows = Some r"
  by (induction rows) (auto simp: rev_image_eqI)

end
