(* ===== verification/Models.thy ===== *)
theory Models
  imports Prelude
begin

text \<open>
  Package \<open>models\<close> (\<open>models.go\<close>, \<open>errors.go\<close>): the enumerations, which Go represents
  as strings, so that a value outside the enumeration can occur and has to be rejected by the code;
  the records for signals, work items, root cause analyses (RCA) and alerts with their constructors;
  \<open>RCA.Validate\<close> and \<open>RCA.MTTRMinutes\<close>; and Go errors as values. The properties: what a valid
  RCA is, the order of the checks, and the mean time to repair.
\<close>

subsection \<open>Enumerations\<close>

type_synonym Severity = string
type_synonym ComponentType = string
type_synonym WorkItemState = string
type_synonym RootCauseCategory = string

definition SeverityP0 :: Severity where "SeverityP0 = ''P0''"
definition SeverityP1 :: Severity where "SeverityP1 = ''P1''"
definition SeverityP2 :: Severity where "SeverityP2 = ''P2''"

definition ComponentRDBMS :: ComponentType where "ComponentRDBMS = ''RDBMS''"
definition ComponentNoSQL :: ComponentType where "ComponentNoSQL = ''NOSQL''"
definition ComponentCache :: ComponentType where "ComponentCache = ''CACHE''"
definition ComponentQueue :: ComponentType where "ComponentQueue = ''QUEUE''"
definition ComponentAPI :: ComponentType where "ComponentAPI = ''API''"
definition ComponentMCPHost :: ComponentType where "ComponentMCPHost = ''MCP_HOST''"

definition StateOpen :: WorkItemState where "StateOpen = ''OPEN''"
definition StateInvestigating :: WorkItemState where "StateInvestigating = ''INVESTIGATING''"
definition StateResolved :: WorkItemState where "StateResolved = ''RESOLVED''"
definition StateClosed :: WorkItemState where "StateClosed = ''CLOSED''"

definition RCACategoryInfrastructure :: RootCauseCategory where
  "RCACategoryInfrastructure = ''INFRASTRUCTURE''"
definition RCACategoryApplication :: RootCauseCategory where
  "RCACategoryApplication = ''APPLICATION''"
definition RCACategoryNetwork :: RootCauseCategory where "RCACategoryNetwork = ''NETWORK''"
definition RCACategoryDatabase :: RootCauseCategory where "RCACategoryDatabase = ''DATABASE''"
definition RCACategoryThirdParty :: RootCauseCategory where
  "RCACategoryThirdParty = ''THIRD_PARTY''"
definition RCACategoryHuman :: RootCauseCategory where "RCACategoryHuman = ''HUMAN_ERROR''"
definition RCACategoryUnknown :: RootCauseCategory where "RCACategoryUnknown = ''UNKNOWN''"

lemmas severity_defs = SeverityP0_def SeverityP1_def SeverityP2_def
lemmas component_defs = ComponentRDBMS_def ComponentNoSQL_def ComponentCache_def
  ComponentQueue_def ComponentAPI_def ComponentMCPHost_def
lemmas state_defs = StateOpen_def StateInvestigating_def StateResolved_def StateClosed_def
lemmas enum_defs = severity_defs component_defs state_defs

lemma severity_distinct [simp]:
  "SeverityP0 \<noteq> SeverityP1" "SeverityP1 \<noteq> SeverityP0" "SeverityP0 \<noteq> SeverityP2"
  "SeverityP2 \<noteq> SeverityP0" "SeverityP1 \<noteq> SeverityP2" "SeverityP2 \<noteq> SeverityP1"
  "SeverityP0 \<noteq> []" "SeverityP1 \<noteq> []" "SeverityP2 \<noteq> []"
  by (simp_all add: severity_defs)

lemma state_distinct [simp]:
  "StateOpen \<noteq> StateInvestigating" "StateInvestigating \<noteq> StateOpen"
  "StateOpen \<noteq> StateResolved" "StateResolved \<noteq> StateOpen"
  "StateOpen \<noteq> StateClosed" "StateClosed \<noteq> StateOpen"
  "StateInvestigating \<noteq> StateResolved" "StateResolved \<noteq> StateInvestigating"
  "StateInvestigating \<noteq> StateClosed" "StateClosed \<noteq> StateInvestigating"
  "StateResolved \<noteq> StateClosed" "StateClosed \<noteq> StateResolved"
  by (simp_all add: state_defs)

text \<open>The values that the CHECK constraints of the schema and the validators accept.\<close>

definition severities :: "Severity list" where
  "severities = [SeverityP0, SeverityP1, SeverityP2]"

definition states :: "WorkItemState list" where
  "states = [StateOpen, StateInvestigating, StateResolved, StateClosed]"

definition component_types :: "ComponentType list" where
  "component_types = [ComponentRDBMS, ComponentNoSQL, ComponentCache,
     ComponentQueue, ComponentAPI, ComponentMCPHost]"

subsection \<open>Errors\<close>

text \<open>
  A Go error value. The sentinels of \<open>errors.go\<close> are compared by identity in the code, so each
  is a constructor; \<open>ErrNoRows\<close> and \<open>ErrRedisNil\<close> are the sentinels of the two database
  drivers. \<open>Wrapped p e s\<close> is \<open>fmt.Errorf\<close> with the verb \<open>%w\<close>: a new value, different
  from \<open>e\<close>, whose text is that of \<open>e\<close> between \<open>p\<close> and \<open>s\<close>. \<open>NewError\<close> is an error
  made by the program without \<open>%w\<close>, \<open>ExtError\<close> one made by a library or a service.
\<close>

datatype go_error =
    ErrRCAMissingWorkItemID
  | ErrRCAMissingStartTime
  | ErrRCAMissingEndTime
  | ErrRCAEndBeforeStart
  | ErrRCAMissingCategory
  | ErrRCARootCauseTooShort
  | ErrRCAFixTooShort
  | ErrRCAPreventionTooShort
  | ErrInvalidTransition
  | ErrRCARequiredForClose
  | ErrWorkItemNotFound
  | ErrQueueFull
  | ErrRateLimitExceeded
  | ErrInvalidSignal
  | ErrInvalidCredentials
  | ErrUnauthorized
  | ErrNoRows
  | ErrRedisNil
  | ExtError string
  | NewError string
  | Wrapped string go_error string

primrec Error :: "go_error \<Rightarrow> string" where
  "Error ErrRCAMissingWorkItemID = ''RCA: work_item_id is required''"
| "Error ErrRCAMissingStartTime = ''RCA: incident_start is required''"
| "Error ErrRCAMissingEndTime = ''RCA: incident_end is required''"
| "Error ErrRCAEndBeforeStart = ''RCA: incident_end must be after incident_start''"
| "Error ErrRCAMissingCategory = ''RCA: root_cause_category is required''"
| "Error ErrRCARootCauseTooShort = ''RCA: root_cause_detail must be at least 20 characters''"
| "Error ErrRCAFixTooShort = ''RCA: fix_applied must be at least 10 characters''"
| "Error ErrRCAPreventionTooShort = ''RCA: prevention_steps must be at least 10 characters''"
| "Error ErrInvalidTransition = ''workflow: invalid state transition''"
| "Error ErrRCARequiredForClose =
     ''workflow: RCA must be submitted and complete before closing''"
| "Error ErrWorkItemNotFound = ''workflow: work item not found''"
| "Error ErrQueueFull = ''ingestion: signal queue is full, try again later''"
| "Error ErrRateLimitExceeded = ''ingestion: rate limit exceeded''"
| "Error ErrInvalidSignal = ''ingestion: invalid signal payload''"
| "Error ErrInvalidCredentials = ''auth: invalid username or password''"
| "Error ErrUnauthorized = ''auth: unauthorized''"
| "Error ErrNoRows = ''no rows in result set''"
| "Error ErrRedisNil = ''redis: nil''"
| "Error (ExtError s) = s"
| "Error (NewError s) = s"
| "Error (Wrapped p e s) = p @ Error e @ s"

text \<open>Errors that no library or service returns: the program's own sentinels and wrappers.\<close>

definition external_error :: "go_error \<Rightarrow> bool" where
  "external_error e \<longleftrightarrow> (\<exists>s. e = ExtError s)"

subsection \<open>Signals, work items, RCAs, alerts\<close>

text \<open>A Go value of type \<open>any\<close> as JSON decoding produces it.\<close>

datatype any =
    ANil
  | ABool bool
  | ANumber float64
  | AString string
  | AList "any list"
  | AMap "(string \<times> any) list"

type_synonym metadata = "(string \<times> any) list option" \<comment> \<open>\<open>None\<close> is the nil map\<close>

record Signal =
  sig_ID :: string
  sig_ComponentID :: string
  sig_ComponentType :: ComponentType
  sig_Message :: string
  sig_Severity :: Severity
  sig_Metadata :: metadata
  sig_WorkItemID :: string
  sig_ReceivedAt :: go_time

text \<open>The first two arguments are the results of \<open>uuid.New()\<close> and \<open>time.Now()\<close>.\<close>

definition NewSignal ::
  "string \<Rightarrow> go_time \<Rightarrow> string \<Rightarrow> ComponentType \<Rightarrow> string \<Rightarrow> Severity \<Rightarrow> metadata \<Rightarrow> Signal" where
  "NewSignal uid t componentID componentType message severity metadata =
     \<lparr>sig_ID = uid, sig_ComponentID = componentID, sig_ComponentType = componentType,
      sig_Message = message, sig_Severity = severity, sig_Metadata = metadata,
      sig_WorkItemID = [], sig_ReceivedAt = t\<rparr>"

record WorkItem =
  wi_ID :: string
  wi_ComponentID :: string
  wi_ComponentType :: ComponentType
  wi_Title :: string
  wi_Severity :: Severity
  wi_State :: WorkItemState
  wi_SignalCount :: int
  wi_AssignedTo :: string
  wi_CreatedAt :: go_time
  wi_UpdatedAt :: go_time
  wi_ResolvedAt :: "go_time option"
  wi_ClosedAt :: "go_time option"
  wi_MTTR :: "float64 option"

text \<open>\<open>NewWorkItem\<close> reads the clock twice.\<close>

definition NewWorkItem :: "string \<Rightarrow> go_time \<Rightarrow> go_time \<Rightarrow> Signal \<Rightarrow> WorkItem" where
  "NewWorkItem uid t1 t2 signal =
     \<lparr>wi_ID = uid, wi_ComponentID = sig_ComponentID signal,
      wi_ComponentType = sig_ComponentType signal,
      wi_Title = ''Incident: '' @ sig_ComponentType signal @ '' failure on '' @ sig_ComponentID signal,
      wi_Severity = sig_Severity signal, wi_State = StateOpen, wi_SignalCount = 1,
      wi_AssignedTo = [], wi_CreatedAt = t1, wi_UpdatedAt = t2,
      wi_ResolvedAt = None, wi_ClosedAt = None, wi_MTTR = None\<rparr>"

record RCA =
  rca_ID :: string
  rca_WorkItemID :: string
  rca_IncidentStart :: go_time
  rca_IncidentEnd :: go_time
  rca_RootCauseCategory :: RootCauseCategory
  rca_RootCauseDetail :: string
  rca_FixApplied :: string
  rca_PreventionSteps :: string
  rca_SubmittedBy :: string
  rca_SubmittedAt :: go_time

text \<open>\<open>None\<close> is the nil error.\<close>

definition Validate :: "RCA \<Rightarrow> go_error option" where
  "Validate r =
     (if rca_WorkItemID r = [] then Some ErrRCAMissingWorkItemID
      else if IsZero (rca_IncidentStart r) then Some ErrRCAMissingStartTime
      else if IsZero (rca_IncidentEnd r) then Some ErrRCAMissingEndTime
      else if \<not> rca_IncidentStart r < rca_IncidentEnd r then Some ErrRCAEndBeforeStart
      else if rca_RootCauseCategory r = [] then Some ErrRCAMissingCategory
      else if length (rca_RootCauseDetail r) < 20 then Some ErrRCARootCauseTooShort
      else if length (rca_FixApplied r) < 10 then Some ErrRCAFixTooShort
      else if length (rca_PreventionSteps r) < 10 then Some ErrRCAPreventionTooShort
      else None)"

definition MTTRMinutes :: "RCA \<Rightarrow> float64" where
  "MTTRMinutes r = dur_Minutes (time_Sub (rca_IncidentEnd r) (rca_IncidentStart r))"

record Alert =
  al_ID :: string
  al_WorkItemID :: string
  al_Severity :: Severity
  al_Channel :: string
  al_Message :: string
  al_SentAt :: go_time

record DashboardState =
  ds_TotalOpen :: int
  ds_TotalInvestigating :: int
  ds_TotalResolved :: int
  ds_TotalClosed :: int
  ds_SignalsPerSecond :: float64
  ds_ActiveIncidents :: "WorkItem list"
  ds_UpdatedAt :: go_time

record IngestRequest =
  ir_ComponentID :: string
  ir_ComponentType :: ComponentType
  ir_Message :: string
  ir_Severity :: Severity
  ir_Metadata :: metadata

record IngestResponse =
  resp_SignalID :: string
  resp_WorkItemID :: string
  resp_Debounced :: bool

subsection \<open>Properties\<close>

text \<open>The specification of a complete RCA, independent of the order of the checks.\<close>

definition complete_rca :: "RCA \<Rightarrow> bool" where
  "complete_rca r \<longleftrightarrow>
     rca_WorkItemID r \<noteq> [] \<and> rca_IncidentStart r \<noteq> 0 \<and> rca_IncidentEnd r \<noteq> 0 \<and>
     rca_IncidentStart r < rca_IncidentEnd r \<and> rca_RootCauseCategory r \<noteq> [] \<and>
     20 \<le> length (rca_RootCauseDetail r) \<and> 10 \<le> length (rca_FixApplied r) \<and>
     10 \<le> length (rca_PreventionSteps r)"

lemma Validate_None_iff: "Validate r = None \<longleftrightarrow> complete_rca r"
  by (auto simp: Validate_def complete_rca_def IsZero_def)

lemma complete_rca_MTTR_pos: "complete_rca r \<Longrightarrow> 0 < MTTRMinutes r"
  by (simp add: MTTRMinutes_def dur_Minutes_def complete_rca_def time_Sub_pos_iff)

lemma complete_rca_SubmittedAt [simp]: "complete_rca (r\<lparr>rca_SubmittedAt := t\<rparr>) = complete_rca r"
  by (simp add: complete_rca_def)

lemma Validate_SubmittedAt [simp]: "Validate (r\<lparr>rca_SubmittedAt := t\<rparr>) = Validate r"
  by (simp add: Validate_def)

lemma MTTRMinutes_SubmittedAt [simp]: "MTTRMinutes (r\<lparr>rca_SubmittedAt := t\<rparr>) = MTTRMinutes r"
  by (simp add: MTTRMinutes_def)

text \<open>The errors of \<open>Validate\<close> are the eight RCA sentinels, none of them one of the workflow's.\<close>

lemma Validate_errors:
  "Validate r = Some e \<Longrightarrow>
     e \<in> {ErrRCAMissingWorkItemID, ErrRCAMissingStartTime, ErrRCAMissingEndTime, ErrRCAEndBeforeStart,
          ErrRCAMissingCategory, ErrRCARootCauseTooShort, ErrRCAFixTooShort, ErrRCAPreventionTooShort}"
  by (auto simp: Validate_def split: if_splits)

end
