(* ===== verification/Services.thy ===== *)
theory Services
  imports Models "HOL-Library.Multiset" "HOL-Library.Product_Lexorder"
begin

text \<open>
  The services and libraries that the backend calls and that are not part of the repository:
  PostgreSQL through pgx, MongoDB, Redis, the clock, the UUID generator, contexts, JSON, bcrypt and
  JWT. They are parameters: the record \<open>ext\<close> holds one function per call that the backend
  makes, over an arbitrary type \<open>'o\<close> for the state of the outside world that decides what a call
  returns (time, faults, random values). What the backend relies on is stated as the
  \<open>assumes\<close> of four locales, one per service.

  For PostgreSQL the statement texts are in the source (\<open>postgres.go\<close>, \<open>pool.go\<close>) and the
  tables are in \<open>migrations/001_init_schema.sql\<close>; \<open>apply_stmt\<close> is the meaning of a statement
  over these tables. The law of the service is deliberately weak on failure: a statement that
  reports an error may nevertheless have been executed (the connection can break after the commit),
  so the model does not assume that an error means "not done".

  In \<open>RefEnv\<close>, \<open>ref_env\<close> is an instance that satisfies every law: an in-memory engine which runs
  each statement with \<open>apply_stmt\<close> and fails according to a script.
\<close>

subsection \<open>The tables of PostgreSQL\<close>

record ts_row =
  ts_bucket :: go_time
  ts_component_id :: string
  ts_component_type :: ComponentType
  ts_severity :: Severity
  ts_signal_count :: int

record pg_db =
  t_work_items :: "WorkItem list"
  t_rcas :: "RCA list"
  t_timeseries :: "ts_row list"

definition ts_key :: "ts_row \<Rightarrow> go_time \<times> string \<times> Severity" where
  "ts_key r = (ts_bucket r, ts_component_id r, ts_severity r)"

text \<open>A column of type INTEGER has 32 bits; TIMESTAMPTZ has a resolution of one microsecond.\<close>

definition int4 :: "int \<Rightarrow> bool" where
  "int4 i \<longleftrightarrow> - (2 ^ 31) \<le> i \<and> i < 2 ^ 31"

definition pg_ts :: "go_time \<Rightarrow> go_time" where
  "pg_ts t = t - t mod 1000"

text \<open>The constraints of the schema: primary keys, UNIQUE, REFERENCES, CHECK and the column types.\<close>

definition schema_ok :: "pg_db \<Rightarrow> bool" where
  "schema_ok db \<longleftrightarrow>
     distinct (map wi_ID (t_work_items db)) \<and>
     list_all (\<lambda>r. wi_Severity r \<in> set severities \<and> wi_State r \<in> set states \<and>
                   int4 (wi_SignalCount r)) (t_work_items db) \<and>
     distinct (map rca_ID (t_rcas db)) \<and>
     distinct (map rca_WorkItemID (t_rcas db)) \<and>
     list_all (\<lambda>r. has_row wi_ID (rca_WorkItemID r) (t_work_items db) \<and>
                   rca_IncidentStart r < rca_IncidentEnd r) (t_rcas db) \<and>
     distinct (map ts_key (t_timeseries db)) \<and>
     list_all (\<lambda>r. int4 (ts_signal_count r)) (t_timeseries db)"

definition empty_db :: pg_db where
  "empty_db = \<lparr>t_work_items = [], t_rcas = [], t_timeseries = []\<rparr>"

subsection \<open>The statements\<close>

datatype pg_stmt =
    INSERT_work_item WorkItem
  | UPDATE_resolved WorkItemState go_time go_time string
  | UPDATE_closed WorkItemState go_time go_time "float64 option" string
  | UPDATE_state WorkItemState go_time string
  | UPDATE_severity Severity go_time string
  | UPDATE_signal_count go_time string
  | INSERT_rca RCA
  | UPSERT_timeseries go_time string ComponentType Severity

definition inserted_work_item :: "WorkItem \<Rightarrow> WorkItem" where
  "inserted_work_item wi =
     \<lparr>wi_ID = wi_ID wi, wi_ComponentID = wi_ComponentID wi, wi_ComponentType = wi_ComponentType wi,
      wi_Title = wi_Title wi, wi_Severity = wi_Severity wi, wi_State = wi_State wi,
      wi_SignalCount = wi_SignalCount wi, wi_AssignedTo = wi_AssignedTo wi,
      wi_CreatedAt = pg_ts (wi_CreatedAt wi), wi_UpdatedAt = pg_ts (wi_UpdatedAt wi),
      wi_ResolvedAt = None, wi_ClosedAt = None, wi_MTTR = None\<rparr>"

definition inserted_rca :: "RCA \<Rightarrow> RCA" where
  "inserted_rca r = r\<lparr>rca_IncidentStart := pg_ts (rca_IncidentStart r),
                      rca_IncidentEnd := pg_ts (rca_IncidentEnd r),
                      rca_SubmittedAt := pg_ts (rca_SubmittedAt r)\<rparr>"

definition on_work_item :: "string \<Rightarrow> (WorkItem \<Rightarrow> WorkItem) \<Rightarrow> pg_db \<Rightarrow> pg_db" where
  "on_work_item i f db = db\<lparr>t_work_items := upd_where wi_ID i f (t_work_items db)\<rparr>"

primrec run_stmt :: "pg_stmt \<Rightarrow> pg_db \<Rightarrow> pg_db" where
  "run_stmt (INSERT_work_item wi) db =
     db\<lparr>t_work_items := t_work_items db @ [inserted_work_item wi]\<rparr>"
| "run_stmt (UPDATE_resolved st t1 t2 i) db =
     on_work_item i (\<lambda>r. r\<lparr>wi_State := st, wi_ResolvedAt := Some (pg_ts t1),
       wi_UpdatedAt := pg_ts t2\<rparr>) db"
| "run_stmt (UPDATE_closed st t1 t2 mttr i) db =
     on_work_item i (\<lambda>r. r\<lparr>wi_State := st, wi_ClosedAt := Some (pg_ts t1),
       wi_UpdatedAt := pg_ts t2, wi_MTTR := mttr\<rparr>) db"
| "run_stmt (UPDATE_state st t i) db =
     on_work_item i (\<lambda>r. r\<lparr>wi_State := st, wi_UpdatedAt := pg_ts t\<rparr>) db"
| "run_stmt (UPDATE_severity sv t i) db =
     on_work_item i (\<lambda>r. r\<lparr>wi_Severity := sv, wi_UpdatedAt := pg_ts t\<rparr>) db"
| "run_stmt (UPDATE_signal_count t i) db =
     on_work_item i (\<lambda>r. r\<lparr>wi_SignalCount := wi_SignalCount r + 1, wi_UpdatedAt := pg_ts t\<rparr>) db"
| "run_stmt (INSERT_rca r) db = db\<lparr>t_rcas := t_rcas db @ [inserted_rca r]\<rparr>"
| "run_stmt (UPSERT_timeseries b cid ct sv) db =
     (let k = (pg_ts b, cid, sv) in
      if has_row ts_key k (t_timeseries db)
      then db\<lparr>t_timeseries :=
             upd_where ts_key k (\<lambda>r. r\<lparr>ts_signal_count := ts_signal_count r + 1\<rparr>) (t_timeseries db)\<rparr>
      else db\<lparr>t_timeseries := t_timeseries db @
             [\<lparr>ts_bucket = pg_ts b, ts_component_id = cid, ts_component_type = ct,
               ts_severity = sv, ts_signal_count = 1\<rparr>]\<rparr>)"

text \<open>\<open>None\<close>: the statement violates a constraint and changes nothing.\<close>

definition apply_stmt :: "pg_stmt \<Rightarrow> pg_db \<Rightarrow> pg_db option" where
  "apply_stmt s db = (let db' = run_stmt s db in if schema_ok db' then Some db' else None)"

lemma apply_stmt_Some_iff:
  "apply_stmt s db = Some db' \<longleftrightarrow> db' = run_stmt s db \<and> schema_ok (run_stmt s db)"
  by (auto simp: apply_stmt_def Let_def)

lemma on_work_item_tables [simp]:
  "t_rcas (on_work_item i f db) = t_rcas db"
  "t_timeseries (on_work_item i f db) = t_timeseries db"
  "t_work_items (on_work_item i f db) = upd_where wi_ID i f (t_work_items db)"
  by (simp_all add: on_work_item_def)

subsection \<open>The queries\<close>

datatype wi_query = All_items | Active_items

primrec wi_selected :: "wi_query \<Rightarrow> WorkItem \<Rightarrow> bool" where
  "wi_selected All_items r = True"
| "wi_selected Active_items r = (wi_State r \<in> {StateOpen, StateInvestigating})"

definition sev_rank :: "Severity \<Rightarrow> nat" where
  "sev_rank s = (if s = SeverityP0 then 0 else if s = SeverityP1 then 1
                 else if s = SeverityP2 then 2 else 3)"

text \<open>\<open>ORDER BY CASE severity ... END ASC, created_at DESC\<close>; the order of ties is not specified.\<close>

definition wi_order :: "WorkItem \<Rightarrow> nat \<times> int" where
  "wi_order r = (sev_rank (wi_Severity r), - wi_CreatedAt r)"

definition state_count :: "WorkItemState \<Rightarrow> pg_db \<Rightarrow> int" where
  "state_count st db = int (length (filter (\<lambda>r. wi_State r = st) (t_work_items db)))"

text \<open>A result set: the rows, each scanned or with its scan error, and the final \<open>rows.Err()\<close>.\<close>

type_synonym 'a rows = "(go_error + 'a) list \<times> go_error option"

subsection \<open>The outside world\<close>

text \<open>
  A Redis value is a byte string; the text that \<open>json.Marshal\<close> makes of a dashboard state is kept
  as the state itself (\<open>RJson\<close>), which \<open>json.Unmarshal\<close> gives back. Each key has an instant of
  expiry.
\<close>

datatype redis_val = RBytes string | RJson DashboardState

type_synonym redis_db = "string \<Rightarrow> (redis_val \<times> go_time) option"

definition redis_live :: "redis_db \<Rightarrow> go_time \<Rightarrow> string \<Rightarrow> redis_val option" where
  "redis_live db t k = (case db k of None \<Rightarrow> None | Some (v, x) \<Rightarrow> if t < x then Some v else None)"

record 'o ext =
  x_uuid :: "'o \<Rightarrow> string \<times> 'o"
  x_now :: "'o \<Rightarrow> go_time \<times> 'o"
  x_wait :: "duration \<Rightarrow> 'o \<Rightarrow> go_error option \<times> 'o"
  x_pg_exec :: "pg_stmt \<Rightarrow> pg_db \<Rightarrow> 'o \<Rightarrow> go_error option \<times> pg_db \<times> 'o"
  x_pg_item :: "string \<Rightarrow> pg_db \<Rightarrow> 'o \<Rightarrow> (WorkItem \<times> go_error option) \<times> 'o"
  x_pg_rca :: "string \<Rightarrow> pg_db \<Rightarrow> 'o \<Rightarrow> (RCA \<times> go_error option) \<times> 'o"
  x_pg_list :: "wi_query \<Rightarrow> pg_db \<Rightarrow> 'o \<Rightarrow> (go_error + WorkItem rows) \<times> 'o"
  x_pg_counts :: "pg_db \<Rightarrow> 'o \<Rightarrow> (go_error + (WorkItemState \<times> int) rows) \<times> 'o"
  x_mongo_insert :: "Signal \<Rightarrow> Signal list \<Rightarrow> 'o \<Rightarrow> go_error option \<times> Signal list \<times> 'o"
  x_mongo_link :: "string \<Rightarrow> string \<Rightarrow> Signal list \<Rightarrow> 'o \<Rightarrow> go_error option \<times> Signal list \<times> 'o"
  x_mongo_find :: "string option \<Rightarrow> int \<Rightarrow> Signal list \<Rightarrow> 'o \<Rightarrow>
     (go_error + go_error + Signal list) \<times> 'o"
  x_mongo_count :: "string \<Rightarrow> Signal list \<Rightarrow> 'o \<Rightarrow> (go_error + int) \<times> 'o"
  x_bson :: "Signal \<Rightarrow> Signal"
  x_redis_now :: "'o \<Rightarrow> go_time"
  x_redis_get :: "string \<Rightarrow> redis_db \<Rightarrow> 'o \<Rightarrow> (go_error + redis_val) \<times> 'o"
  x_redis_set :: "string \<Rightarrow> redis_val \<Rightarrow> duration \<Rightarrow> redis_db \<Rightarrow> 'o \<Rightarrow> go_error option \<times> redis_db \<times> 'o"
  x_redis_del :: "string \<Rightarrow> redis_db \<Rightarrow> 'o \<Rightarrow> go_error option \<times> redis_db \<times> 'o"
  x_redis_incr :: "string \<Rightarrow> duration \<Rightarrow> redis_db \<Rightarrow> 'o \<Rightarrow> go_error option \<times> redis_db \<times> 'o"
  x_redis_mget :: "string list \<Rightarrow> redis_db \<Rightarrow> 'o \<Rightarrow> (go_error + redis_val option list) \<times> 'o"
  x_sscanf :: "string \<Rightarrow> float64 option"
  x_marshal_err :: "DashboardState \<Rightarrow> go_error option"
  x_json_text :: "DashboardState \<Rightarrow> string"
  x_unmarshal :: "string \<Rightarrow> go_error + DashboardState"

record 'o world =
  w_pg :: pg_db
  w_mongo :: "Signal list"
  w_redis :: redis_db
  w_env :: 'o

text \<open>The calls as functions of the world: a call changes the part of its own service only.\<close>

definition uuid_New :: "'o ext \<Rightarrow> 'o world \<Rightarrow> string \<times> 'o world" where
  "uuid_New E w = (let (u, v) = x_uuid E (w_env w) in (u, w\<lparr>w_env := v\<rparr>))"

definition time_Now :: "'o ext \<Rightarrow> 'o world \<Rightarrow> go_time \<times> 'o world" where
  "time_Now E w = (let (t, v) = x_now E (w_env w) in (t, w\<lparr>w_env := v\<rparr>))"

definition ctx_wait :: "'o ext \<Rightarrow> duration \<Rightarrow> 'o world \<Rightarrow> go_error option \<times> 'o world" where
  "ctx_wait E d w = (let (e, v) = x_wait E d (w_env w) in (e, w\<lparr>w_env := v\<rparr>))"

definition pg_Exec :: "'o ext \<Rightarrow> pg_stmt \<Rightarrow> 'o world \<Rightarrow> go_error option \<times> 'o world" where
  "pg_Exec E s w = (let (e, db, v) = x_pg_exec E s (w_pg w) (w_env w)
     in (e, w\<lparr>w_pg := db, w_env := v\<rparr>))"

text \<open>What each call leaves unchanged. The clock, the generator and the waits touch no store.\<close>

definition same_stores :: "'o world \<Rightarrow> 'o world \<Rightarrow> bool" where
  "same_stores w w' \<longleftrightarrow> w_pg w' = w_pg w \<and> w_mongo w' = w_mongo w \<and> w_redis w' = w_redis w"

lemma same_stores_refl [simp]: "same_stores w w"
  by (simp add: same_stores_def)

lemma same_stores_trans [trans]: "same_stores u v \<Longrightarrow> same_stores v w \<Longrightarrow> same_stores u w"
  by (simp add: same_stores_def)

lemma uuid_New_frame: "uuid_New E w = (u, w') \<Longrightarrow> same_stores w w'"
  by (auto simp: uuid_New_def same_stores_def split: prod.splits)

lemma time_Now_frame: "time_Now E w = (t, w') \<Longrightarrow> same_stores w w'"
  by (auto simp: time_Now_def same_stores_def split: prod.splits)

lemma ctx_wait_frame: "ctx_wait E d w = (r, w') \<Longrightarrow> same_stores w w'"
  by (auto simp: ctx_wait_def same_stores_def split: prod.splits)

lemma pg_Exec_frame: "pg_Exec E s w = (r, w') \<Longrightarrow> w_mongo w' = w_mongo w \<and> w_redis w' = w_redis w"
  by (auto simp: pg_Exec_def split: prod.splits)

subsection \<open>What the backend relies on\<close>

text \<open>
  PostgreSQL. A statement that reports success has been executed; one that reports an error has
  been executed or not. A query reports the committed rows or an error of the driver.
\<close>

locale postgres_service =
  fixes E :: "'o ext"
  assumes exec_ok: "x_pg_exec E s db v = (None, db', v') \<Longrightarrow> apply_stmt s db = Some db'"
    and exec_err: "x_pg_exec E s db v = (Some e, db', v') \<Longrightarrow>
      external_error e \<and> (db' = db \<or> apply_stmt s db = Some db')"
    and item_ok: "x_pg_item E i db v = ((r, None), v') \<Longrightarrow>
      row_with wi_ID i (t_work_items db) = Some r"
    and item_err: "x_pg_item E i db v = ((r, Some e), v') \<Longrightarrow>
      external_error e \<or> e = ErrNoRows \<and> row_with wi_ID i (t_work_items db) = None"
    and rca_ok: "x_pg_rca E i db v = ((c, None), v') \<Longrightarrow>
      row_with rca_WorkItemID i (t_rcas db) = Some c"
    and rca_err: "x_pg_rca E i db v = ((c, Some e), v') \<Longrightarrow>
      external_error e \<or> e = ErrNoRows \<and> row_with rca_WorkItemID i (t_rcas db) = None"
    and list_ok: "x_pg_list E q db v = (Inr (map Inr rs, None), v') \<Longrightarrow>
      mset rs = mset (filter (wi_selected q) (t_work_items db)) \<and> sorted (map wi_order rs)"
    and counts_ok: "x_pg_counts E db v = (Inr (map Inr cs, None), v') \<Longrightarrow>
      distinct (map fst cs) \<and> set cs = {(st, n). n = state_count st db \<and> n \<noteq> 0}"
    and wait_err: "x_wait E d v = (Some e, v') \<Longrightarrow> external_error e"

text \<open>MongoDB. \<open>x_bson\<close> is a document as it is read back after being stored.\<close>

definition newest_first :: "Signal list \<Rightarrow> bool" where
  "newest_first ss = sorted (map (\<lambda>s. - sig_ReceivedAt s) ss)"

definition mongo_match :: "string option \<Rightarrow> Signal \<Rightarrow> bool" where
  "mongo_match f s = (case f of None \<Rightarrow> True | Some i \<Rightarrow> sig_WorkItemID s = i)"

locale mongo_service =
  fixes E :: "'o ext"
  assumes insert_ok: "x_mongo_insert E s docs v = (None, docs', v') \<Longrightarrow>
      \<not> has_row sig_ID (sig_ID s) docs \<and> docs' = docs @ [x_bson E s]"
    and insert_err: "x_mongo_insert E s docs v = (Some e, docs', v') \<Longrightarrow>
      external_error e \<and> (docs' = docs \<or>
        \<not> has_row sig_ID (sig_ID s) docs \<and> docs' = docs @ [x_bson E s])"
    and bson_fields: "sig_ID (x_bson E s) = sig_ID s" "sig_ComponentID (x_bson E s) = sig_ComponentID s"
      "sig_WorkItemID (x_bson E s) = sig_WorkItemID s"
    and find_ok: "x_mongo_find E f l docs v = (Inr (Inr ss), v') \<Longrightarrow> 0 < l \<Longrightarrow>
      \<exists>ys. mset ys = mset (filter (mongo_match f) docs) \<and> newest_first ys \<and> ss = take (nat l) ys"
    and link_frame: "x_mongo_link E i wid docs v = (None, docs', v') \<Longrightarrow>
      docs' = upd_where sig_ID i (\<lambda>s. s\<lparr>sig_WorkItemID := wid\<rparr>) docs"
    and count_ok: "x_mongo_count E c docs v = (Inr n, v') \<Longrightarrow>
      n = int (length (filter (\<lambda>s. sig_ComponentID s = c) docs))"
    and wait_err: "x_wait E d v = (Some e, v') \<Longrightarrow> external_error e"

text \<open>
  Redis. A command takes effect at an instant of the server clock between its start and its end.
\<close>

locale redis_service =
  fixes E :: "'o ext"
  assumes get_ok: "x_redis_get E k db v = (Inr a, v') \<Longrightarrow>
      \<exists>t. x_redis_now E v \<le> t \<and> t \<le> x_redis_now E v' \<and> redis_live db t k = Some a"
    and get_err: "x_redis_get E k db v = (Inl e, v') \<Longrightarrow>
      external_error e \<or> e = ErrRedisNil \<and>
        (\<exists>t. x_redis_now E v \<le> t \<and> t \<le> x_redis_now E v' \<and> redis_live db t k = None)"
    and set_ok: "x_redis_set E k a d db v = (None, db', v') \<Longrightarrow>
      \<exists>t. x_redis_now E v \<le> t \<and> t \<le> x_redis_now E v' \<and> db' = db(k \<mapsto> (a, t + d))"
    and set_err: "x_redis_set E k a d db v = (Some e, db', v') \<Longrightarrow>
      external_error e \<and> (\<forall>k'. k' \<noteq> k \<longrightarrow> db' k' = db k') \<and>
        (db' k = db k \<or> (\<exists>t. db' k = Some (a, t)))"
    and del_ok: "x_redis_del E k db v = (None, db', v') \<Longrightarrow> db' = db(k := None)"
    and del_err: "x_redis_del E k db v = (Some e, db', v') \<Longrightarrow>
      external_error e \<and> (db' = db \<or> db' = db(k := None))"
    and incr_frame: "x_redis_incr E k d db v = (r, db', v') \<Longrightarrow> k' \<noteq> k \<Longrightarrow> db' k' = db k'"
    and incr_ok: "x_redis_incr E k d db v = (None, db', v') \<Longrightarrow>
      \<exists>t n. x_redis_now E v \<le> t \<and> t \<le> x_redis_now E v' \<and>
        (redis_live db t k = None \<and> n = 0 \<or> redis_live db t k = Some (RBytes (itoa n))) \<and>
        db' k = Some (RBytes (itoa (n + 1)), t + d)"
    and mget_ok: "x_redis_mget E ks db v = (Inr as, v') \<Longrightarrow>
      \<exists>t. x_redis_now E v \<le> t \<and> t \<le> x_redis_now E v' \<and> as = map (redis_live db t) ks"
    and sscanf_itoa: "x_sscanf E (itoa n) = Some (of_int n)"

text \<open>The UUID generator returns a text that is not empty.\<close>

locale uuid_service =
  fixes E :: "'o ext"
  assumes uuid_nonempty: "x_uuid E v = (u, v') \<Longrightarrow> u \<noteq> []"

end
