(* ===== verification/RefEnv.thy ===== *)
theory RefEnv
  imports Services
begin

text \<open>
  An instance of the outside world that satisfies every law of \<open>Services\<close>: the stores run in
  memory, statements by \<open>apply_stmt\<close>, queries by sorting and filtering the tables, Redis keys
  expire by the clock. The state \<open>ref_o\<close> holds the clock (every reading advances it by a
  microsecond), the number of identifiers given out, and a script of faults: a call to a store
  whose entry in the script is True reports an error and does nothing. It shows that the laws can
  hold together, and closed instances of the theorems are evaluated in it.
\<close>

record ref_o =
  ro_clock :: go_time
  ro_next :: nat
  ro_faults :: "bool list"

definition ref_fault :: go_error where
  "ref_fault = ExtError ''connection refused''"

definition pop_fault :: "ref_o \<Rightarrow> bool \<times> ref_o" where
  "pop_fault v = (case ro_faults v of [] \<Rightarrow> (False, v) | f # fs \<Rightarrow> (f, v\<lparr>ro_faults := fs\<rparr>))"

definition ref_zero_item :: WorkItem where
  "ref_zero_item = \<lparr>wi_ID = [], wi_ComponentID = [], wi_ComponentType = [], wi_Title = [],
     wi_Severity = [], wi_State = [], wi_SignalCount = 0, wi_AssignedTo = [], wi_CreatedAt = 0,
     wi_UpdatedAt = 0, wi_ResolvedAt = None, wi_ClosedAt = None, wi_MTTR = None\<rparr>"

definition ref_zero_rca :: RCA where
  "ref_zero_rca = \<lparr>rca_ID = [], rca_WorkItemID = [], rca_IncidentStart = 0, rca_IncidentEnd = 0,
     rca_RootCauseCategory = [], rca_RootCauseDetail = [], rca_FixApplied = [],
     rca_PreventionSteps = [], rca_SubmittedBy = [], rca_SubmittedAt = 0\<rparr>"

definition ref_exec :: "pg_stmt \<Rightarrow> pg_db \<Rightarrow> ref_o \<Rightarrow> go_error option \<times> pg_db \<times> ref_o" where
  "ref_exec s db v = (case pop_fault v of (f, v') \<Rightarrow>
     if f then (Some ref_fault, db, v')
     else case apply_stmt s db of
         None \<Rightarrow> (Some (ExtError ''constraint violation''), db, v')
       | Some db' \<Rightarrow> (None, db', v'))"

definition ref_row :: "('r \<Rightarrow> string) \<Rightarrow> 'r \<Rightarrow> string \<Rightarrow> 'r list \<Rightarrow> ref_o \<Rightarrow> ('r \<times> go_error option) \<times> ref_o"
  where
  "ref_row key z i rows v = (case pop_fault v of (f, v') \<Rightarrow>
     if f then ((z, Some ref_fault), v')
     else case row_with key i rows of
         None \<Rightarrow> ((z, Some ErrNoRows), v')
       | Some r \<Rightarrow> ((r, None), v'))"

definition ref_list :: "wi_query \<Rightarrow> pg_db \<Rightarrow> ref_o \<Rightarrow> (go_error + WorkItem rows) \<times> ref_o" where
  "ref_list q db v = (case pop_fault v of (f, v') \<Rightarrow>
     if f then (Inl ref_fault, v')
     else (Inr (map Inr (sort_key wi_order (filter (wi_selected q) (t_work_items db))), None), v'))"

definition ref_counts :: "pg_db \<Rightarrow> ref_o \<Rightarrow> (go_error + (WorkItemState \<times> int) rows) \<times> ref_o" where
  "ref_counts db v = (case pop_fault v of (f, v') \<Rightarrow>
     if f then (Inl ref_fault, v')
     else (Inr (map Inr (map (\<lambda>st. (st, state_count st db))
             (remdups (map wi_State (t_work_items db)))), None), v'))"

definition ref_insert :: "Signal \<Rightarrow> Signal list \<Rightarrow> ref_o \<Rightarrow> go_error option \<times> Signal list \<times> ref_o" where
  "ref_insert s docs v = (case pop_fault v of (f, v') \<Rightarrow>
     if f then (Some ref_fault, docs, v')
     else if has_row sig_ID (sig_ID s) docs then (Some (ExtError ''duplicate key''), docs, v')
     else (None, docs @ [s], v'))"

definition ref_link ::
  "string \<Rightarrow> string \<Rightarrow> Signal list \<Rightarrow> ref_o \<Rightarrow> go_error option \<times> Signal list \<times> ref_o" where
  "ref_link i wid docs v = (case pop_fault v of (f, v') \<Rightarrow>
     if f then (Some ref_fault, docs, v')
     else (None, upd_where sig_ID i (\<lambda>s. s\<lparr>sig_WorkItemID := wid\<rparr>) docs, v'))"

definition ref_find ::
  "string option \<Rightarrow> int \<Rightarrow> Signal list \<Rightarrow> ref_o \<Rightarrow> (go_error + go_error + Signal list) \<times> ref_o" where
  "ref_find q l docs v = (case pop_fault v of (f, v') \<Rightarrow>
     if f then (Inl ref_fault, v')
     else (Inr (Inr (take (nat l) (sort_key (\<lambda>s. - sig_ReceivedAt s) (filter (mongo_match q) docs)))), v'))"

definition ref_count :: "string \<Rightarrow> Signal list \<Rightarrow> ref_o \<Rightarrow> (go_error + int) \<times> ref_o" where
  "ref_count c docs v = (case pop_fault v of (f, v') \<Rightarrow>
     if f then (Inl ref_fault, v')
     else (Inr (int (length (filter (\<lambda>s. sig_ComponentID s = c) docs))), v'))"

definition ref_get :: "string \<Rightarrow> redis_db \<Rightarrow> ref_o \<Rightarrow> (go_error + redis_val) \<times> ref_o" where
  "ref_get k db v = (case pop_fault v of (f, v') \<Rightarrow>
     if f then (Inl ref_fault, v')
     else case redis_live db (ro_clock v) k of None \<Rightarrow> (Inl ErrRedisNil, v') | Some a \<Rightarrow> (Inr a, v'))"

definition ref_set ::
  "string \<Rightarrow> redis_val \<Rightarrow> duration \<Rightarrow> redis_db \<Rightarrow> ref_o \<Rightarrow> go_error option \<times> redis_db \<times> ref_o" where
  "ref_set k a d db v = (case pop_fault v of (f, v') \<Rightarrow>
     if f then (Some ref_fault, db, v') else (None, db(k \<mapsto> (a, ro_clock v + d)), v'))"

definition ref_del :: "string \<Rightarrow> redis_db \<Rightarrow> ref_o \<Rightarrow> go_error option \<times> redis_db \<times> ref_o" where
  "ref_del k db v = (case pop_fault v of (f, v') \<Rightarrow>
     if f then (Some ref_fault, db, v') else (None, db(k := None), v'))"

text \<open>Counters are texts; the engine reads the digits of the old value.\<close>

definition atoi :: "string \<Rightarrow> int option" where
  "atoi s = (case s of
       [] \<Rightarrow> None
     | c # cs \<Rightarrow> if c = CHR ''-'' then (if list_all is_digit cs \<and> cs \<noteq> [] then Some (- int (digits_val 0 cs)) else None)
                 else if list_all is_digit s then Some (int (digits_val 0 s)) else None)"

definition ref_incr ::
  "string \<Rightarrow> duration \<Rightarrow> redis_db \<Rightarrow> ref_o \<Rightarrow> go_error option \<times> redis_db \<times> ref_o" where
  "ref_incr k d db v = (case pop_fault v of (f, v') \<Rightarrow>
     if f then (Some ref_fault, db, v')
     else case redis_live db (ro_clock v) k of
         None \<Rightarrow> (None, db(k \<mapsto> (RBytes (itoa 1), ro_clock v + d)), v')
       | Some (RJson _) \<Rightarrow> (Some (ExtError ''not an integer''), db, v')
       | Some (RBytes s) \<Rightarrow> (case atoi s of
             Some n \<Rightarrow> if itoa n = s then (None, db(k \<mapsto> (RBytes (itoa (n + 1)), ro_clock v + d)), v')
                       else (Some (ExtError ''not an integer''), db, v')
           | None \<Rightarrow> (Some (ExtError ''not an integer''), db, v')))"

definition ref_mget :: "string list \<Rightarrow> redis_db \<Rightarrow> ref_o \<Rightarrow> (go_error + redis_val option list) \<times> ref_o" where
  "ref_mget ks db v = (case pop_fault v of (f, v') \<Rightarrow>
     if f then (Inl ref_fault, v') else (Inr (map (redis_live db (ro_clock v)) ks), v'))"

definition ref_env :: "ref_o ext" where
  "ref_env = \<lparr>
     x_uuid = (\<lambda>v. (''uuid-'' @ show_nat (ro_next v), v\<lparr>ro_next := ro_next v + 1\<rparr>)),
     x_now = (\<lambda>v. (ro_clock v, v\<lparr>ro_clock := ro_clock v + 1000\<rparr>)),
     x_wait = (\<lambda>d v. (None, v\<lparr>ro_clock := ro_clock v + d\<rparr>)),
     x_pg_exec = ref_exec,
     x_pg_item = (\<lambda>i db. ref_row wi_ID ref_zero_item i (t_work_items db)),
     x_pg_rca = (\<lambda>i db. ref_row rca_WorkItemID ref_zero_rca i (t_rcas db)),
     x_pg_list = ref_list,
     x_pg_counts = ref_counts,
     x_mongo_insert = ref_insert,
     x_mongo_link = ref_link,
     x_mongo_find = ref_find,
     x_mongo_count = ref_count,
     x_bson = (\<lambda>s. s),
     x_redis_now = ro_clock,
     x_redis_get = ref_get,
     x_redis_set = ref_set,
     x_redis_del = ref_del,
     x_redis_incr = ref_incr,
     x_redis_mget = ref_mget,
     x_sscanf = (\<lambda>s. map_option of_int (atoi s)),
     x_marshal_err = (\<lambda>d. None),
     x_json_text = (\<lambda>d. ''{}''),
     x_unmarshal = (\<lambda>s. Inl (ExtError ''invalid character''))\<rparr>"

lemmas ref_defs = ref_exec_def ref_row_def ref_list_def ref_counts_def ref_insert_def ref_link_def
  ref_find_def ref_count_def ref_get_def ref_set_def ref_del_def ref_incr_def ref_mget_def
  pop_fault_def ref_fault_def

lemma pop_fault_clock: "pop_fault v = (f, v') \<Longrightarrow> ro_clock v' = ro_clock v"
  by (auto simp: pop_fault_def split: list.splits)

lemma atoi_itoa: "atoi (itoa n) = Some n"
proof (cases "n < 0")
  case True
  then show ?thesis
    by (simp add: itoa_def atoi_def show_nat_digits show_nat_not_Nil digits_val_show_nat)
next
  case False
  obtain c cs where c: "show_nat (nat n) = c # cs" "is_digit c"
    using show_nat_not_Nil [of "nat n"] show_nat_digits [of "nat n"]
    by (cases "show_nat (nat n)") auto
  then have "c \<noteq> CHR ''-''" by (auto simp: is_digit_def)
  with c False show ?thesis
    using show_nat_digits [of "nat n"] digits_val_show_nat [of "nat n"]
    by (simp add: itoa_def atoi_def)
qed

lemma ext_fault [simp]: "external_error ref_fault" "external_error (ExtError s)"
  by (auto simp: external_error_def ref_fault_def)

lemma map_Inr_eq_iff: "map Inr xs = map Inr ys \<longleftrightarrow> xs = ys"
  by (simp add: inj_map_eq_map)

interpretation ref_pg: postgres_service ref_env
proof (unfold_locales, goal_cases)
  case (8 db v cs v')
  then have cs: "cs = map (\<lambda>st. (st, state_count st db)) (remdups (map wi_State (t_work_items db)))"
    by (simp only: ref_env_def ref_counts_def ext.simps map_Inr_eq_iff
        split: prod.splits if_splits) (auto simp: map_Inr_eq_iff simp del: map_map)
  have "state_count st db \<noteq> 0 \<longleftrightarrow> st \<in> wi_State ` set (t_work_items db)" for st
    by (auto simp: state_count_def filter_empty_conv)
  then show ?case by (auto simp: cs comp_def image_iff)
qed (auto simp: ref_env_def ref_defs map_Inr_eq_iff external_error_def
       split: prod.splits if_splits option.splits list.splits)

lemma ref_find_sorted:
  assumes "ref_find q l docs v = (Inr (Inr ss), v')"
  shows "\<exists>ys. mset ys = mset (filter (mongo_match q) docs) \<and> newest_first ys \<and> ss = take (nat l) ys"
  using assms by (intro exI [of _ "sort_key (\<lambda>s. - sig_ReceivedAt s) (filter (mongo_match q) docs)"])
    (auto simp: ref_find_def newest_first_def split: prod.splits if_splits)

interpretation ref_mongo: mongo_service ref_env
proof (unfold_locales, goal_cases)
  case (6 f l docs v ss v')
  then show ?case using ref_find_sorted [of f l docs v ss v'] by (simp add: ref_env_def)
qed (auto simp: ref_env_def ref_defs external_error_def
      split: prod.splits if_splits option.splits list.splits)

interpretation ref_redis: redis_service ref_env
proof (unfold_locales, goal_cases)
  case (8 k d db v db' v')
  show ?case
  proof (cases "redis_live db (ro_clock v) k")
    case None
    with 8 show ?thesis
      by (auto simp: ref_env_def ref_incr_def split: prod.splits if_splits
          dest!: pop_fault_clock intro: exI [of _ "ro_clock v"] exI [of _ "0 :: int"])
  next
    case (Some a)
    with 8 show ?thesis
      by - (rule exI [of _ "ro_clock v"], auto simp: ref_env_def ref_incr_def
          split: prod.splits if_splits redis_val.splits option.splits dest!: pop_fault_clock)
  qed
qed (auto simp: ref_env_def ref_defs external_error_def atoi_itoa
       split: prod.splits if_splits option.splits list.splits redis_val.splits)

interpretation ref_uuid: uuid_service ref_env
  by unfold_locales (auto simp: ref_env_def)

text \<open>Everything the backend relies on, together.\<close>

locale backend =
  pg: postgres_service E + mg: mongo_service E + rd: redis_service E + uu: uuid_service E
  for E :: "'o ext"

interpretation ref: backend ref_env ..

text \<open>The empty system, started at an instant with the given fault script.\<close>

definition ref_world :: "go_time \<Rightarrow> bool list \<Rightarrow> ref_o world" where
  "ref_world t fs = \<lparr>w_pg = empty_db, w_mongo = [], w_redis = (\<lambda>_. None),
     w_env = \<lparr>ro_clock = t, ro_next = 0, ro_faults = fs\<rparr>\<rparr>"

text \<open>Sample rows: one work item in a given state, a complete RCA for it, and worlds that hold them.\<close>

definition ex_item :: "WorkItemState \<Rightarrow> WorkItem" where
  "ex_item st = \<lparr>wi_ID = ''w1'', wi_ComponentID = ''db-1'', wi_ComponentType = ComponentRDBMS,
     wi_Title = ''Incident: RDBMS failure on db-1'', wi_Severity = SeverityP1, wi_State = st,
     wi_SignalCount = 1, wi_AssignedTo = [], wi_CreatedAt = 1000, wi_UpdatedAt = 1000,
     wi_ResolvedAt = (if st = StateResolved then Some 5000 else None), wi_ClosedAt = None, wi_MTTR = None\<rparr>"

definition ex_rca :: RCA where
  "ex_rca = \<lparr>rca_ID = ''r1'', rca_WorkItemID = ''w1'', rca_IncidentStart = 1000,
     rca_IncidentEnd = 60000001000, rca_RootCauseCategory = RCACategoryDatabase,
     rca_RootCauseDetail = ''connection pool exhausted'', rca_FixApplied = ''raised the limit'',
     rca_PreventionSteps = ''alert on pool usage'', rca_SubmittedBy = ''ops'', rca_SubmittedAt = 7000\<rparr>"

definition ex_world :: "WorkItemState \<Rightarrow> RCA list \<Rightarrow> bool list \<Rightarrow> ref_o world" where
  "ex_world st rs fs = (ref_world 100000000000 fs)\<lparr>w_pg :=
     \<lparr>t_work_items = [ex_item st], t_rcas = rs, t_timeseries = []\<rparr>\<rparr>"

end
