(* ===== verification/Retry.thy ===== *)
theory Retry
  imports RefEnv
begin

text \<open>
  The retry helper. \<open>PostgresStore.withRetry\<close> and \<open>MongoStore.withRetry\<close> are the same loop
  with a different label: up to three attempts, after each failed one a wait of
  \<open>2^attempt * 100 ms\<close> that the context may cut short. The operation \<open>fn\<close> and the wait are
  arguments. The locale \<open>retried_call\<close> states what a retried operation must guarantee (an attempt
  that reports success has had its effect, one that reports an error may have had it) and
  derives what the caller of \<open>withRetry\<close> may conclude: after success the effect has happened
  one to three times, after an error at most three times.
\<close>

definition backoff :: "nat \<Rightarrow> duration \<Rightarrow> duration" where
  "backoff attempt unit = 2 ^ attempt * unit"

definition hundred_ms :: duration where
  "hundred_ms = 100 * 1000000"

text \<open>\<open>fmt.Errorf("...: %w", err)\<close> with \<open>err\<close> possibly nil.\<close>

definition errorf_w :: "string \<Rightarrow> go_error option \<Rightarrow> go_error" where
  "errorf_w p err = (case err of Some e \<Rightarrow> Wrapped p e [] | None \<Rightarrow> NewError (p @ ''%!w(<nil>)''))"

function retry_loop ::
  "string \<Rightarrow> string \<Rightarrow> (duration \<Rightarrow> 's \<Rightarrow> go_error option \<times> 's) \<Rightarrow> ('s \<Rightarrow> go_error option \<times> 's) \<Rightarrow>
   nat \<Rightarrow> go_error option \<Rightarrow> 's \<Rightarrow> go_error option \<times> 's" where
  "retry_loop component op wait fn attempt err s =
     (if attempt \<le> 3 then
        (case fn s of
           (None, s1) \<Rightarrow> (None, s1)
         | (Some e, s1) \<Rightarrow>
             (case wait (backoff attempt hundred_ms) s1 of
                (Some ce, s2) \<Rightarrow> (Some ce, s2)
              | (None, s2) \<Rightarrow> retry_loop component op wait fn (attempt + 1) (Some e) s2))
      else (Some (errorf_w (component @ '': '' @ op @ '' failed after 3 attempts: '') err), s))"
  by pat_completeness auto
termination
  by (relation "measure (\<lambda>(component, op, wait, fn, attempt, err, s). 4 - attempt)") auto

declare retry_loop.simps [simp del]

definition withRetry ::
  "string \<Rightarrow> (duration \<Rightarrow> 's \<Rightarrow> go_error option \<times> 's) \<Rightarrow> string \<Rightarrow> ('s \<Rightarrow> go_error option \<times> 's) \<Rightarrow>
   's \<Rightarrow> go_error option \<times> 's" where
  "withRetry component wait op fn s = retry_loop component op wait fn 1 None s"

lemma retry_loop_unroll [simp]:
  "retry_loop c op wait fn 4 err s =
     (Some (errorf_w (c @ '': '' @ op @ '' failed after 3 attempts: '') err), s)"
  by (simp add: retry_loop.simps)

text \<open>An operation that succeeds at once is called once and the helper adds nothing.\<close>

lemma withRetry_first: "fn s = (None, s') \<Longrightarrow> withRetry c wait op fn s = (None, s')"
  by (simp add: withRetry_def retry_loop.simps)

subsection \<open>The contract of a retried operation\<close>

text \<open>\<open>happened n\<close>: the effect has taken place exactly \<open>n\<close> times between two states.\<close>

fun happened :: "('s \<Rightarrow> 's \<Rightarrow> bool) \<Rightarrow> ('s \<Rightarrow> 's \<Rightarrow> bool) \<Rightarrow> nat \<Rightarrow> 's \<Rightarrow> 's \<Rightarrow> bool" where
  "happened skip effect 0 s u = skip s u"
| "happened skip effect (Suc n) s u = (\<exists>t. effect s t \<and> happened skip effect n t u)"

locale retried_call =
  fixes fn :: "'s \<Rightarrow> go_error option \<times> 's"
    and wait :: "duration \<Rightarrow> 's \<Rightarrow> go_error option \<times> 's"
    and effect :: "'s \<Rightarrow> 's \<Rightarrow> bool"
    and skip :: "'s \<Rightarrow> 's \<Rightarrow> bool"
  assumes fn_ok: "fn s = (None, s') \<Longrightarrow> effect s s'"
    and fn_err: "fn s = (Some e, s') \<Longrightarrow> external_error e \<and> (skip s s' \<or> effect s s')"
    and wait_skip: "wait d s = (r, s') \<Longrightarrow> skip s s'"
    and wait_err: "wait d s = (Some e, s') \<Longrightarrow> external_error e"
    and skip_refl: "skip s s"
    and skip_trans: "skip s t \<Longrightarrow> skip t u \<Longrightarrow> skip s u"
    and skip_effect: "skip s t \<Longrightarrow> effect t u \<Longrightarrow> effect s u"
    and effect_skip: "effect s t \<Longrightarrow> skip t u \<Longrightarrow> effect s u"
begin

lemma happened_skip: "skip s t \<Longrightarrow> happened skip effect n t u \<Longrightarrow> happened skip effect n s u"
  by (cases n) (auto intro: skip_trans skip_effect)

lemma happened_Suc: "effect s t \<Longrightarrow> happened skip effect n t u \<Longrightarrow> happened skip effect (Suc n) s u"
  by auto

lemma failed_attempt:
  assumes "fn s = (Some e, s1)" and "wait d s1 = (r, s2)" and "happened skip effect n s2 u"
  shows "happened skip effect n s u \<or> happened skip effect (Suc n) s u"
proof -
  have n: "happened skip effect n s1 u"
    using wait_skip [OF assms(2)] assms(3) by (rule happened_skip)
  from fn_err [OF assms(1)] show ?thesis
    using n happened_skip happened_Suc by blast
qed

lemma retry_loop_count:
  assumes "retry_loop c op wait fn a err s = (r, u)" and "a + k = 4"
  shows "\<exists>n \<le> k. happened skip effect n s u \<and> (r = None \<longrightarrow> 1 \<le> n)"
  using assms
proof (induction k arbitrary: a err s)
  case 0
  then show ?case by (auto simp: skip_refl)
next
  case (Suc k)
  note step = retry_loop.simps [of c op wait fn a err s]
  obtain r1 s1 where f: "fn s = (r1, s1)" by fastforce
  show ?case
  proof (cases r1)
    case None
    with f Suc.prems have "r = None" "u = s1" by (simp_all add: step)
    moreover have "happened skip effect 1 s s1" using f None by (auto intro: fn_ok skip_refl)
    ultimately show ?thesis by (intro exI [of _ 1]) auto
  next
    case (Some e)
    obtain r2 s2 where w: "wait (backoff a hundred_ms) s1 = (r2, s2)" by fastforce
    have "\<exists>n \<le> k. happened skip effect n s2 u \<and> (r = None \<longrightarrow> 1 \<le> n)"
    proof (cases r2)
      case None
      with Suc.prems f Some w have "retry_loop c op wait fn (a + 1) (Some e) s2 = (r, u)"
        by (simp add: step)
      then show ?thesis using Suc.IH Suc.prems(2) by simp
    next
      case (Some ce)
      with \<open>r1 = Some e\<close> Suc.prems f w show ?thesis
        by (intro exI [of _ 0]) (auto simp: step skip_refl)
    qed
    then obtain n where n: "n \<le> k" "happened skip effect n s2 u" "r = None \<longrightarrow> 1 \<le> n"
      by blast
    have "happened skip effect n s u \<or> happened skip effect (Suc n) s u"
      using f Some w n(2) by (intro failed_attempt) auto
    with n show ?thesis by (metis Suc_le_mono le_SucI le_Suc_eq One_nat_def)
  qed
qed

lemma retry_success:
  "withRetry c wait op fn s = (None, u) \<Longrightarrow> \<exists>n \<in> {1..3}. happened skip effect n s u"
  using retry_loop_count [of c op 1 None s None u 3] by (force simp: withRetry_def)

lemma retry_failure:
  "withRetry c wait op fn s = (r, u) \<Longrightarrow> \<exists>n \<le> 3. happened skip effect n s u"
  using retry_loop_count [of c op 1 None s r u 3] by (force simp: withRetry_def)

text \<open>The errors of \<open>withRetry\<close> are none of the program's sentinels.\<close>

lemma retry_loop_error:
  assumes "retry_loop c op wait fn a err s = (Some e, u)" and "a + k = 4"
    and "k = 3 \<or> (\<exists>x. err = Some x \<and> external_error x)"
  shows "external_error e \<or> (\<exists>p x. e = Wrapped p x [] \<and> external_error x)"
  using assms
proof (induction k arbitrary: a err s)
  case 0
  then show ?case by (auto simp: errorf_w_def)
next
  case (Suc k)
  note step = retry_loop.simps [of c op wait fn a err s]
  from Suc.prems obtain e1 s1 where f: "fn s = (Some e1, s1)"
    by (auto simp: step split: prod.splits option.splits)
  obtain r2 s2 where w: "wait (backoff a hundred_ms) s1 = (r2, s2)" by fastforce
  show ?case
  proof (cases r2)
    case None
    with Suc.prems f w have "retry_loop c op wait fn (a + 1) (Some e1) s2 = (Some e, u)"
      by (simp add: step)
    then show ?thesis using Suc.IH Suc.prems(2) fn_err [OF f] by simp
  next
    case (Some ce)
    with Suc.prems f w wait_err [of _ s1 ce s2] show ?thesis by (auto simp: step)
  qed
qed

lemma retry_error:
  "withRetry c wait op fn s = (Some e, u) \<Longrightarrow>
     external_error e \<or> (\<exists>p x. e = Wrapped p x [] \<and> external_error x)"
  using retry_loop_error [of c op 1 None s e u 3] by (simp add: withRetry_def)

end

end
