(* ===== verification/PostgresStore.thy ===== *)
theory PostgresStore
  imports Retry
begin

text \<open>
  \<open>store/postgres.go\<close>: the operations of \<open>PostgresStore\<close> over the tables \<open>work_items\<close> and
  \<open>rcas\<close>, each with its retry. The lemmas say what a caller may conclude from each result:
  which row has changed and how, that nothing else has, that the constraints of the schema keep
  holding whatever the outcome, and that the listings are complete and ordered.
\<close>

subsection \<open>Operations\<close>

text \<open>A statement built from the current time, as in the closures that call \<open>time.Now()\<close>.\<close>

definition pg_Exec_now :: "'o ext \<Rightarrow> (go_time \<Rightarrow> pg_stmt) \<Rightarrow> 'o world \<Rightarrow> go_error option \<times> 'o world" where
  "pg_Exec_now E f w = (case time_Now E w of (now, w1) \<Rightarrow> pg_Exec E (f now) w1)"

definition pg_withRetry ::
  "'o ext \<Rightarrow> string \<Rightarrow> ('o world \<Rightarrow> go_error option \<times> 'o world) \<Rightarrow> 'o world \<Rightarrow> go_error option \<times> 'o world"
  where
  "pg_withRetry E op fn w = withRetry ''postgres'' (ctx_wait E) op fn w"

definition CreateWorkItem :: "'o ext \<Rightarrow> WorkItem \<Rightarrow> 'o world \<Rightarrow> go_error option \<times> 'o world" where
  "CreateWorkItem E wi w = pg_withRetry E ''CreateWorkItem'' (pg_Exec E (INSERT_work_item wi)) w"

definition GetWorkItem :: "'o ext \<Rightarrow> string \<Rightarrow> 'o world \<Rightarrow> (go_error + WorkItem) \<times> 'o world" where
  "GetWorkItem E i w =
     (case x_pg_item E i (w_pg w) (w_env w) of ((wi, err), v) \<Rightarrow>
        (case err of
           None \<Rightarrow> Inr wi
         | Some e \<Rightarrow> if e = ErrNoRows then Inl ErrWorkItemNotFound else Inl e, w\<lparr>w_env := v\<rparr>))"

text \<open>The statement that \<open>UpdateWorkItemState\<close> issues for each target state.\<close>

definition state_stmt :: "WorkItemState \<Rightarrow> float64 option \<Rightarrow> string \<Rightarrow> go_time \<Rightarrow> pg_stmt" where
  "state_stmt st mttr i now =
     (if st = StateResolved then UPDATE_resolved st now now i
      else if st = StateClosed then UPDATE_closed st now now mttr i
      else UPDATE_state st now i)"

definition UpdateWorkItemState ::
  "'o ext \<Rightarrow> string \<Rightarrow> WorkItemState \<Rightarrow> float64 option \<Rightarrow> 'o world \<Rightarrow> go_error option \<times> 'o world" where
  "UpdateWorkItemState E i st mttr w =
     pg_withRetry E ''UpdateWorkItemState'' (pg_Exec_now E (state_stmt st mttr i)) w"

definition UpdateWorkItemSeverity ::
  "'o ext \<Rightarrow> string \<Rightarrow> Severity \<Rightarrow> 'o world \<Rightarrow> go_error option \<times> 'o world" where
  "UpdateWorkItemSeverity E i severity w =
     pg_withRetry E ''UpdateWorkItemSeverity'' (pg_Exec_now E (\<lambda>now. UPDATE_severity severity now i)) w"

definition IncrementSignalCount :: "'o ext \<Rightarrow> string \<Rightarrow> 'o world \<Rightarrow> go_error option \<times> 'o world" where
  "IncrementSignalCount E i w =
     pg_withRetry E ''IncrementSignalCount'' (pg_Exec_now E (\<lambda>now. UPDATE_signal_count now i)) w"

text \<open>The loop over \<open>rows.Next()\<close>: the first scan error discards what has been read.\<close>

fun scan_rows :: "(go_error + 'a) list \<Rightarrow> 'a list \<Rightarrow> go_error + 'a list" where
  "scan_rows [] items = Inr items"
| "scan_rows (Inl e # rs) items = Inl e"
| "scan_rows (Inr r # rs) items = scan_rows rs (items @ [r])"

definition query_items ::
  "'o ext \<Rightarrow> wi_query \<Rightarrow> 'o world \<Rightarrow> (WorkItem list \<times> go_error option) \<times> 'o world" where
  "query_items E q w =
     (case x_pg_list E q (w_pg w) (w_env w) of (res, v) \<Rightarrow>
        (case res of
           Inl e \<Rightarrow> ([], Some e)
         | Inr (rows, rows_Err) \<Rightarrow>
             (case scan_rows rows [] of Inl e \<Rightarrow> ([], Some e) | Inr items \<Rightarrow> (items, rows_Err)),
         w\<lparr>w_env := v\<rparr>))"

definition ListWorkItems ::
  "'o ext \<Rightarrow> 'o world \<Rightarrow> (WorkItem list \<times> go_error option) \<times> 'o world" where
  "ListWorkItems E w = query_items E All_items w"

definition ListActiveWorkItems ::
  "'o ext \<Rightarrow> 'o world \<Rightarrow> (WorkItem list \<times> go_error option) \<times> 'o world" where
  "ListActiveWorkItems E w = query_items E Active_items w"

record counts =
  c_open :: int
  c_investigating :: int
  c_resolved :: int
  c_closed :: int

definition zero_counts :: counts where
  "zero_counts = \<lparr>c_open = 0, c_investigating = 0, c_resolved = 0, c_closed = 0\<rparr>"

definition set_count :: "WorkItemState \<Rightarrow> int \<Rightarrow> counts \<Rightarrow> counts" where
  "set_count st n c =
     (if st = StateOpen then c\<lparr>c_open := n\<rparr>
      else if st = StateInvestigating then c\<lparr>c_investigating := n\<rparr>
      else if st = StateResolved then c\<lparr>c_resolved := n\<rparr>
      else if st = StateClosed then c\<lparr>c_closed := n\<rparr>
      else c)"

fun scan_counts :: "(go_error + WorkItemState \<times> int) list \<Rightarrow> counts \<Rightarrow> counts \<times> go_error option" where
  "scan_counts [] c = (c, None)"
| "scan_counts (Inl e # rs) c = (c, Some e)"
| "scan_counts (Inr (st, n) # rs) c = scan_counts rs (set_count st n c)"

text \<open>The final \<open>rows.Err()\<close> is not consulted here.\<close>

definition GetDashboardCounts :: "'o ext \<Rightarrow> 'o world \<Rightarrow> (counts \<times> go_error option) \<times> 'o world" where
  "GetDashboardCounts E w =
     (case x_pg_counts E (w_pg w) (w_env w) of (res, v) \<Rightarrow>
        (case res of
           Inl e \<Rightarrow> (zero_counts, Some e)
         | Inr (rows, rows_Err) \<Rightarrow> scan_counts rows zero_counts,
         w\<lparr>w_env := v\<rparr>))"

definition CreateRCA :: "'o ext \<Rightarrow> RCA \<Rightarrow> 'o world \<Rightarrow> go_error option \<times> 'o world" where
  "CreateRCA E rca w = pg_withRetry E ''CreateRCA'' (pg_Exec E (INSERT_rca rca)) w"

text \<open>No row is a nil RCA and a nil error; with any other error the RCA is what was scanned.\<close>

definition GetRCAByWorkItemID ::
  "'o ext \<Rightarrow> string \<Rightarrow> 'o world \<Rightarrow> (RCA option \<times> go_error option) \<times> 'o world" where
  "GetRCAByWorkItemID E i w =
     (case x_pg_rca E i (w_pg w) (w_env w) of ((rca, err), v) \<Rightarrow>
        (if err = Some ErrNoRows then (None, None) else (Some rca, err), w\<lparr>w_env := v\<rparr>))"

subsection \<open>What a statement guarantees\<close>

definition pg_effect :: "pg_stmt set \<Rightarrow> 'o world \<Rightarrow> 'o world \<Rightarrow> bool" where
  "pg_effect S w w' \<longleftrightarrow> (\<exists>s \<in> S. apply_stmt s (w_pg w) = Some (w_pg w')) \<and>
     w_mongo w' = w_mongo w \<and> w_redis w' = w_redis w"

abbreviation executed :: "pg_stmt set \<Rightarrow> nat \<Rightarrow> 'o world \<Rightarrow> 'o world \<Rightarrow> bool" where
  "executed S \<equiv> happened same_stores (pg_effect S)"

lemma executed_frame:
  "executed S n w w' \<Longrightarrow> w_mongo w' = w_mongo w \<and> w_redis w' = w_redis w"
  by (induction n arbitrary: w) (auto simp: same_stores_def pg_effect_def)

lemma executed_schema_ok: "executed S n w w' \<Longrightarrow> schema_ok (w_pg w) \<Longrightarrow> schema_ok (w_pg w')"
  by (induction n arbitrary: w) (auto simp: same_stores_def pg_effect_def apply_stmt_Some_iff)

text \<open>
  Repeating statements each of which makes the others redundant amounts to running the last one.
\<close>

lemma executed_idempotent:
  assumes "\<And>s t db. s \<in> S \<Longrightarrow> t \<in> S \<Longrightarrow> run_stmt t (run_stmt s db) = run_stmt t db"
    and "executed S (Suc n) w w'"
  shows "\<exists>s \<in> S. w_pg w' = run_stmt s (w_pg w) \<and> schema_ok (w_pg w')"
  using assms(2)
proof (induction n arbitrary: w)
  case 0
  then show ?case by (auto simp: pg_effect_def same_stores_def apply_stmt_Some_iff)
next
  case (Suc n)
  then obtain v where v: "pg_effect S w v" "executed S (Suc n) v w'" by auto
  from Suc.IH [OF v(2)] obtain t where t: "t \<in> S" "w_pg w' = run_stmt t (w_pg v)" "schema_ok (w_pg w')"
    by blast
  from v(1) obtain s where "s \<in> S" "w_pg v = run_stmt s (w_pg w)"
    by (auto simp: pg_effect_def apply_stmt_Some_iff)
  with t assms(1) show ?case by metis
qed

lemma executed_single:
  "executed S (Suc 0) w w' \<Longrightarrow> pg_effect S w w'"
  by (auto simp: pg_effect_def same_stores_def)

text \<open>A statement that cannot succeed twice has been executed at most once.\<close>

lemma executed_once:
  assumes "\<And>db db'. apply_stmt s db = Some db' \<Longrightarrow> apply_stmt s db' = None"
    and "executed {s} n w w'"
  shows "n \<le> 1"
proof (rule ccontr)
  assume "\<not> n \<le> 1"
  then obtain m where "n = Suc (Suc m)" by (metis One_nat_def Suc_le_eq le0 not_less old.nat.exhaust not_less_eq_eq)
  with assms(2) obtain u v where "pg_effect {s} w u" "pg_effect {s} u v" by auto
  with assms(1) show False by (auto simp: pg_effect_def)
qed

lemma executed_at_most_once:
  assumes once: "\<And>db db'. apply_stmt s db = Some db' \<Longrightarrow> apply_stmt s db' = None"
    and n: "executed {s} n w w'"
  shows "n = 0 \<and> same_stores w w' \<or> n = 1 \<and> pg_effect {s} w w'"
proof -
  have "n \<le> 1" using once n by (rule executed_once)
  then consider "n = 0" | "n = Suc 0" by linarith
  then show ?thesis
  proof cases
    case 1
    with n show ?thesis by simp
  next
    case 2
    with n have "pg_effect {s} w w'" by (simp only: executed_single)
    with 2 show ?thesis by simp
  qed
qed

lemma insert_item_not_twice:
  "apply_stmt (INSERT_work_item wi) db = Some db' \<Longrightarrow> apply_stmt (INSERT_work_item wi) db' = None"
  by (auto simp: apply_stmt_def Let_def schema_ok_def inserted_work_item_def split: if_splits)

lemma insert_rca_not_twice:
  "apply_stmt (INSERT_rca r) db = Some db' \<Longrightarrow> apply_stmt (INSERT_rca r) db' = None"
  by (auto simp: apply_stmt_def Let_def schema_ok_def inserted_rca_def split: if_splits)

lemma item_executed_once:
  "executed {INSERT_work_item wi} n w w' \<Longrightarrow>
     n = 0 \<and> same_stores w w' \<or> n = 1 \<and> pg_effect {INSERT_work_item wi} w w'"
  by (rule executed_at_most_once) (rule insert_item_not_twice)

lemma rca_executed_once:
  "executed {INSERT_rca rca} n w w' \<Longrightarrow>
     n = 0 \<and> same_stores w w' \<or> n = 1 \<and> pg_effect {INSERT_rca rca} w w'"
  by (rule executed_at_most_once) (rule insert_rca_not_twice)

subsection \<open>The store under the laws of the service\<close>

context postgres_service
begin

lemma pg_Exec_ok: "pg_Exec E s w = (None, w') \<Longrightarrow> pg_effect {s} w w'"
  by (auto simp: pg_Exec_def pg_effect_def exec_ok split: prod.splits)

lemma pg_Exec_err:
  "pg_Exec E s w = (Some e, w') \<Longrightarrow> external_error e \<and> (same_stores w w' \<or> pg_effect {s} w w')"
  by (auto simp: pg_Exec_def pg_effect_def same_stores_def split: prod.splits dest: exec_err)

lemma effect_after_skip: "same_stores w u \<Longrightarrow> pg_effect S u v \<Longrightarrow> pg_effect S w v"
  by (simp add: same_stores_def pg_effect_def)

lemma effect_before_skip: "pg_effect S w u \<Longrightarrow> same_stores u v \<Longrightarrow> pg_effect S w v"
  by (simp add: same_stores_def pg_effect_def)

lemma pg_Exec_now_ok: "pg_Exec_now E f w = (None, w') \<Longrightarrow> pg_effect (range f) w w'"
  by (auto simp: pg_Exec_now_def pg_effect_def same_stores_def split: prod.splits
      dest!: time_Now_frame pg_Exec_ok)

lemma pg_Exec_now_err:
  assumes "pg_Exec_now E f w = (Some e, w')"
  shows "external_error e \<and> (same_stores w w' \<or> pg_effect (range f) w w')"
proof -
  obtain t w1 where t: "time_Now E w = (t, w1)" "pg_Exec E (f t) w1 = (Some e, w')"
    using assms by (auto simp: pg_Exec_now_def split: prod.splits)
  with time_Now_frame [OF t(1)] pg_Exec_err [OF t(2)] show ?thesis
    by (auto simp: same_stores_def pg_effect_def)
qed

lemma ctx_wait_err: "ctx_wait E d w = (Some e, w') \<Longrightarrow> external_error e"
  by (auto simp: ctx_wait_def split: prod.splits dest: wait_err)

end

sublocale postgres_service \<subseteq> ins: retried_call "pg_Exec E s" "ctx_wait E" "pg_effect {s}" same_stores
  for s
  by unfold_locales
    (auto intro: pg_Exec_ok dest: pg_Exec_err intro: ctx_wait_frame ctx_wait_err same_stores_trans
      effect_after_skip effect_before_skip)

sublocale postgres_service \<subseteq> upd: retried_call "pg_Exec_now E f" "ctx_wait E" "pg_effect (range f)" same_stores
  for f
  by unfold_locales
    (auto intro: pg_Exec_now_ok dest: pg_Exec_now_err intro: ctx_wait_frame ctx_wait_err same_stores_trans
      effect_after_skip effect_before_skip)

lemma on_work_item_twice:
  assumes "\<And>r. wi_ID (g r) = wi_ID r"
  shows "on_work_item i f (on_work_item i g db) = on_work_item i (\<lambda>r. f (g r)) db"
  by (simp add: on_work_item_def upd_where_upd_where assms)

lemma run_state_stmt_again:
  "run_stmt (state_stmt st m i t) (run_stmt (state_stmt st m i u) db) = run_stmt (state_stmt st m i t) db"
  by (simp add: state_stmt_def on_work_item_twice)

lemma run_severity_stmt_again:
  "run_stmt (UPDATE_severity sv t i) (run_stmt (UPDATE_severity sv u i) db) = run_stmt (UPDATE_severity sv t i) db"
  by (simp add: on_work_item_twice)

text \<open>The counter is the exception: executed \<open>n\<close> times it grows by \<open>n\<close>.\<close>

lemma executed_signal_count:
  assumes "executed (range (\<lambda>now. UPDATE_signal_count now i)) (Suc n) w w'"
  shows "\<exists>t. w_pg w' = on_work_item i
    (\<lambda>r. r\<lparr>wi_SignalCount := wi_SignalCount r + int (Suc n), wi_UpdatedAt := pg_ts t\<rparr>) (w_pg w)"
  using assms
proof (induction n arbitrary: w)
  case 0
  then show ?case by (auto simp: pg_effect_def same_stores_def apply_stmt_Some_iff)
next
  case (Suc n)
  then obtain v where v: "pg_effect (range (\<lambda>now. UPDATE_signal_count now i)) w v"
      "executed (range (\<lambda>now. UPDATE_signal_count now i)) (Suc n) v w'"
    by (subst (asm) happened.simps) blast
  from v(1) obtain t where "w_pg v = run_stmt (UPDATE_signal_count t i) (w_pg w)"
    by (auto simp: pg_effect_def apply_stmt_Some_iff)
  with Suc.IH [OF v(2)] show ?case
    by (auto simp: on_work_item_twice algebra_simps)
qed

context postgres_service
begin

lemmas store_defs = pg_withRetry_def CreateWorkItem_def UpdateWorkItemState_def
  UpdateWorkItemSeverity_def IncrementSignalCount_def CreateRCA_def

lemma GetWorkItem_ok:
  "GetWorkItem E i w = (Inr wi, w') \<Longrightarrow>
     row_with wi_ID i (t_work_items (w_pg w)) = Some wi \<and> same_stores w w'"
  by (auto simp: GetWorkItem_def same_stores_def split: prod.splits option.splits if_splits
      intro: item_ok)

lemma GetWorkItem_err:
  "GetWorkItem E i w = (Inl e, w') \<Longrightarrow> same_stores w w' \<and>
     (external_error e \<or> e = ErrWorkItemNotFound \<and> row_with wi_ID i (t_work_items (w_pg w)) = None)"
  by (auto simp: GetWorkItem_def same_stores_def external_error_def
      split: prod.splits option.splits if_splits dest: item_err)

lemma GetRCA_ok:
  "GetRCAByWorkItemID E i w = ((rca, None), w') \<Longrightarrow>
     row_with rca_WorkItemID i (t_rcas (w_pg w)) = rca \<and> same_stores w w'"
  by (auto simp: GetRCAByWorkItemID_def same_stores_def external_error_def
      split: prod.splits option.splits if_splits dest: rca_ok rca_err)

lemma GetRCA_frame: "GetRCAByWorkItemID E i w = (r, w') \<Longrightarrow> same_stores w w'"
  by (auto simp: GetRCAByWorkItemID_def same_stores_def split: prod.splits)

lemma GetRCA_err: "GetRCAByWorkItemID E i w = ((rca, Some e), w') \<Longrightarrow> external_error e"
  by (auto simp: GetRCAByWorkItemID_def split: prod.splits if_splits dest: rca_err)

lemma CreateWorkItem_ok:
  assumes "CreateWorkItem E wi w = (None, w')"
  shows "w_pg w' = run_stmt (INSERT_work_item wi) (w_pg w) \<and> schema_ok (w_pg w') \<and>
    w_mongo w' = w_mongo w \<and> w_redis w' = w_redis w"
proof -
  from ins.retry_success assms obtain n where n: "n \<in> {1..3}" "executed {INSERT_work_item wi} n w w'"
    unfolding store_defs by blast
  from item_executed_once [OF n(2)] n(1) have "pg_effect {INSERT_work_item wi} w w'"
    by simp
  then show ?thesis by (simp add: pg_effect_def apply_stmt_Some_iff)
qed

lemma CreateWorkItem_any:
  assumes "CreateWorkItem E wi w = (r, w')"
  shows "(w_pg w' = w_pg w \<or> apply_stmt (INSERT_work_item wi) (w_pg w) = Some (w_pg w')) \<and>
    w_mongo w' = w_mongo w \<and> w_redis w' = w_redis w"
proof -
  from ins.retry_failure assms obtain n where n: "executed {INSERT_work_item wi} n w w'"
    unfolding store_defs by blast
  from item_executed_once [OF n] show ?thesis
    by (auto simp: pg_effect_def same_stores_def)
qed

lemma CreateWorkItem_err:
  "CreateWorkItem E wi w = (Some e, w') \<Longrightarrow>
     external_error e \<or> (\<exists>p x. e = Wrapped p x [] \<and> external_error x)"
  unfolding store_defs by (rule ins.retry_error)

lemma CreateRCA_ok:
  assumes "CreateRCA E rca w = (None, w')"
  shows "w_pg w' = run_stmt (INSERT_rca rca) (w_pg w) \<and> schema_ok (w_pg w') \<and>
    w_mongo w' = w_mongo w \<and> w_redis w' = w_redis w"
proof -
  from ins.retry_success assms obtain n where n: "n \<in> {1..3}" "executed {INSERT_rca rca} n w w'"
    unfolding store_defs by blast
  from rca_executed_once [OF n(2)] n(1) have "pg_effect {INSERT_rca rca} w w'"
    by simp
  then show ?thesis by (simp add: pg_effect_def apply_stmt_Some_iff)
qed

lemma CreateRCA_any:
  assumes "CreateRCA E rca w = (r, w')"
  shows "(w_pg w' = w_pg w \<or> apply_stmt (INSERT_rca rca) (w_pg w) = Some (w_pg w')) \<and>
    w_mongo w' = w_mongo w \<and> w_redis w' = w_redis w"
proof -
  from ins.retry_failure assms obtain n where n: "executed {INSERT_rca rca} n w w'"
    unfolding store_defs by blast
  from rca_executed_once [OF n] show ?thesis
    by (auto simp: pg_effect_def same_stores_def)
qed

lemma UpdateState_ok:
  assumes "UpdateWorkItemState E i st mttr w = (None, w')"
  shows "\<exists>t. w_pg w' = run_stmt (state_stmt st mttr i t) (w_pg w) \<and> schema_ok (w_pg w') \<and>
    w_mongo w' = w_mongo w \<and> w_redis w' = w_redis w"
proof -
  from upd.retry_success assms obtain n where "n \<in> {1..3}" "executed (range (state_stmt st mttr i)) n w w'"
    unfolding store_defs by blast
  then obtain m where m: "executed (range (state_stmt st mttr i)) (Suc m) w w'"
    by (cases n) auto
  then have "\<exists>s \<in> range (state_stmt st mttr i). w_pg w' = run_stmt s (w_pg w) \<and> schema_ok (w_pg w')"
    by (intro executed_idempotent) (auto simp: run_state_stmt_again)
  with executed_frame [OF m] show ?thesis by blast
qed

lemma UpdateState_any:
  assumes "UpdateWorkItemState E i st mttr w = (r, w')"
  shows "(w_pg w' = w_pg w \<or> (\<exists>t. w_pg w' = run_stmt (state_stmt st mttr i t) (w_pg w) \<and> schema_ok (w_pg w'))) \<and>
    w_mongo w' = w_mongo w \<and> w_redis w' = w_redis w"
proof -
  from upd.retry_failure assms obtain n where n: "executed (range (state_stmt st mttr i)) n w w'"
    unfolding store_defs by blast
  show ?thesis
  proof (cases n)
    case 0
    with n show ?thesis by (simp add: same_stores_def)
  next
    case (Suc m)
    with n have "\<exists>s \<in> range (state_stmt st mttr i). w_pg w' = run_stmt s (w_pg w) \<and> schema_ok (w_pg w')"
      by (intro executed_idempotent) (auto simp: run_state_stmt_again)
    with executed_frame [OF n] show ?thesis by blast
  qed
qed

lemma UpdateState_err:
  "UpdateWorkItemState E i st mttr w = (Some e, w') \<Longrightarrow>
     external_error e \<or> (\<exists>p x. e = Wrapped p x [] \<and> external_error x)"
  unfolding store_defs by (rule upd.retry_error)

lemma UpdateSeverity_any:
  assumes "UpdateWorkItemSeverity E i sv w = (r, w')"
  shows "(r \<noteq> None \<and> w_pg w' = w_pg w \<or>
      (\<exists>t. w_pg w' = run_stmt (UPDATE_severity sv t i) (w_pg w) \<and> schema_ok (w_pg w'))) \<and>
    w_mongo w' = w_mongo w \<and> w_redis w' = w_redis w"
proof -
  let ?S = "range (\<lambda>now. UPDATE_severity sv now i)"
  obtain n where n: "executed ?S n w w'" "r = None \<Longrightarrow> n \<noteq> 0"
    using assms upd.retry_failure upd.retry_success unfolding store_defs
    by (cases r) (metis atLeastAtMost_iff not_one_le_zero option.distinct(1))+
  show ?thesis
  proof (cases n)
    case 0
    with n show ?thesis by (auto simp: same_stores_def)
  next
    case (Suc m)
    with n have "\<exists>s \<in> ?S. w_pg w' = run_stmt s (w_pg w) \<and> schema_ok (w_pg w')"
      by (intro executed_idempotent) (auto simp: on_work_item_twice)
    with executed_frame [OF n(1)] show ?thesis by blast
  qed
qed

lemma IncrementSignalCount_ok:
  assumes "IncrementSignalCount E i w = (None, w')"
  shows "\<exists>n t. 1 \<le> n \<and> n \<le> 3 \<and> schema_ok (w_pg w') \<and> w_pg w' = on_work_item i
      (\<lambda>r. r\<lparr>wi_SignalCount := wi_SignalCount r + int n, wi_UpdatedAt := pg_ts t\<rparr>) (w_pg w)"
proof -
  let ?S = "range (\<lambda>now. UPDATE_signal_count now i)"
  from upd.retry_success assms obtain n where n: "n \<in> {1..3}" "executed ?S n w w'"
    unfolding store_defs by blast
  then obtain m where m: "n = Suc m" by (cases n) auto
  have "schema_ok (w_pg w')" using n(2) m
    by (auto simp: pg_effect_def apply_stmt_Some_iff intro: executed_schema_ok)
  with executed_signal_count [of i m w w'] n m show ?thesis by fastforce
qed

lemma IncrementSignalCount_any:
  assumes "IncrementSignalCount E i w = (r, w')"
  shows "\<exists>n \<le> 3. executed (range (\<lambda>now. UPDATE_signal_count now i)) n w w'"
  using assms upd.retry_failure unfolding store_defs by blast

end

subsection \<open>Listings and counts\<close>

lemma scan_rows_Inr: "scan_rows rows acc = Inr out \<longleftrightarrow> (\<exists>rs. rows = map Inr rs \<and> out = acc @ rs)"
  by (induction rows acc rule: scan_rows.induct) (auto simp: Cons_eq_map_conv)

lemma scan_counts_all:
  assumes "distinct (map fst cs)"
  shows "scan_counts (map Inr cs) c =
    (\<lparr>c_open = (case map_of cs StateOpen of Some n \<Rightarrow> n | None \<Rightarrow> c_open c),
      c_investigating = (case map_of cs StateInvestigating of Some n \<Rightarrow> n | None \<Rightarrow> c_investigating c),
      c_resolved = (case map_of cs StateResolved of Some n \<Rightarrow> n | None \<Rightarrow> c_resolved c),
      c_closed = (case map_of cs StateClosed of Some n \<Rightarrow> n | None \<Rightarrow> c_closed c)\<rparr>, None)"
  using assms
proof (induction cs arbitrary: c)
  case (Cons x cs)
  obtain st n where x: "x = (st, n)" by (cases x)
  with Cons.prems have "st \<notin> fst ` set cs" by simp
  then have "map_of cs st = None" by (simp add: map_of_eq_None_iff)
  with Cons x show ?case by (auto simp: set_count_def split: option.splits)
qed simp

lemma scan_counts_None: "scan_counts rows c = (c', None) \<Longrightarrow> \<exists>cs. rows = map Inr cs"
  by (induction rows c rule: scan_counts.induct) (auto simp: Cons_eq_map_conv)

context postgres_service
begin

lemma query_items_ok:
  "query_items E q w = ((items, None), w') \<Longrightarrow> same_stores w w' \<and>
     mset items = mset (filter (wi_selected q) (t_work_items (w_pg w))) \<and> sorted (map wi_order items)"
  by (fastforce simp: query_items_def same_stores_def scan_rows_Inr
      split: prod.splits sum.splits dest: list_ok)

lemma query_items_frame: "query_items E q w = (r, w') \<Longrightarrow> same_stores w w'"
  by (auto simp: query_items_def same_stores_def split: prod.splits)

lemma counts_frame: "GetDashboardCounts E w = (r, w') \<Longrightarrow> same_stores w w'"
  by (auto simp: GetDashboardCounts_def same_stores_def split: prod.splits)

text \<open>The counts are right when the result set was read to its end (\<open>rows.Err()\<close> is nil).\<close>

lemma counts_exact:
  assumes "GetDashboardCounts E w = ((c, None), w')"
    and "x_pg_counts E (w_pg w) (w_env w) = (Inr (rows, None), v)"
  shows "c = \<lparr>c_open = state_count StateOpen (w_pg w),
    c_investigating = state_count StateInvestigating (w_pg w),
    c_resolved = state_count StateResolved (w_pg w), c_closed = state_count StateClosed (w_pg w)\<rparr>"
proof -
  from assms have sc: "scan_counts rows zero_counts = (c, None)"
    by (simp add: GetDashboardCounts_def)
  from scan_counts_None [OF sc] obtain cs where cs: "rows = map Inr cs" by blast
  with assms(2) have ok: "distinct (map fst cs)"
      "set cs = {(st, n). n = state_count st (w_pg w) \<and> n \<noteq> 0}"
    using counts_ok by auto
  have "(case map_of cs st of Some n \<Rightarrow> n | None \<Rightarrow> 0) = state_count st (w_pg w)" for st
  proof (cases "map_of cs st")
    case None
    then have "(st, state_count st (w_pg w)) \<notin> set cs"
      by (metis (no_types) fst_conv imageI map_of_eq_None_iff)
    with ok(2) None show ?thesis by simp
  next
    case (Some n)
    then have "(st, n) \<in> set cs" by (rule map_of_SomeD)
    with ok(2) Some show ?thesis by simp
  qed
  with sc cs ok(1) show ?thesis
    by (auto simp: scan_counts_all zero_counts_def cong: option.case_cong)
qed

end

text \<open>Every row is in one of the four states, so the four counts add up to the table.\<close>

lemma state_counts_total:
  assumes "list_all (\<lambda>r. wi_State r \<in> set states) rows"
  shows "length (filter (\<lambda>r. wi_State r = StateOpen) rows) +
    length (filter (\<lambda>r. wi_State r = StateInvestigating) rows) +
    length (filter (\<lambda>r. wi_State r = StateResolved) rows) +
    length (filter (\<lambda>r. wi_State r = StateClosed) rows) = length rows"
  using assms by (induction rows) (auto simp: states_def)

subsection \<open>Work items are never lost\<close>

text \<open>Work item \<open>i\<close> exists and belongs to component \<open>c\<close>; a statement never takes that away.\<close>

definition item_of :: "pg_db \<Rightarrow> string \<Rightarrow> string \<Rightarrow> bool" where
  "item_of db i c \<longleftrightarrow> (\<exists>r. row_with wi_ID i (t_work_items db) = Some r \<and> wi_ComponentID r = c)"

definition items_kept :: "pg_db \<Rightarrow> pg_db \<Rightarrow> bool" where
  "items_kept db db' \<longleftrightarrow> (\<forall>i c. item_of db i c \<longrightarrow> item_of db' i c)"

lemma items_kept_refl [simp]: "items_kept db db"
  by (simp add: items_kept_def)

lemma items_kept_trans [trans]: "items_kept a b \<Longrightarrow> items_kept b c \<Longrightarrow> items_kept a c"
  by (simp add: items_kept_def)

lemma item_of_upd_where:
  assumes "\<And>r. wi_ID (f r) = wi_ID r" "\<And>r. wi_ComponentID (f r) = wi_ComponentID r"
  shows "item_of (on_work_item j f db) i c = item_of db i c"
proof (cases "i = j")
  case True
  with assms show ?thesis by (auto simp: item_of_def row_with_upd_where_same)
next
  case False
  with assms show ?thesis by (auto simp: item_of_def row_with_upd_where_other)
qed

lemma items_kept_run: "items_kept db (run_stmt s db)"
  by (cases s) (auto simp: items_kept_def item_of_upd_where Let_def, auto simp: item_of_def row_with_append)

lemma items_kept_apply: "apply_stmt s db = Some db' \<Longrightarrow> items_kept db db'"
  by (auto simp: apply_stmt_Some_iff items_kept_run)

lemma items_kept_executed: "executed S n w w' \<Longrightarrow> items_kept (w_pg w) (w_pg w')"
  by (induction n arbitrary: w)
    (auto simp: same_stores_def pg_effect_def intro: items_kept_trans dest!: items_kept_apply)

lemma item_of_inserted:
  assumes "schema_ok (run_stmt (INSERT_work_item wi) db)"
  shows "item_of (run_stmt (INSERT_work_item wi) db) (wi_ID wi) (wi_ComponentID wi)"
proof -
  have "wi_ID wi \<notin> wi_ID ` set (t_work_items db)"
    using assms by (simp add: schema_ok_def inserted_work_item_def)
  then have "row_with wi_ID (wi_ID wi) (t_work_items db) = None" by (simp add: row_with_None_iff)
  then show ?thesis by (simp add: item_of_def row_with_append inserted_work_item_def)
qed

subsection \<open>Properties\<close>

text \<open>
  C30. A creation is executed once. Although it is retried when an acknowledgement is lost, a call of
  \<open>CreateWorkItem\<close> that returns nil has added exactly one row, the given item with its instants at
  the resolution of the database, and one that returns an error has added at most that row. No other row,
  table or store changes.
\<close>

theorem CreateWorkItem_once:
  assumes "postgres_service E" and "CreateWorkItem E wi w = (r, w')"
  shows "(t_work_items (w_pg w') = t_work_items (w_pg w) @ [inserted_work_item wi] \<or>
      r \<noteq> None \<and> t_work_items (w_pg w') = t_work_items (w_pg w)) \<and>
    t_rcas (w_pg w') = t_rcas (w_pg w) \<and> t_timeseries (w_pg w') = t_timeseries (w_pg w) \<and>
    w_mongo w' = w_mongo w \<and> w_redis w' = w_redis w"
proof (cases r)
  case None
  with postgres_service.CreateWorkItem_ok [OF assms(1)] assms(2) show ?thesis by fastforce
next
  case (Some e)
  with postgres_service.CreateWorkItem_any [OF assms] show ?thesis by (auto simp: apply_stmt_Some_iff)
qed

theorem CreateWorkItem_once_witness:
  "\<exists>w'. CreateWorkItem ref_env (ex_item StateOpen) (ref_world 5 [True, True]) = (None, w') \<and>
     t_work_items (w_pg w') = [inserted_work_item (ex_item StateOpen)]"
proof -
  let ?w = "ref_world 5 [True, True]"
  have "fst (CreateWorkItem ref_env (ex_item StateOpen) ?w) = None" by code_simp
  then obtain w' where c: "CreateWorkItem ref_env (ex_item StateOpen) ?w = (None, w')" by (metis prod.collapse)
  from CreateWorkItem_once [OF ref_pg.postgres_service_axioms c] c show ?thesis
    by (simp add: ref_world_def empty_db_def)
qed



text \<open>
  Dashboard counts. When the result set was read to its end, the four counts are the numbers of rows
  in the four states, and under the constraints of the schema they add up to the whole table.
\<close>

theorem dashboard_counts_exact:
  assumes "postgres_service E" and "schema_ok (w_pg w)"
    and "GetDashboardCounts E w = ((c, None), w')"
    and "x_pg_counts E (w_pg w) (w_env w) = (Inr (rows, None), v)"
  shows "c_open c = state_count StateOpen (w_pg w) \<and> c_investigating c = state_count StateInvestigating (w_pg w) \<and>
    c_resolved c = state_count StateResolved (w_pg w) \<and> c_closed c = state_count StateClosed (w_pg w) \<and>
    c_open c + c_investigating c + c_resolved c + c_closed c = int (length (t_work_items (w_pg w)))"
proof -
  have "list_all (\<lambda>r. wi_State r \<in> set states) (t_work_items (w_pg w))"
    using assms(2) by (auto simp: schema_ok_def list_all_iff)
  from state_counts_total [OF this] postgres_service.counts_exact [OF assms(1,3,4)] show ?thesis
    by (simp add: state_count_def)
qed

theorem dashboard_counts_exact_witness:
  "\<exists>c w'. GetDashboardCounts ref_env (ex_world StateOpen [] []) = ((c, None), w') \<and> c_open c = 1 \<and> c_closed c = 0"
proof -
  let ?w = "ex_world StateOpen [] []"
  have "snd (fst (GetDashboardCounts ref_env ?w)) = None" by code_simp
  then obtain c w' where g: "GetDashboardCounts ref_env ?w = ((c, None), w')" by (metis prod.collapse)
  have x: "x_pg_counts ref_env (w_pg ?w) (w_env ?w) = (Inr ([Inr (StateOpen, 1)], None), w_env ?w)"
    by (simp add: ref_env_def ref_counts_def pop_fault_def ex_world_def ref_world_def ex_item_def state_count_def)
  have s: "schema_ok (w_pg ?w)" by code_simp
  have "state_count StateOpen (w_pg ?w) = 1" "state_count StateClosed (w_pg ?w) = 0" by code_simp+
  with dashboard_counts_exact [OF ref_pg.postgres_service_axioms s g x] g show ?thesis by auto
qed

end
