(* ===== verification/RedisStore.thy ===== *)
theory RedisStore
  imports RefEnv
begin

text \<open>
  \<open>store/redis.go\<close>: the dashboard cache, the debounce entries and the per-second counters, all
  keys of one Redis database. The lemmas show that the three families of keys never collide, that
  an entry read back is the one written as long as its time to live has not passed, and what
  \<open>GetSignalsPerSecond\<close> really averages.
\<close>

definition dashboardKey :: string where
  "dashboardKey = ''ims:dashboard:state''"

definition debounceKeyPrefix :: string where
  "debounceKeyPrefix = ''ims:debounce:''"

definition dashboardTTL :: duration where
  "dashboardTTL = 3 * second"

definition debounceTTL :: duration where
  "debounceTTL = 15 * second"

definition debounceKey :: "string \<Rightarrow> string" where
  "debounceKey componentID = debounceKeyPrefix @ componentID"

definition throughputKey :: "int \<Rightarrow> string" where
  "throughputKey sec = ''ims:throughput:'' @ itoa sec"

subsection \<open>Commands\<close>

definition redis_Get :: "'o ext \<Rightarrow> string \<Rightarrow> 'o world \<Rightarrow> (go_error + redis_val) \<times> 'o world" where
  "redis_Get E k w = (case x_redis_get E k (w_redis w) (w_env w) of (r, v) \<Rightarrow> (r, w\<lparr>w_env := v\<rparr>))"

definition redis_Set ::
  "'o ext \<Rightarrow> string \<Rightarrow> redis_val \<Rightarrow> duration \<Rightarrow> 'o world \<Rightarrow> go_error option \<times> 'o world" where
  "redis_Set E k a d w = (case x_redis_set E k a d (w_redis w) (w_env w) of (e, db, v) \<Rightarrow>
     (e, w\<lparr>w_redis := db, w_env := v\<rparr>))"

definition redis_Del :: "'o ext \<Rightarrow> string \<Rightarrow> 'o world \<Rightarrow> go_error option \<times> 'o world" where
  "redis_Del E k w = (case x_redis_del E k (w_redis w) (w_env w) of (e, db, v) \<Rightarrow>
     (e, w\<lparr>w_redis := db, w_env := v\<rparr>))"

subsection \<open>Operations\<close>

definition SetDashboardState :: "'o ext \<Rightarrow> DashboardState \<Rightarrow> 'o world \<Rightarrow> go_error option \<times> 'o world" where
  "SetDashboardState E st w =
     (case x_marshal_err E st of
        Some e \<Rightarrow> (Some (Wrapped ''redis: marshal dashboard state: '' e []), w)
      | None \<Rightarrow> redis_Set E dashboardKey (RJson st) dashboardTTL w)"

definition unmarshal :: "'o ext \<Rightarrow> redis_val \<Rightarrow> go_error + DashboardState" where
  "unmarshal E a = (case a of RJson st \<Rightarrow> Inr st | RBytes s \<Rightarrow> x_unmarshal E s)"

definition GetDashboardState ::
  "'o ext \<Rightarrow> 'o world \<Rightarrow> (DashboardState option \<times> go_error option) \<times> 'o world" where
  "GetDashboardState E w =
     (case redis_Get E dashboardKey w of
        (Inl e, w1) \<Rightarrow>
          (if e = ErrRedisNil then (None, None)
           else (None, Some (Wrapped ''redis: get dashboard state: '' e [])), w1)
      | (Inr data, w1) \<Rightarrow>
          (case unmarshal E data of
             Inl e \<Rightarrow> (None, Some (Wrapped ''redis: unmarshal dashboard state: '' e []))
           | Inr st \<Rightarrow> (Some st, None), w1))"

definition InvalidateDashboard :: "'o ext \<Rightarrow> 'o world \<Rightarrow> go_error option \<times> 'o world" where
  "InvalidateDashboard E w = redis_Del E dashboardKey w"

definition SetDebounceEntry :: "'o ext \<Rightarrow> string \<Rightarrow> string \<Rightarrow> 'o world \<Rightarrow> go_error option \<times> 'o world" where
  "SetDebounceEntry E componentID workItemID w =
     redis_Set E (debounceKey componentID) (RBytes workItemID) debounceTTL w"

definition redis_text :: "'o ext \<Rightarrow> redis_val \<Rightarrow> string" where
  "redis_text E a = (case a of RBytes s \<Rightarrow> s | RJson st \<Rightarrow> x_json_text E st)"

definition GetDebounceEntry ::
  "'o ext \<Rightarrow> string \<Rightarrow> 'o world \<Rightarrow> (string \<times> go_error option) \<times> 'o world" where
  "GetDebounceEntry E componentID w =
     (case redis_Get E (debounceKey componentID) w of
        (Inl e, w1) \<Rightarrow>
          (if e = ErrRedisNil then ([], None)
           else ([], Some (Wrapped ''redis: get debounce entry: '' e [])), w1)
      | (Inr val, w1) \<Rightarrow> ((redis_text E val, None), w1))"

definition IncrementSignalCounter :: "'o ext \<Rightarrow> 'o world \<Rightarrow> go_error option \<times> 'o world" where
  "IncrementSignalCounter E w =
     (case time_Now E w of (now, w1) \<Rightarrow>
        case x_redis_incr E (throughputKey (Unix now)) (10 * second) (w_redis w1) (w_env w1) of
          (e, db, v) \<Rightarrow> (e, w1\<lparr>w_redis := db, w_env := v\<rparr>))"

text \<open>The loop over the values of MGET: a missing key is skipped, as is one that does not scan.\<close>

fun sum_buckets :: "'o ext \<Rightarrow> redis_val option list \<Rightarrow> float64 \<Rightarrow> float64 \<Rightarrow> float64 \<times> float64" where
  "sum_buckets E [] tot buckets = (tot, buckets)"
| "sum_buckets E (None # vs) tot buckets = sum_buckets E vs tot buckets"
| "sum_buckets E (Some a # vs) tot buckets =
     (case x_sscanf E (redis_text E a) of
        Some cnt \<Rightarrow> sum_buckets E vs (tot + cnt) (buckets + 1)
      | None \<Rightarrow> sum_buckets E vs tot buckets)"

definition GetSignalsPerSecond :: "'o ext \<Rightarrow> 'o world \<Rightarrow> (float64 \<times> go_error option) \<times> 'o world" where
  "GetSignalsPerSecond E w =
     (case time_Now E w of (now, w1) \<Rightarrow>
        case x_redis_mget E (map (\<lambda>i. throughputKey (Unix now - int i)) [0..<5]) (w_redis w1) (w_env w1) of
          (Inl e, v) \<Rightarrow> ((0, Some e), w1\<lparr>w_env := v\<rparr>)
        | (Inr vals, v) \<Rightarrow>
            (case sum_buckets E vals 0 0 of (tot, buckets) \<Rightarrow>
               (if buckets = 0 then (0, None) else (tot / buckets, None), w1\<lparr>w_env := v\<rparr>)))"

subsection \<open>Frames and keys\<close>

lemma InvalidateDashboard_frame:
  "InvalidateDashboard E w = (r, w') \<Longrightarrow> w_pg w' = w_pg w \<and> w_mongo w' = w_mongo w"
  by (auto simp: InvalidateDashboard_def redis_Del_def split: prod.splits)

lemma SetDebounceEntry_frame:
  "SetDebounceEntry E c i w = (r, w') \<Longrightarrow> w_pg w' = w_pg w \<and> w_mongo w' = w_mongo w"
  by (auto simp: SetDebounceEntry_def redis_Set_def split: prod.splits)

lemma GetDebounceEntry_frame: "GetDebounceEntry E c w = (r, w') \<Longrightarrow> same_stores w w'"
  by (auto simp: GetDebounceEntry_def redis_Get_def same_stores_def split: prod.splits sum.splits)

lemma GetDashboardState_frame: "GetDashboardState E w = (r, w') \<Longrightarrow> same_stores w w'"
  by (auto simp: GetDashboardState_def redis_Get_def same_stores_def split: prod.splits sum.splits)

lemma SetDashboardState_frame:
  "SetDashboardState E st w = (r, w') \<Longrightarrow> w_pg w' = w_pg w \<and> w_mongo w' = w_mongo w"
  by (auto simp: SetDashboardState_def redis_Set_def split: prod.splits option.splits)

lemma IncrementSignalCounter_frame:
  "IncrementSignalCounter E w = (r, w') \<Longrightarrow> w_pg w' = w_pg w \<and> w_mongo w' = w_mongo w"
  by (auto simp: IncrementSignalCounter_def same_stores_def split: prod.splits dest!: time_Now_frame)

lemma GetSignalsPerSecond_frame: "GetSignalsPerSecond E w = (r, w') \<Longrightarrow> same_stores w w'"
  by (auto simp: GetSignalsPerSecond_def same_stores_def split: prod.splits sum.splits dest!: time_Now_frame)

text \<open>The three families of keys are disjoint and each key names its owner.\<close>

lemma key_families [simp]:
  "debounceKey c = debounceKey c' \<longleftrightarrow> c = c'"
  "debounceKey c \<noteq> dashboardKey" "dashboardKey \<noteq> debounceKey c"
  "throughputKey n \<noteq> dashboardKey" "dashboardKey \<noteq> throughputKey n"
  "throughputKey n \<noteq> debounceKey c" "debounceKey c \<noteq> throughputKey n"
  by (simp_all add: debounceKey_def debounceKeyPrefix_def dashboardKey_def throughputKey_def)

lemma itoa_inj: "itoa m = itoa n \<longleftrightarrow> m = n"
  by (metis atoi_itoa option.inject)

lemma throughputKey_inj [simp]: "throughputKey m = throughputKey n \<longleftrightarrow> m = n"
  by (simp add: throughputKey_def itoa_inj)

subsection \<open>Reading back\<close>

context redis_service
begin

lemma SetDebounce_ok:
  "SetDebounceEntry E c i w = (None, w') \<Longrightarrow>
     \<exists>t. x_redis_now E (w_env w) \<le> t \<and> t \<le> x_redis_now E (w_env w') \<and>
         w_redis w' = (w_redis w)(debounceKey c \<mapsto> (RBytes i, t + debounceTTL))"
  by (auto simp: SetDebounceEntry_def redis_Set_def split: prod.splits dest!: set_ok)

lemma SetDebounce_any:
  "SetDebounceEntry E c i w = (r, w') \<Longrightarrow> k \<noteq> debounceKey c \<Longrightarrow> w_redis w' k = w_redis w k"
  by (cases r) (auto simp: SetDebounceEntry_def redis_Set_def split: prod.splits dest!: set_ok set_err)

text \<open>Read while its time to live runs, a debounce entry is returned unless Redis fails.\<close>

lemma GetDebounce_live:
  assumes "GetDebounceEntry E c w = ((s, err), w')"
    and "w_redis w (debounceKey c) = Some (RBytes i, x)"
    and "x_redis_now E (w_env w') < x"
  shows "(s, err) = (i, None) \<or> s = [] \<and> err \<noteq> None"
proof -
  obtain r v where g: "x_redis_get E (debounceKey c) (w_redis w) (w_env w) = (r, v)" by fastforce
  with assms(1) have v: "w_env w' = v"
    by (auto simp: GetDebounceEntry_def redis_Get_def split: sum.splits)
  have live: "redis_live (w_redis w) t (debounceKey c) = Some (RBytes i)"
    if "t \<le> x_redis_now E v" for t
    using assms(2,3) that v by (simp add: redis_live_def)
  show ?thesis
  proof (cases r)
    case (Inl e)
    with g live get_err [of "debounceKey c" "w_redis w" "w_env w" e v] have "e \<noteq> ErrRedisNil"
      by (auto simp: external_error_def)
    with assms(1) g Inl show ?thesis by (auto simp: GetDebounceEntry_def redis_Get_def)
  next
    case (Inr a)
    with g live get_ok [of "debounceKey c" "w_redis w" "w_env w" a v] have "a = RBytes i" by auto
    with assms(1) g Inr show ?thesis by (auto simp: GetDebounceEntry_def redis_Get_def redis_text_def)
  qed
qed

text \<open>Without a live entry the answer is empty.\<close>

lemma GetDebounce_dead:
  assumes "GetDebounceEntry E c w = ((s, err), w')"
    and "\<And>t. x_redis_now E (w_env w) \<le> t \<Longrightarrow> redis_live (w_redis w) t (debounceKey c) = None"
  shows "s = []"
  using assms by (fastforce simp: GetDebounceEntry_def redis_Get_def
      split: prod.splits sum.splits if_splits dest: get_ok)

lemma Invalidate_ok: "InvalidateDashboard E w = (None, w') \<Longrightarrow> w_redis w' = (w_redis w)(dashboardKey := None)"
  by (auto simp: InvalidateDashboard_def redis_Del_def split: prod.splits dest!: del_ok)

lemma Invalidate_any:
  "InvalidateDashboard E w = (r, w') \<Longrightarrow> k \<noteq> dashboardKey \<Longrightarrow> w_redis w' k = w_redis w k"
  by (cases r) (auto simp: InvalidateDashboard_def redis_Del_def split: prod.splits dest!: del_ok del_err)

text \<open>After an invalidation that succeeded the cache misses.\<close>

lemma GetDashboard_empty:
  assumes "GetDashboardState E w = ((st, err), w')" and "w_redis w dashboardKey = None"
  shows "st = None"
  using assms by (fastforce simp: GetDashboardState_def redis_Get_def redis_live_def
      split: prod.splits sum.splits if_splits dest: get_ok)

text \<open>What the throughput rests on: the counters of the last five seconds that exist.\<close>

lemma sum_buckets_counts:
  "sum_buckets E (map (map_option (\<lambda>n. RBytes (itoa n))) ns) tot buckets =
     (tot + of_int (sum_list (List.map_filter id ns)), buckets + of_nat (length (List.map_filter id ns)))"
proof (induction ns arbitrary: tot buckets)
  case Nil
  then show ?case by (simp add: List.map_filter_simps)
next
  case (Cons n ns)
  then show ?case
    by (cases n) (simp_all add: List.map_filter_simps redis_text_def sscanf_itoa)
qed

end

subsection \<open>Properties\<close>

text \<open>
  Round trip of a debounce entry. After \<open>SetDebounceEntry\<close> has reported success, reading the entry
  in any later world in which the key was not written again returns the work item, or a Redis error,
  as long as the reading ends within 15 seconds of the start of the write; other keys are not touched.
\<close>

theorem debounce_entry_roundtrip:
  assumes "redis_service E" and "SetDebounceEntry E c i w = (None, w1)"
    and "w_redis w2 (debounceKey c) = w_redis w1 (debounceKey c)"
    and "GetDebounceEntry E c w2 = ((s, err), w3)"
    and "x_redis_now E (w_env w3) < x_redis_now E (w_env w) + 15 * second"
  shows "((s, err) = (i, None) \<or> s = [] \<and> err \<noteq> None) \<and> (\<forall>k. k \<noteq> debounceKey c \<longrightarrow> w_redis w1 k = w_redis w k)"
proof -
  from redis_service.SetDebounce_ok [OF assms(1,2)] obtain t where t: "x_redis_now E (w_env w) \<le> t"
      "w_redis w1 = (w_redis w)(debounceKey c \<mapsto> (RBytes i, t + debounceTTL))" by blast
  then have "w_redis w2 (debounceKey c) = Some (RBytes i, t + debounceTTL)" using assms(3) by simp
  moreover have "x_redis_now E (w_env w3) < t + debounceTTL" using assms(5) t(1) by (simp add: debounceTTL_def)
  ultimately have "(s, err) = (i, None) \<or> s = [] \<and> err \<noteq> None"
    by (rule redis_service.GetDebounce_live [OF assms(1,4)])
  with t(2) show ?thesis by simp
qed

theorem debounce_entry_roundtrip_witness:
  "\<exists>w1 w3. SetDebounceEntry ref_env ''db-1'' ''w1'' (ref_world 5 []) = (None, w1) \<and>
     GetDebounceEntry ref_env ''db-1'' w1 = ((''w1'', None), w3)"
proof -
  let ?w = "ref_world 5 []"
  obtain e w1 where s: "SetDebounceEntry ref_env ''db-1'' ''w1'' ?w = (e, w1)" by fastforce
  obtain i err w3 where g: "GetDebounceEntry ref_env ''db-1'' w1 = ((i, err), w3)" by (metis surj_pair)
  have "fst (SetDebounceEntry ref_env ''db-1'' ''w1'' ?w) = None" by code_simp
  with s have e: "e = None" by simp
  have "x_redis_now ref_env (w_env (snd (GetDebounceEntry ref_env ''db-1'' (snd (SetDebounceEntry ref_env ''db-1'' ''w1'' ?w)))))
      < x_redis_now ref_env (w_env ?w) + 15 * second" by code_simp
  with s g have t: "x_redis_now ref_env (w_env w3) < x_redis_now ref_env (w_env ?w) + 15 * second" by simp
  have "snd (fst (GetDebounceEntry ref_env ''db-1'' (snd (SetDebounceEntry ref_env ''db-1'' ''w1'' ?w)))) = None"
    by code_simp
  with s g have "err = None" by simp
  with debounce_entry_roundtrip [OF ref_redis.redis_service_axioms s [unfolded e] refl g t] s g e show ?thesis by auto
qed

text \<open>
  The throughput figure. If the counters of the last five seconds are \<open>ns\<close> (\<open>None\<close> for a second
  without a counter), \<open>GetSignalsPerSecond\<close> returns their sum divided by the number of counters that
  exist, not by five, and 0 when there is none.
\<close>

theorem signals_per_second:
  assumes "redis_service E" and "GetSignalsPerSecond E w = ((v, None), w')"
    and "x_now E (w_env w) = (now, o1)"
    and "x_redis_mget E (map (\<lambda>i. throughputKey (Unix now - int i)) [0..<5]) (w_redis w) o1 =
      (Inr (map (map_option (\<lambda>n. RBytes (itoa n))) ns), o2)"
  shows "v = (let ks = List.map_filter id ns in if ks = [] then 0 else of_int (sum_list ks) / of_nat (length ks)) \<and>
    same_stores w w'"
proof -
  have t: "time_Now E w = (now, w\<lparr>w_env := o1\<rparr>)" using assms(3) by (simp add: time_Now_def)
  have "sum_buckets E (map (map_option (\<lambda>n. RBytes (itoa n))) ns) 0 0 =
      (of_int (sum_list (List.map_filter id ns)), of_nat (length (List.map_filter id ns)))"
    using redis_service.sum_buckets_counts [OF assms(1), of ns 0 0] by simp
  with assms(2,4) t GetSignalsPerSecond_frame [OF assms(2)] show ?thesis
    by (auto simp: GetSignalsPerSecond_def Let_def split: if_splits)
qed

definition ex_counters :: "ref_o world" where
  "ex_counters = (ref_world 62135596805000000000 [])\<lparr>w_redis :=
     [throughputKey 5 \<mapsto> (RBytes (itoa 4), 62135596810000000000), throughputKey 3 \<mapsto> (RBytes (itoa 2), 62135596810000000000)]\<rparr>"

theorem signals_per_second_witness:
  "fst (fst (GetSignalsPerSecond ref_env ex_counters)) = 3"
proof -
  let ?w = ex_counters
  let ?ns = "[Some 4, None, Some 2, None, None]"
  let ?o1 = "(w_env ?w)\<lparr>ro_clock := 62135596805000001000\<rparr>"
  obtain v e w' where g: "GetSignalsPerSecond ref_env ?w = ((v, e), w')" by (metis surj_pair)
  have "snd (fst (GetSignalsPerSecond ref_env ?w)) = None" by code_simp
  with g have g': "GetSignalsPerSecond ref_env ?w = ((v, None), w')" by simp
  have n: "x_now ref_env (w_env ?w) = (62135596805000000000, ?o1)"
    by (simp add: ref_env_def ex_counters_def ref_world_def)
  have m: "x_redis_mget ref_env (map (\<lambda>i. throughputKey (Unix 62135596805000000000 - int i)) [0..<5]) (w_redis ?w) ?o1 =
      (Inr (map (map_option (\<lambda>n. RBytes (itoa n))) ?ns), ?o1)"
    by (simp add: ref_env_def ref_mget_def pop_fault_def ex_counters_def ref_world_def redis_live_def Unix_def second_def
        upt_rec [of _ 5])
  from signals_per_second [OF ref_redis.redis_service_axioms g' n m] g show ?thesis
    by (simp add: List.map_filter_simps Let_def)
qed

end
