(* ===== verification/Debounce.thy ===== *)
theory Debounce
  imports PostgresStore RedisStore
begin

text \<open>
  \<open>ingestion/debounce.go\<close>: \<open>Debouncer.Resolve\<close> links a signal to the work item of its component
  or creates one. The in-process map comes first, then Redis, then the closure that creates the
  work item. The closure is an argument; besides the work item it returns the changes it made to
  the variables it captures (type \<open>'x\<close>). The lemmas are about sequences of calls, the theory
  \<open>DebounceRace\<close> is about calls that overlap.
\<close>

record debounceEntry =
  de_workItemID :: string

record Debouncer =
  db_local :: "string \<Rightarrow> debounceEntry option"

definition NewDebouncer :: Debouncer where
  "NewDebouncer = \<lparr>db_local = (\<lambda>_. None)\<rparr>"

definition local_Store :: "string \<Rightarrow> string \<Rightarrow> Debouncer \<Rightarrow> Debouncer" where
  "local_Store componentID i d =
     d\<lparr>db_local := (db_local d)(componentID \<mapsto> \<lparr>de_workItemID = i\<rparr>)\<rparr>"

text \<open>Result: (workItemID, isNew, err), and the closure's changes when it ran and succeeded.\<close>

definition Resolve ::
  "'o ext \<Rightarrow> Signal \<Rightarrow> ('o world \<Rightarrow> (go_error + WorkItem \<times> 'x) \<times> 'o world) \<Rightarrow> Debouncer \<Rightarrow> 'o world \<Rightarrow>
   ((string \<times> bool \<times> go_error option) \<times> 'x option) \<times> Debouncer \<times> 'o world" where
  "Resolve E signal newWorkItemFn d w =
     (let componentID = sig_ComponentID signal in
      case db_local d componentID of
        Some entry \<Rightarrow> (((de_workItemID entry, False, None), None), d, w)
      | None \<Rightarrow>
          (case GetDebounceEntry E componentID w of ((existingID, err), w1) \<Rightarrow>
             if existingID \<noteq> []
             then (((existingID, False, None), None), local_Store componentID existingID d, w1)
             else (case newWorkItemFn w1 of
                 (Inl e, w2) \<Rightarrow> ((([], False, Some e), None), d, w2)
               | (Inr (wi, x), w2) \<Rightarrow>
                   (case SetDebounceEntry E componentID (wi_ID wi) w2 of (redisErr, w3) \<Rightarrow>
                      (((wi_ID wi, True, None), Some x), local_Store componentID (wi_ID wi) d, w3)))))"

definition Expire :: "string \<Rightarrow> Debouncer \<Rightarrow> Debouncer" where
  "Expire componentID d = d\<lparr>db_local := (db_local d)(componentID := None)\<rparr>"

subsection \<open>One call\<close>

definition linked :: "Debouncer \<Rightarrow> string \<Rightarrow> string option" where
  "linked d c = map_option de_workItemID (db_local d c)"

lemma linked_local_Store [simp]: "linked (local_Store c i d) c' = (if c' = c then Some i else linked d c')"
  by (simp add: linked_def local_Store_def)

lemma linked_Expire [simp]: "linked (Expire c d) c' = (if c' = c then None else linked d c')"
  by (simp add: linked_def Expire_def)

lemma linked_New [simp]: "linked NewDebouncer c = None"
  by (simp add: linked_def NewDebouncer_def)

text \<open>A component with an entry in the map: no store is asked and nothing changes.\<close>

lemma Resolve_hit:
  assumes "linked d (sig_ComponentID s) = Some i"
  shows "Resolve E s fn d w = (((i, False, None), None), d, w)"
  using assms by (auto simp: Resolve_def linked_def)

text \<open>A call that reports no error leaves the answer in the map; other components are not touched.\<close>

lemma Resolve_links:
  assumes "Resolve E s fn d w = (((i, new, None), x), d', w')"
  shows "linked d' (sig_ComponentID s) = Some i"
  using assms by (auto simp: Resolve_def Let_def linked_def local_Store_def
      split: option.splits prod.splits sum.splits if_splits)

lemma Resolve_other:
  assumes "Resolve E s fn d w = (r, d', w')" and "c \<noteq> sig_ComponentID s"
  shows "linked d' c = linked d c"
  using assms by (auto simp: Resolve_def Let_def linked_def local_Store_def
      split: option.splits prod.splits sum.splits if_splits)

lemma Resolve_error:
  assumes "Resolve E s fn d w = (((i, new, Some e), x), d', w')"
  shows "d' = d \<and> \<not> new \<and> x = None"
  using assms by (auto simp: Resolve_def Let_def split: option.splits prod.splits sum.splits if_splits)

lemma Resolve_new_iff:
  assumes "Resolve E s fn d w = (((i, new, err), x), d', w')"
  shows "new \<longleftrightarrow> x \<noteq> None"
  using assms by (auto simp: Resolve_def Let_def split: option.splits prod.splits sum.splits if_splits)

text \<open>The three ways a call can end, in the order of the code.\<close>

lemma Resolve_cases:
  assumes "Resolve E s fn d w = (((i, new, err), x), d', w')"
  obtains (hit) "linked d (sig_ComponentID s) = Some i" "\<not> new" "err = None" "x = None" "d' = d" "w' = w"
  | (redis) e where "linked d (sig_ComponentID s) = None" "GetDebounceEntry E (sig_ComponentID s) w = ((i, e), w')"
      "i \<noteq> []" "\<not> new" "err = None" "x = None" "d' = local_Store (sig_ComponentID s) i d"
  | (failed) e1 w1 e where "linked d (sig_ComponentID s) = None"
      "GetDebounceEntry E (sig_ComponentID s) w = (([], e1), w1)" "fn w1 = (Inl e, w')"
      "i = []" "\<not> new" "err = Some e" "x = None" "d' = d"
  | (created) e1 w1 wi y w2 e2 where "linked d (sig_ComponentID s) = None"
      "GetDebounceEntry E (sig_ComponentID s) w = (([], e1), w1)" "fn w1 = (Inr (wi, y), w2)"
      "SetDebounceEntry E (sig_ComponentID s) (wi_ID wi) w2 = (e2, w')"
      "i = wi_ID wi" "new" "err = None" "x = Some y" "d' = local_Store (sig_ComponentID s) i d"
proof (cases "db_local d (sig_ComponentID s)")
  case (Some entry)
  with assms have "((de_workItemID entry, False, None), None, d, w) = ((i, new, err), x, d', w')"
    by (simp add: Resolve_def)
  with Some show ?thesis by (intro hit) (auto simp: linked_def)
next
  case None
  then have l: "linked d (sig_ComponentID s) = None" by (simp add: linked_def)
  obtain ex e1 w1 where g: "GetDebounceEntry E (sig_ComponentID s) w = ((ex, e1), w1)"
    by (metis surj_pair)
  show ?thesis
  proof (cases "ex = []")
    case False
    with None g assms have "((ex, False, None), None, local_Store (sig_ComponentID s) ex d, w1) =
        ((i, new, err), x, d', w')"
      by (auto simp: Resolve_def)
    with False g l show ?thesis by (intro redis [of e1]) auto
  next
    case True
    obtain r w2 where f: "fn w1 = (r, w2)" by fastforce
    show ?thesis
    proof (cases r)
      case (Inl e)
      with None g True f assms have "(([], False, Some e), None, d, w2) = ((i, new, err), x, d', w')"
        by (auto simp: Resolve_def)
      with g True f Inl l show ?thesis by (intro failed [of e1 w1 e]) auto
    next
      case (Inr wix)
      obtain wi y where wix: "wix = (wi, y)" by (cases wix)
      obtain e2 w3 where st: "SetDebounceEntry E (sig_ComponentID s) (wi_ID wi) w2 = (e2, w3)" by fastforce
      from None g True f Inr wix st assms
      have "((wi_ID wi, True, None), Some y, local_Store (sig_ComponentID s) (wi_ID wi) d, w3) =
          ((i, new, err), x, d', w')"
        by (auto simp: Resolve_def)
      with g True f Inr wix st l show ?thesis by (intro created [of e1 w1 wi y w2 e2]) auto
    qed
  qed
qed

subsection \<open>Sequences of calls\<close>

text \<open>
  Between two calls the world may change in any way (time passes, keys expire, other requests run):
  each call is given its own world.
\<close>

fun resolve_all ::
  "'o ext \<Rightarrow> (Signal \<times> ('o world \<Rightarrow> (go_error + WorkItem \<times> 'x) \<times> 'o world) \<times> 'o world) list \<Rightarrow>
   Debouncer \<Rightarrow> (string \<times> bool \<times> go_error option) list \<times> Debouncer" where
  "resolve_all E [] d = ([], d)"
| "resolve_all E ((s, fn, w) # calls) d =
     (case Resolve E s fn d w of ((r, x), d1, w1) \<Rightarrow>
        case resolve_all E calls d1 of (rs, d2) \<Rightarrow> (r # rs, d2))"

lemma resolve_all_linked:
  assumes "linked d c = Some i" and "\<forall>(s, fn, w) \<in> set calls. sig_ComponentID s = c"
  shows "resolve_all E calls d = (replicate (length calls) (i, False, None), d)"
  using assms(2)
proof (induction calls)
  case (Cons call calls)
  obtain s fn w where call: "call = (s, fn, w)" by (cases call)
  with Cons.prems assms(1) have "Resolve E s fn d w = (((i, False, None), None), d, w)"
    by (intro Resolve_hit) simp
  with Cons call show ?case by simp
qed simp

text \<open>
  Calls for one component, in any worlds: at most one creates a work item, and all that succeed
  report the same work item.
\<close>

lemma resolve_all_one_item:
  assumes "\<forall>(s, fn, w) \<in> set calls. sig_ComponentID s = c" and "resolve_all E calls d = (rs, d')"
  shows "length (filter (\<lambda>(i, new, err). new) rs) \<le> 1 \<and>
    (\<exists>i. \<forall>r \<in> set rs. snd (snd r) = None \<longrightarrow> fst r = i)"
  using assms
proof (induction calls arbitrary: d rs)
  case (Cons call calls)
  obtain s fn w where call: "call = (s, fn, w)" by (cases call)
  obtain i new err x d1 w1 where r: "Resolve E s fn d w = (((i, new, err), x), d1, w1)"
    by (metis surj_pair)
  obtain rs2 where rest: "resolve_all E calls d1 = (rs2, d')" and rs: "rs = (i, new, err) # rs2"
    using Cons.prems call r by (auto split: prod.splits)
  show ?case
  proof (cases err)
    case None
    then have "linked d1 c = Some i" using Resolve_links [of E s fn d w i new x d1 w1] r Cons.prems call by simp
    then have "rs2 = replicate (length calls) (i, False, None)"
      using resolve_all_linked [of d1 c i calls E] rest Cons.prems(1) by simp
    with rs None show ?thesis by (auto simp: filter_replicate)
  next
    case (Some e)
    then have "\<not> new" using Resolve_error r by metis
    with Some rs Cons.IH [of d1 rs2] Cons.prems(1) rest show ?thesis by auto
  qed
qed simp

subsection \<open>References\<close>

text \<open>
  Every entry of the map and every debounce key in Redis names a work item of that component.
\<close>

definition refs_ok :: "Debouncer \<Rightarrow> 'o world \<Rightarrow> bool" where
  "refs_ok d w \<longleftrightarrow>
     (\<forall>c i. linked d c = Some i \<longrightarrow> item_of (w_pg w) i c) \<and>
     (\<forall>c a x. w_redis w (debounceKey c) = Some (a, x) \<longrightarrow> (\<exists>i. a = RBytes i \<and> item_of (w_pg w) i c))"

lemma refs_ok_redis:
  "refs_ok d w \<Longrightarrow> w_redis w (debounceKey c) = Some (a, x) \<Longrightarrow> \<exists>i. a = RBytes i \<and> item_of (w_pg w) i c"
  unfolding refs_ok_def by blast

lemma refs_ok_mono:
  "refs_ok d w \<Longrightarrow> items_kept (w_pg w) (w_pg w') \<Longrightarrow>
     (\<And>c. w_redis w' (debounceKey c) = w_redis w (debounceKey c)) \<Longrightarrow> refs_ok d w'"
  unfolding refs_ok_def items_kept_def by metis

lemma refs_ok_same: "refs_ok d w \<Longrightarrow> same_stores w w' \<Longrightarrow> refs_ok d w'"
  by (rule refs_ok_mono) (auto simp: same_stores_def)

lemma refs_ok_Expire: "refs_ok d w \<Longrightarrow> refs_ok (Expire c d) w"
  by (auto simp: refs_ok_def)

lemma refs_ok_local_Store: "refs_ok d w \<Longrightarrow> item_of (w_pg w) i c \<Longrightarrow> refs_ok (local_Store c i d) w"
  by (auto simp: refs_ok_def)

text \<open>The contract of the closure that creates a work item for a signal.\<close>

locale item_creator = backend E for E :: "'o ext" +
  fixes s :: Signal
    and fn :: "'o world \<Rightarrow> (go_error + WorkItem \<times> 'x) \<times> 'o world"
  assumes fn_ok: "fn w = (Inr (wi, x), w') \<Longrightarrow>
      wi_ComponentID wi = sig_ComponentID s \<and> wi_ID wi \<noteq> [] \<and> wi_State wi = StateOpen \<and>
      apply_stmt (INSERT_work_item wi) (w_pg w) = Some (w_pg w') \<and> w_mongo w' = w_mongo w \<and>
      (\<forall>k. k \<noteq> dashboardKey \<longrightarrow> w_redis w' k = w_redis w k)"
    and fn_err: "fn w = (Inl e, w') \<Longrightarrow>
      (w_pg w' = w_pg w \<or> (\<exists>wi. wi_State wi = StateOpen \<and> apply_stmt (INSERT_work_item wi) (w_pg w) = Some (w_pg w'))) \<and>
      w_mongo w' = w_mongo w \<and> w_redis w' = w_redis w"
begin

lemma get_entry_item:
  assumes "refs_ok d w" and "GetDebounceEntry E c w = ((i, e), w1)" and "i \<noteq> []"
  shows "item_of (w_pg w) i c"
proof -
  obtain a v where g: "x_redis_get E (debounceKey c) (w_redis w) (w_env w) = (Inr a, v)" and i: "i = redis_text E a"
    using assms(2,3) by (auto simp: GetDebounceEntry_def redis_Get_def split: prod.splits sum.splits if_splits)
  from rd.get_ok [OF g] obtain x where "w_redis w (debounceKey c) = Some (a, x)"
    by (auto simp: redis_live_def split: option.splits if_splits)
  from refs_ok_redis [OF assms(1) this] i show ?thesis by (auto simp: redis_text_def)
qed

lemma set_entry_only:
  assumes "refs_ok d w" and "SetDebounceEntry E c i w = (e, w')" and "item_of (w_pg w) i c"
  shows "refs_ok d w'"
proof -
  have pg: "w_pg w' = w_pg w" using SetDebounceEntry_frame [OF assms(2)] by simp
  have own: "w_redis w' (debounceKey c) = w_redis w (debounceKey c) \<or> (\<exists>t. w_redis w' (debounceKey c) = Some (RBytes i, t))"
    using assms(2) by (cases e) (auto simp: SetDebounceEntry_def redis_Set_def split: prod.splits
        dest!: rd.set_ok rd.set_err)
  have rest: "w_redis w' (debounceKey k) = w_redis w (debounceKey k)" if "k \<noteq> c" for k
    using rd.SetDebounce_any [OF assms(2)] that by simp
  show ?thesis unfolding refs_ok_def
  proof (intro conjI allI impI)
    fix k j assume "linked d k = Some j"
    with assms(1) pg show "item_of (w_pg w') j k" by (simp add: refs_ok_def)
  next
    fix k a x assume k: "w_redis w' (debounceKey k) = Some (a, x)"
    show "\<exists>j. a = RBytes j \<and> item_of (w_pg w') j k"
    proof (cases "k = c")
      case True
      with own k assms(3) pg refs_ok_redis [OF assms(1), of c a x] show ?thesis by auto
    next
      case False
      with rest k pg refs_ok_redis [OF assms(1), of k a x] show ?thesis by auto
    qed
  qed
qed

lemma set_entry_refs:
  assumes "refs_ok d w" and "SetDebounceEntry E c i w = (e, w')" and "item_of (w_pg w) i c"
  shows "refs_ok (local_Store c i d) w'"
  using set_entry_only [OF assms] SetDebounceEntry_frame [OF assms(2)] assms(3)
  by (intro refs_ok_local_Store) simp_all

text \<open>\<open>Resolve\<close> keeps the references, and its answer is a work item of the signal's component.\<close>

lemma Resolve_refs:
  assumes "refs_ok d w" and "Resolve E s fn d w = (((i, new, err), x), d', w')"
  shows "refs_ok d' w' \<and> items_kept (w_pg w) (w_pg w') \<and> w_mongo w' = w_mongo w \<and>
    (err = None \<longrightarrow> item_of (w_pg w') i (sig_ComponentID s)) \<and>
    (w_pg w' = w_pg w \<or> (\<exists>wi. wi_State wi = StateOpen \<and> apply_stmt (INSERT_work_item wi) (w_pg w) = Some (w_pg w')))"
  using assms(2)
proof (cases rule: Resolve_cases)
  case hit
  with assms(1) show ?thesis by (auto simp: refs_ok_def)
next
  case (redis e)
  with GetDebounceEntry_frame [OF redis(2)] assms(1) get_entry_item [OF assms(1) redis(2,3)] show ?thesis
    by (auto simp: same_stores_def intro: refs_ok_local_Store refs_ok_same)
next
  case (failed e1 w1 e)
  have s1: "same_stores w w1" by (rule GetDebounceEntry_frame [OF failed(2)])
  from fn_err [OF failed(3)] have f: "(w_pg w' = w_pg w \<or> (\<exists>wi. wi_State wi = StateOpen \<and>
      apply_stmt (INSERT_work_item wi) (w_pg w) = Some (w_pg w'))) \<and> w_mongo w' = w_mongo w \<and> w_redis w' = w_redis w"
    using s1 by (simp add: same_stores_def)
  then have "items_kept (w_pg w) (w_pg w')" by (auto intro: items_kept_apply)
  with f failed assms(1) show ?thesis by (auto intro: refs_ok_mono)
next
  case (created e1 w1 wi y w2 e2)
  have s1: "same_stores w w1" by (rule GetDebounceEntry_frame [OF created(2)])
  from fn_ok [OF created(3)] have f: "wi_ComponentID wi = sig_ComponentID s" "wi_State wi = StateOpen"
      "apply_stmt (INSERT_work_item wi) (w_pg w) = Some (w_pg w2)" "w_mongo w2 = w_mongo w"
      "\<And>c. w_redis w2 (debounceKey c) = w_redis w (debounceKey c)"
    using s1 by (simp_all add: same_stores_def)
  have kept: "items_kept (w_pg w) (w_pg w2)" using f(3) by (rule items_kept_apply)
  have refs2: "refs_ok d w2" using assms(1) kept f(5) by (rule refs_ok_mono)
  have new: "item_of (w_pg w2) (wi_ID wi) (sig_ComponentID s)"
    using f(1,3) item_of_inserted [of wi "w_pg w"] by (simp add: apply_stmt_Some_iff)
  from set_entry_refs [OF refs2 created(4) new] SetDebounceEntry_frame [OF created(4)] kept f new created
  show ?thesis by auto
qed

end

subsection \<open>Properties\<close>


definition ex_fn :: "string \<Rightarrow> ref_o world \<Rightarrow> (go_error + WorkItem \<times> unit) \<times> ref_o world" where
  "ex_fn i w = (Inr ((ex_item StateOpen)\<lparr>wi_ID := i\<rparr>, ()), w)"

definition ex_calls :: "(Signal \<times> (ref_o world \<Rightarrow> (go_error + WorkItem \<times> unit) \<times> ref_o world) \<times> ref_o world) list" where
  "ex_calls = map (\<lambda>i. (NewSignal i 5 ''db-1'' ComponentRDBMS ''timeout'' SeverityP0 None, ex_fn i, ref_world 5 []))
     [''a'', ''b'', ''c'']"


text \<open>
  C40. The in-process window has no end. Once a component has an entry in the map, every later signal
  of that component is attached to that same work item, at any time and whatever has become of the
  item, until \<open>Expire\<close> is called for it: neither the lifetime of the Redis entry nor the closing of
  the work item ends it, and no part of the program calls \<open>Expire\<close>.
\<close>

theorem debounce_window_unbounded:
  assumes "\<forall>(s, fn, w) \<in> set calls. sig_ComponentID s = c" and "linked d c = Some i"
  shows "resolve_all E calls d = (replicate (length calls) (i, False, None), d) \<and> linked (Expire c d) c = None"
  using resolve_all_linked [OF assms(2,1)] by simp

theorem debounce_window_unbounded_witness:
  "resolve_all ref_env ex_calls (local_Store ''db-1'' ''w1'' NewDebouncer) =
     (replicate 3 (''w1'', False, None), local_Store ''db-1'' ''w1'' NewDebouncer)"
proof -
  have "\<forall>(s, fn, w) \<in> set ex_calls. sig_ComponentID s = ''db-1''"
    by (simp add: ex_calls_def NewSignal_def)
  moreover have "linked (local_Store ''db-1'' ''w1'' NewDebouncer) ''db-1'' = Some ''w1''" by simp
  moreover have "length ex_calls = 3" by (simp add: ex_calls_def)
  ultimately show ?thesis using debounce_window_unbounded by metis
qed

end
