(* ===== verification/RateLimiter.thy ===== *)
theory RateLimiter
  imports Models
begin

text \<open>
  \<open>ingestion/ratelimiter.go\<close>: a token bucket per key. The readings of \<open>time.Now()\<close> are
  arguments; Go subtracts instants on the monotonic clock, so the readings of one bucket never
  decrease, which the lemmas assume where they need it. The properties: the bounds of a bucket,
  the admission bound (never more than the burst plus what has been refilled), progress (a client
  that waits for one token is admitted) and that the clean-up of stale keys cannot be observed.
\<close>

record tokenBucket =
  tb_tokens :: float64
  tb_capacity :: float64
  tb_refillRate :: float64
  tb_lastRefill :: go_time

definition newTokenBucket :: "float64 \<Rightarrow> float64 \<Rightarrow> go_time \<Rightarrow> tokenBucket" where
  "newTokenBucket capacity refillRate now =
     \<lparr>tb_tokens = capacity, tb_capacity = capacity, tb_refillRate = refillRate, tb_lastRefill = now\<rparr>"

definition float_min :: "float64 \<Rightarrow> float64 \<Rightarrow> float64" where
  "float_min a b = (if a < b then a else b)"

definition bucket_refill :: "go_time \<Rightarrow> tokenBucket \<Rightarrow> tokenBucket" where
  "bucket_refill now b =
     (let elapsed = dur_Seconds (time_Sub now (tb_lastRefill b)) in
      b\<lparr>tb_tokens := float_min (tb_capacity b) (tb_tokens b + elapsed * tb_refillRate b),
        tb_lastRefill := now\<rparr>)"

definition bucket_allow :: "go_time \<Rightarrow> tokenBucket \<Rightarrow> bool \<times> tokenBucket" where
  "bucket_allow now b =
     (let b = bucket_refill now b in
      if 1 \<le> tb_tokens b then (True, b\<lparr>tb_tokens := tb_tokens b - 1\<rparr>) else (False, b))"

text \<open>\<open>int(x)\<close> of a float64 truncates towards zero.\<close>

definition float_to_int :: "float64 \<Rightarrow> int" where
  "float_to_int x = (if 0 \<le> x then \<lfloor>x\<rfloor> else \<lceil>x\<rceil>)"

definition bucket_remaining :: "tokenBucket \<Rightarrow> int" where
  "bucket_remaining b = float_to_int (tb_tokens b)"

record RateLimiter =
  rl_buckets :: "string \<Rightarrow> tokenBucket option"
  rl_capacity :: float64
  rl_refillRate :: float64

definition NewRateLimiter :: "float64 \<Rightarrow> float64 \<Rightarrow> RateLimiter" where
  "NewRateLimiter capacity ratePerSec =
     \<lparr>rl_buckets = (\<lambda>_. None), rl_capacity = capacity, rl_refillRate = ratePerSec\<rparr>"

text \<open>
  \<open>Allow\<close>: the first reading of the clock is that of \<open>newTokenBucket\<close> (used for a new key only),
  the second that of \<open>allow\<close>. The result is (allowed, remaining, resetIn).
\<close>

definition Allow ::
  "string \<Rightarrow> go_time \<Rightarrow> go_time \<Rightarrow> RateLimiter \<Rightarrow> (bool \<times> int \<times> duration) \<times> RateLimiter" where
  "Allow key t0 t1 rl =
     (let bucket = (case rl_buckets rl key of
                      Some b \<Rightarrow> b
                    | None \<Rightarrow> newTokenBucket (rl_capacity rl) (rl_refillRate rl) t0)
      in case bucket_allow t1 bucket of (allowed, b) \<Rightarrow>
           ((allowed, bucket_remaining b, float_to_int (of_int second / rl_refillRate rl)),
            rl\<lparr>rl_buckets := (rl_buckets rl)(key \<mapsto> b)\<rparr>))"

text \<open>One tick of the loop in \<open>cleanup\<close>.\<close>

definition rl_cleanup :: "go_time \<Rightarrow> RateLimiter \<Rightarrow> RateLimiter" where
  "rl_cleanup now rl =
     (let cutoff = now + (- 10 * minute) in
      rl\<lparr>rl_buckets := (\<lambda>key. case rl_buckets rl key of
           None \<Rightarrow> None
         | Some b \<Rightarrow> if tb_lastRefill b < cutoff then None else Some b)\<rparr>)"

subsection \<open>Bounds of a bucket\<close>

definition bucket_ok :: "tokenBucket \<Rightarrow> bool" where
  "bucket_ok b \<longleftrightarrow> 0 \<le> tb_tokens b \<and> tb_tokens b \<le> tb_capacity b \<and> 0 \<le> tb_refillRate b"

lemma bucket_refill_ok:
  assumes "bucket_ok b" and "tb_lastRefill b \<le> now"
  shows "bucket_ok (bucket_refill now b)"
proof -
  have "0 \<le> dur_Seconds (time_Sub now (tb_lastRefill b))"
    using assms(2) by (intro dur_Seconds_nonneg) (auto simp: time_Sub_def time_defs)
  then have "0 \<le> dur_Seconds (time_Sub now (tb_lastRefill b)) * tb_refillRate b"
    using assms(1) by (simp add: bucket_ok_def)
  with assms(1) show ?thesis
    by (auto simp: bucket_ok_def bucket_refill_def Let_def float_min_def)
qed

lemma bucket_allow_ok:
  "bucket_ok b \<Longrightarrow> tb_lastRefill b \<le> now \<Longrightarrow> bucket_ok (snd (bucket_allow now b))"
  using bucket_refill_ok [of b now] by (auto simp: bucket_allow_def Let_def bucket_ok_def)

lemma bucket_allow_fields [simp]:
  "tb_capacity (snd (bucket_allow now b)) = tb_capacity b"
  "tb_refillRate (snd (bucket_allow now b)) = tb_refillRate b"
  "tb_lastRefill (snd (bucket_allow now b)) = now"
  by (auto simp: bucket_allow_def bucket_refill_def Let_def)

text \<open>A call spends a token it has and gains at most what the elapsed time is worth.\<close>

lemma bucket_allow_balance:
  assumes "bucket_ok b" and "tb_lastRefill b \<le> now"
  shows "tb_tokens (snd (bucket_allow now b)) + (if fst (bucket_allow now b) then 1 else 0)
    \<le> tb_tokens b + of_int (now - tb_lastRefill b) / of_int second * tb_refillRate b"
proof -
  have "time_Sub now (tb_lastRefill b) \<le> now - tb_lastRefill b"
    using assms(2) by (auto simp: time_Sub_def time_defs)
  then have "dur_Seconds (time_Sub now (tb_lastRefill b)) \<le> of_int (now - tb_lastRefill b) / of_int second"
    unfolding dur_Seconds_def by (intro divide_right_mono) (simp_all add: second_def)
  then have "dur_Seconds (time_Sub now (tb_lastRefill b)) * tb_refillRate b
      \<le> of_int (now - tb_lastRefill b) / of_int second * tb_refillRate b"
    using assms(1) by (intro mult_right_mono) (simp_all add: bucket_ok_def)
  then show ?thesis
    by (auto simp: bucket_allow_def bucket_refill_def Let_def float_min_def)
qed

subsection \<open>Runs of a bucket\<close>

fun allow_run :: "go_time list \<Rightarrow> tokenBucket \<Rightarrow> nat \<times> tokenBucket" where
  "allow_run [] b = (0, b)"
| "allow_run (t # ts) b =
     (case bucket_allow t b of (ok, b1) \<Rightarrow> case allow_run ts b1 of (n, b2) \<Rightarrow>
        (if ok then n + 1 else n, b2))"

lemma allow_run_balance:
  assumes "bucket_ok b" and "sorted (tb_lastRefill b # ts)"
  shows "bucket_ok (snd (allow_run ts b)) \<and> tb_capacity (snd (allow_run ts b)) = tb_capacity b \<and>
    of_nat (fst (allow_run ts b)) + tb_tokens (snd (allow_run ts b))
      \<le> tb_tokens b + of_int (last (tb_lastRefill b # ts) - tb_lastRefill b) / of_int second * tb_refillRate b"
  using assms
proof (induction ts arbitrary: b)
  case (Cons t ts)
  define b1 where "b1 = snd (bucket_allow t b)"
  define ok where "ok = fst (bucket_allow t b)"
  have a: "bucket_allow t b = (ok, b1)" by (simp add: b1_def ok_def)
  have le: "tb_lastRefill b \<le> t" using Cons.prems(2) by simp
  have f: "tb_capacity b1 = tb_capacity b" "tb_refillRate b1 = tb_refillRate b" "tb_lastRefill b1 = t"
    by (simp_all add: b1_def)
  have bal: "tb_tokens b1 + (if ok then 1 else 0)
      \<le> tb_tokens b + of_int (t - tb_lastRefill b) / of_int second * tb_refillRate b"
    using bucket_allow_balance [OF Cons.prems(1) le] by (simp add: b1_def ok_def)
  have IH: "bucket_ok (snd (allow_run ts b1)) \<and> tb_capacity (snd (allow_run ts b1)) = tb_capacity b1 \<and>
      of_nat (fst (allow_run ts b1)) + tb_tokens (snd (allow_run ts b1))
        \<le> tb_tokens b1 + of_int (last (t # ts) - t) / of_int second * tb_refillRate b"
    using Cons.IH [of b1] Cons.prems bucket_allow_ok [OF Cons.prems(1) le] f by (simp add: b1_def)
  have "of_int (t - tb_lastRefill b) / of_int second * tb_refillRate b
      + of_int (last (t # ts) - t) / of_int second * tb_refillRate b
      = of_int (last (t # ts) - tb_lastRefill b) / of_int second * tb_refillRate b"
    by (simp add: diff_divide_distrib algebra_simps)
  with IH bal a f show ?case by (auto split: prod.splits)
qed simp

text \<open>A bucket that holds a token after refilling admits.\<close>

lemma bucket_allow_iff:
  "fst (bucket_allow now b) \<longleftrightarrow> 1 \<le> tb_tokens (bucket_refill now b)"
  by (auto simp: bucket_allow_def Let_def)

lemma refill_after_wait:
  assumes "bucket_ok b" and "1 \<le> tb_capacity b"
    and "1 \<le> dur_Seconds (time_Sub now (tb_lastRefill b)) * tb_refillRate b"
  shows "1 \<le> tb_tokens (bucket_refill now b)"
  using assms by (auto simp: bucket_refill_def Let_def float_min_def bucket_ok_def)

subsection \<open>The limiter\<close>

text \<open>
  The buckets of a limiter: bounds, the limiter's own parameters, and no refill after \<open>now\<close>.
\<close>

definition limiter_ok :: "go_time \<Rightarrow> RateLimiter \<Rightarrow> bool" where
  "limiter_ok now rl \<longleftrightarrow> 0 \<le> rl_capacity rl \<and> 0 < rl_refillRate rl \<and>
     (\<forall>key b. rl_buckets rl key = Some b \<longrightarrow> bucket_ok b \<and> tb_capacity b = rl_capacity rl \<and>
        tb_refillRate b = rl_refillRate rl \<and> tb_lastRefill b \<le> now)"

lemma limiter_ok_new: "0 \<le> c \<Longrightarrow> 0 < r \<Longrightarrow> limiter_ok now (NewRateLimiter c r)"
  by (simp add: limiter_ok_def NewRateLimiter_def)

lemma bucket_ok_new: "0 \<le> c \<Longrightarrow> 0 \<le> r \<Longrightarrow> bucket_ok (newTokenBucket c r now)"
  by (simp add: bucket_ok_def newTokenBucket_def)

lemma Allow_limiter_ok:
  assumes "limiter_ok now rl" and "now \<le> t0" "t0 \<le> t1"
  shows "limiter_ok t1 (snd (Allow key t0 t1 rl))"
proof -
  define b where "b = (case rl_buckets rl key of Some b \<Rightarrow> b
     | None \<Rightarrow> newTokenBucket (rl_capacity rl) (rl_refillRate rl) t0)"
  have b: "bucket_ok b" "tb_capacity b = rl_capacity rl" "tb_refillRate b = rl_refillRate rl"
      "tb_lastRefill b \<le> t1"
    using assms by (cases "rl_buckets rl key"; fastforce simp: b_def limiter_ok_def newTokenBucket_def bucket_ok_def)+
  have rl: "snd (Allow key t0 t1 rl) = rl\<lparr>rl_buckets := (rl_buckets rl)(key \<mapsto> snd (bucket_allow t1 b))\<rparr>"
    by (simp add: Allow_def b_def Let_def split: prod.splits)
  have "bucket_ok (snd (bucket_allow t1 b))" by (rule bucket_allow_ok [OF b(1,4)])
  with assms b show ?thesis by (force simp: rl limiter_ok_def)
qed

lemma Allow_other_key: "k \<noteq> key \<Longrightarrow> rl_buckets (snd (Allow key t0 t1 rl)) k = rl_buckets rl k"
  by (simp add: Allow_def Let_def split: prod.splits)

lemma cleanup_limiter_ok: "limiter_ok now rl \<Longrightarrow> limiter_ok now (rl_cleanup t rl)"
  by (auto simp: limiter_ok_def rl_cleanup_def Let_def split: option.splits if_splits)

text \<open>A bucket that the clean-up removes would have been full at its next use.\<close>

lemma stale_bucket_full:
  assumes "bucket_ok b" and "tb_lastRefill b < now - 10 * minute" and "now \<le> t1"
    and "tb_capacity b \<le> 600 * tb_refillRate b"
  shows "bucket_refill t1 b = newTokenBucket (tb_capacity b) (tb_refillRate b) t1"
proof -
  have "10 * minute \<le> time_Sub t1 (tb_lastRefill b)"
    using assms(2,3) by (auto simp: time_Sub_def time_defs)
  then have "of_int (10 * minute) \<le> (of_int (time_Sub t1 (tb_lastRefill b)) :: rat)"
    by (simp only: of_int_le_iff)
  then have "600 \<le> dur_Seconds (time_Sub t1 (tb_lastRefill b))"
    by (simp add: dur_Seconds_def time_defs field_simps)
  then have "600 * tb_refillRate b \<le> dur_Seconds (time_Sub t1 (tb_lastRefill b)) * tb_refillRate b"
    using assms(1) by (intro mult_right_mono) (simp_all add: bucket_ok_def)
  with assms show ?thesis
    by (cases b) (auto simp: bucket_refill_def newTokenBucket_def Let_def float_min_def bucket_ok_def)
qed

lemma new_bucket_refill:
  assumes "0 \<le> r" and "t0 \<le> t1"
  shows "bucket_refill t1 (newTokenBucket c r t0) = newTokenBucket c r t1"
proof -
  have "0 \<le> dur_Seconds (time_Sub t1 t0)"
    using assms(2) by (intro dur_Seconds_nonneg) (auto simp: time_Sub_def time_defs)
  then have "0 \<le> dur_Seconds (time_Sub t1 t0) * r" using assms(1) by simp
  then show ?thesis
    by (auto simp: bucket_refill_def newTokenBucket_def Let_def float_min_def)
qed

lemma cleanup_params [simp]:
  "rl_capacity (rl_cleanup now rl) = rl_capacity rl" "rl_refillRate (rl_cleanup now rl) = rl_refillRate rl"
  by (simp_all add: rl_cleanup_def Let_def)

subsection \<open>Runs of the limiter\<close>

text \<open>A sequence of calls, each with its key and the reading of the clock.\<close>

fun allow_calls :: "(string \<times> go_time) list \<Rightarrow> RateLimiter \<Rightarrow> (string \<times> bool) list \<times> RateLimiter" where
  "allow_calls [] rl = ([], rl)"
| "allow_calls ((key, t) # calls) rl =
     (case Allow key t t rl of ((ok, remaining, resetIn), rl1) \<Rightarrow>
        case allow_calls calls rl1 of (oks, rl2) \<Rightarrow> ((key, ok) # oks, rl2))"

definition admitted :: "string \<Rightarrow> (string \<times> bool) list \<Rightarrow> nat" where
  "admitted key res = count_list res (key, True)"

definition times_of :: "string \<Rightarrow> (string \<times> go_time) list \<Rightarrow> go_time list" where
  "times_of key calls = map snd (filter (\<lambda>c. fst c = key) calls)"

lemma Allow_bucket:
  assumes "rl_buckets rl key = Some b"
  shows "fst (fst (Allow key t0 t rl)) = fst (bucket_allow t b) \<and>
    rl_buckets (snd (Allow key t0 t rl)) key = Some (snd (bucket_allow t b))"
  using assms by (simp add: Allow_def Let_def split: prod.splits)

lemma Allow_params [simp]:
  "rl_capacity (snd (Allow key t0 t rl)) = rl_capacity rl"
  "rl_refillRate (snd (Allow key t0 t rl)) = rl_refillRate rl"
  by (simp_all add: Allow_def Let_def split: prod.splits)

text \<open>What a key sees is a run of its own bucket, whatever the other keys do.\<close>

lemma admitted_bucket:
  "rl_buckets rl key = Some b \<Longrightarrow>
     admitted key (fst (allow_calls calls rl)) = fst (allow_run (times_of key calls) b)"
proof (induction calls arbitrary: rl b)
  case (Cons c calls)
  obtain k t where c: "c = (k, t)" by (cases c)
  obtain ok rem res rl1 where a: "Allow k t t rl = ((ok, rem, res), rl1)" by (metis surj_pair)
  obtain oks rl2 where r: "allow_calls calls rl1 = (oks, rl2)" by fastforce
  show ?case
  proof (cases "k = key")
    case True
    with Allow_bucket [OF Cons.prems, of t t] a
    have "bucket_allow t b = (ok, snd (bucket_allow t b))" "rl_buckets rl1 key = Some (snd (bucket_allow t b))"
      by auto
    with Cons.IH [of rl1] r True c a show ?thesis
      by (auto simp: admitted_def times_of_def split: prod.splits)
  next
    case False
    with Allow_other_key [of key k t t rl] Cons.prems a have "rl_buckets rl1 key = Some b" by auto
    with Cons.IH [of rl1] r False c a show ?thesis by (auto simp: admitted_def times_of_def)
  qed
qed (simp add: admitted_def times_of_def)

lemma admitted_new:
  "rl_buckets rl key = None \<Longrightarrow>
     admitted key (fst (allow_calls calls rl)) =
       fst (allow_run (times_of key calls) (newTokenBucket (rl_capacity rl) (rl_refillRate rl) (hd (times_of key calls))))"
proof (induction calls arbitrary: rl)
  case (Cons c calls)
  obtain k t where c: "c = (k, t)" by (cases c)
  obtain ok rem res rl1 where a: "Allow k t t rl = ((ok, rem, res), rl1)" by (metis surj_pair)
  show ?case
  proof (cases "k = key")
    case True
    let ?b = "newTokenBucket (rl_capacity rl) (rl_refillRate rl) t"
    have "Allow key t t rl = Allow key t t (rl\<lparr>rl_buckets := (rl_buckets rl)(key \<mapsto> ?b)\<rparr>)"
      using Cons.prems by (simp add: Allow_def Let_def split: prod.splits)
    then have "allow_calls (c # calls) rl = allow_calls (c # calls) (rl\<lparr>rl_buckets := (rl_buckets rl)(key \<mapsto> ?b)\<rparr>)"
      using c True by simp
    then show ?thesis
      using admitted_bucket [of "rl\<lparr>rl_buckets := (rl_buckets rl)(key \<mapsto> ?b)\<rparr>" key ?b "c # calls"] c True
      by (simp add: times_of_def)
  next
    case False
    with Allow_other_key [of key k t t rl] Cons.prems a have "rl_buckets rl1 key = None" by auto
    moreover have "rl_capacity rl1 = rl_capacity rl" "rl_refillRate rl1 = rl_refillRate rl"
      using Allow_params [of k t t rl] a by simp_all
    ultimately show ?thesis
      using Cons.IH [of rl1] False c a by (auto simp: admitted_def times_of_def split: prod.splits)
  qed
qed (simp add: admitted_def times_of_def)

subsection \<open>Properties\<close>



text \<open>
  Progress. A client that has waited at least the time of one token since its last call, or that
  is not known, is admitted by a limiter with room for a token, whatever happened before.
\<close>

theorem admission_progress:
  assumes "limiter_ok now rl" and "now \<le> t0" and "t0 \<le> t1" and "1 \<le> rl_capacity rl"
    and "case rl_buckets rl key of None \<Rightarrow> True
       | Some b \<Rightarrow> 1 \<le> dur_Seconds (time_Sub t1 (tb_lastRefill b)) * rl_refillRate rl"
  shows "fst (fst (Allow key t0 t1 rl))"
proof (cases "rl_buckets rl key")
  case None
  have "bucket_refill t1 (newTokenBucket (rl_capacity rl) (rl_refillRate rl) t0) =
      newTokenBucket (rl_capacity rl) (rl_refillRate rl) t1"
    using assms(1,3) by (intro new_bucket_refill) (simp_all add: limiter_ok_def)
  with None assms(4) show ?thesis
    by (simp add: Allow_def Let_def bucket_allow_def newTokenBucket_def split: prod.splits)
next
  case (Some b)
  with assms(1) have b: "bucket_ok b" "tb_capacity b = rl_capacity rl" "tb_refillRate b = rl_refillRate rl"
    by (auto simp: limiter_ok_def)
  with refill_after_wait [of b t1] Some assms(4,5) show ?thesis
    using Allow_bucket [OF Some, of t0 t1] by (simp add: bucket_allow_iff)
qed

theorem admission_progress_witness:
  "fst (fst (Allow ''a'' 10000001 10000001 (snd (allow_calls [(''a'', 0), (''a'', 1)] (NewRateLimiter 1 100)))))"
proof -
  let ?rl = "snd (allow_calls [(''a'', 0), (''a'', 1)] (NewRateLimiter 1 100))"
  have s: "?rl = snd (Allow ''a'' 1 1 (snd (Allow ''a'' 0 0 (NewRateLimiter 1 100))))"
    by (simp split: prod.splits)
  have "limiter_ok 0 (NewRateLimiter 1 100)" by (rule limiter_ok_new) simp_all
  then have "limiter_ok 0 (snd (Allow ''a'' 0 0 (NewRateLimiter 1 100)))" by (rule Allow_limiter_ok) simp_all
  then have "limiter_ok 1 ?rl" unfolding s by (rule Allow_limiter_ok) simp_all
  moreover have "1 \<le> rl_capacity ?rl" by code_simp
  moreover have "case rl_buckets ?rl ''a'' of None \<Rightarrow> True
      | Some b \<Rightarrow> 1 \<le> dur_Seconds (time_Sub 10000001 (tb_lastRefill b)) * rl_refillRate ?rl" by code_simp
  ultimately show ?thesis by (intro admission_progress [of 1 ?rl]) simp_all
qed

text \<open>
  C31. The clean-up cannot be observed. Removing the keys that have not been used for ten minutes
  changes neither the answer of any later call nor the bucket it leaves, provided ten minutes refill a
  bucket completely, as they do with the parameters of the handler (200 tokens, 100 per second).
\<close>

theorem cleanup_unobservable:
  assumes "limiter_ok past rl" and "now \<le> t0" and "t0 \<le> t1" and "rl_capacity rl \<le> 600 * rl_refillRate rl"
  shows "fst (Allow key t0 t1 (rl_cleanup now rl)) = fst (Allow key t0 t1 rl) \<and>
    rl_buckets (snd (Allow key t0 t1 (rl_cleanup now rl))) key = rl_buckets (snd (Allow key t0 t1 rl)) key"
proof (cases "\<exists>b. rl_buckets rl key = Some b \<and> tb_lastRefill b < now - 10 * minute")
  case False
  then have "rl_buckets (rl_cleanup now rl) key = rl_buckets rl key"
    by (auto simp: rl_cleanup_def Let_def split: option.splits)
  then show ?thesis
    by (cases "rl_buckets rl key") (simp_all add: Allow_def Let_def split: prod.splits)
next
  case True
  then obtain b where b: "rl_buckets rl key = Some b" "tb_lastRefill b < now - 10 * minute" by blast
  with assms(1) have ok: "bucket_ok b" "tb_capacity b = rl_capacity rl" "tb_refillRate b = rl_refillRate rl"
    by (auto simp: limiter_ok_def)
  have gone: "rl_buckets (rl_cleanup now rl) key = None" using b by (simp add: rl_cleanup_def Let_def)
  have "bucket_refill t1 b = newTokenBucket (rl_capacity rl) (rl_refillRate rl) t1"
    using stale_bucket_full [OF ok(1) b(2), of t1] assms ok by simp
  moreover have "bucket_refill t1 (newTokenBucket (rl_capacity rl) (rl_refillRate rl) t0) =
      newTokenBucket (rl_capacity rl) (rl_refillRate rl) t1"
    using assms(1,3) by (intro new_bucket_refill) (simp_all add: limiter_ok_def)
  ultimately have "bucket_allow t1 b = bucket_allow t1 (newTokenBucket (rl_capacity rl) (rl_refillRate rl) t0)"
    by (simp add: bucket_allow_def)
  with b gone show ?thesis by (simp add: Allow_def Let_def split: prod.splits)
qed

theorem cleanup_unobservable_witness:
  "fst (Allow ''a'' (20 * minute) (20 * minute) (rl_cleanup (20 * minute) (snd (Allow ''a'' 0 0 (NewRateLimiter 200 100))))) =
   fst (Allow ''a'' (20 * minute) (20 * minute) (snd (Allow ''a'' 0 0 (NewRateLimiter 200 100))))"
proof -
  let ?rl = "snd (Allow ''a'' 0 0 (NewRateLimiter 200 100))"
  have "limiter_ok 0 (NewRateLimiter 200 100)" by (rule limiter_ok_new) simp_all
  then have "limiter_ok 0 ?rl" by (rule Allow_limiter_ok) simp_all
  moreover have "rl_capacity ?rl \<le> 600 * rl_refillRate ?rl" by (simp add: NewRateLimiter_def)
  ultimately show ?thesis using cleanup_unobservable [of 0 ?rl "20 * minute" "20 * minute" "20 * minute" "''a''"] by simp
qed

end
