(* ===== verification/SignalQueue.thy ===== *)
theory SignalQueue
  imports Models
begin

text \<open>
  \<open>queue/queue.go\<close>: the bounded buffer between the ingestion handlers and the workers. The
  channel is the list of the signals in it, oldest first; the counters \<open>dropped\<close> and
  \<open>enqueued\<close> are atomic 64-bit integers. A non-blocking send on a full channel takes the
  \<open>default\<close> branch. The locale \<open>bounded_fifo\<close> is the contract of such a buffer, proved for
  \<open>SignalQueue\<close>; it gives conservation, order and the bound for every history of calls.
\<close>

record SignalQueue =
  q_ch :: "Signal list"
  q_capacity :: int64
  q_dropped :: int64
  q_enqueued :: int64

definition DefaultCapacity :: int where
  "DefaultCapacity = 50000"

definition warnThreshold :: float64 where
  "warnThreshold = 80 / 100"

definition queue_New :: "int \<Rightarrow> SignalQueue" where
  "queue_New capacity =
     (let capacity = (if capacity \<le> 0 then DefaultCapacity else capacity)
      in \<lparr>q_ch = [], q_capacity = word_of_int capacity, q_dropped = 0, q_enqueued = 0\<rparr>)"

definition Len :: "SignalQueue \<Rightarrow> int" where
  "Len q = int (length (q_ch q))"

definition Cap :: "SignalQueue \<Rightarrow> int" where
  "Cap q = sint (q_capacity q)"

definition DroppedCount :: "SignalQueue \<Rightarrow> int64" where
  "DroppedCount q = q_dropped q"

definition EnqueuedCount :: "SignalQueue \<Rightarrow> int64" where
  "EnqueuedCount q = q_enqueued q"

definition FillRatio :: "SignalQueue \<Rightarrow> float64" where
  "FillRatio q = of_nat (length (q_ch q)) / of_int (sint (q_capacity q))"

text \<open>\<open>logIfPressured\<close> only decides whether a warning is logged.\<close>

definition logIfPressured :: "SignalQueue \<Rightarrow> bool" where
  "logIfPressured q \<longleftrightarrow> warnThreshold \<le> FillRatio q"

definition TryEnqueue :: "Signal \<Rightarrow> SignalQueue \<Rightarrow> bool \<times> SignalQueue" where
  "TryEnqueue signal q =
     (if int (length (q_ch q)) < sint (q_capacity q)
      then (True, q\<lparr>q_ch := q_ch q @ [signal], q_enqueued := q_enqueued q + 1\<rparr>)
      else (False, q\<lparr>q_dropped := q_dropped q + 1\<rparr>))"

text \<open>A receive from the channel that \<open>Consume\<close> returns; \<open>None\<close>: a receive would block.\<close>

definition Consume :: "SignalQueue \<Rightarrow> (Signal \<times> SignalQueue) option" where
  "Consume q = (case q_ch q of [] \<Rightarrow> None | s # ss \<Rightarrow> Some (s, q\<lparr>q_ch := ss\<rparr>))"

subsection \<open>The contract of a bounded buffer\<close>

datatype 'a queue_op = Put 'a | Take

locale bounded_fifo =
  fixes put :: "'a \<Rightarrow> 'q \<Rightarrow> bool \<times> 'q"
    and get :: "'q \<Rightarrow> ('a \<times> 'q) option"
    and items :: "'q \<Rightarrow> 'a list"
    and bound :: "'q \<Rightarrow> nat"
  assumes put_ok: "length (items q) < bound q \<Longrightarrow>
      fst (put x q) \<and> items (snd (put x q)) = items q @ [x]"
    and put_full: "bound q \<le> length (items q) \<Longrightarrow>
      \<not> fst (put x q) \<and> items (snd (put x q)) = items q"
    and put_bound: "bound (snd (put x q)) = bound q"
    and get_none: "get q = None \<longleftrightarrow> items q = []"
    and get_some: "get q = Some (x, q') \<Longrightarrow> items q = x # items q'"
    and get_bound: "get q = Some (x, q') \<Longrightarrow> bound q' = bound q"
begin

text \<open>A history of calls: the final buffer, the values accepted and the values taken, in order.\<close>

fun history :: "'a queue_op list \<Rightarrow> 'q \<Rightarrow> 'q \<times> 'a list \<times> 'a list" where
  "history [] q = (q, [], [])"
| "history (Put x # ops) q =
     (case put x q of (ok, q1) \<Rightarrow> case history ops q1 of (q', ins, outs) \<Rightarrow>
        (q', (if ok then x # ins else ins), outs))"
| "history (Take # ops) q =
     (case get q of
        None \<Rightarrow> history ops q
      | Some (x, q1) \<Rightarrow> (case history ops q1 of (q', ins, outs) \<Rightarrow> (q', ins, x # outs)))"

lemma put_cases:
  "put x q = (ok, q') \<Longrightarrow> items q' = (if ok then items q @ [x] else items q) \<and> bound q' = bound q \<and>
     (ok \<longleftrightarrow> length (items q) < bound q)"
  using put_ok [of q x] put_full [of q x] put_bound [of x q] by (cases "length (items q) < bound q") auto

lemma history_fifo: "history ops q = (q', ins, outs) \<Longrightarrow> items q @ ins = outs @ items q'"
proof (induction ops q arbitrary: q' ins outs rule: history.induct)
  case (2 x ops q)
  then show ?case by (fastforce split: prod.splits if_splits dest: put_cases)
next
  case (3 ops q)
  then show ?case by (fastforce split: prod.splits option.splits dest: get_some)
qed simp

lemma history_bound:
  assumes "history ops q = (q', ins, outs)" and "length (items q) \<le> bound q"
  shows "length (items q') \<le> bound q' \<and> bound q' = bound q"
  using assms
proof (induction ops arbitrary: q q' ins outs)
  case (Cons op ops)
  show ?case
  proof (cases op)
    case (Put x)
    obtain ok q1 where p: "put x q = (ok, q1)" by fastforce
    with Cons.prems Put obtain ins1 where "history ops q1 = (q', ins1, outs)"
      by (auto split: prod.splits)
    from Cons.IH [OF this] put_cases [OF p] Cons.prems(2) show ?thesis by auto
  next
    case Take
    show ?thesis
    proof (cases "get q")
      case None
      with Take Cons.prems have "history ops q = (q', ins, outs)" by simp
      then show ?thesis using Cons.prems(2) by (rule Cons.IH)
    next
      case (Some a)
      then obtain x q1 where g: "get q = Some (x, q1)" by (cases a) auto
      with Cons.prems Take obtain outs1 where "history ops q1 = (q', ins, outs1)"
        by (auto split: prod.splits)
      from Cons.IH [OF this] get_some [OF g] get_bound [OF g] Cons.prems(2) show ?thesis by auto
    qed
  qed
qed simp

end

text \<open>The signal queue meets the contract.\<close>

lemma sint_lt_iff: "int n < sint (c :: int64) \<longleftrightarrow> n < nat (sint c)"
  by auto

interpretation sq: bounded_fifo TryEnqueue Consume q_ch "\<lambda>q. nat (sint (q_capacity q))"
  by unfold_locales (auto simp: TryEnqueue_def Consume_def split: list.splits if_splits)

subsection \<open>Counters\<close>

text \<open>
  The counters count modulo \<open>2^64\<close>, also across histories; the sum is the number of calls.
\<close>

fun enqueue_all :: "Signal list \<Rightarrow> SignalQueue \<Rightarrow> bool list \<times> SignalQueue" where
  "enqueue_all [] q = ([], q)"
| "enqueue_all (s # ss) q =
     (case TryEnqueue s q of (ok, q1) \<Rightarrow> case enqueue_all ss q1 of (oks, q2) \<Rightarrow> (ok # oks, q2))"

lemma queue_New_cap:
  assumes "capacity < 2 ^ 63"
  shows "Cap (queue_New capacity) = (if capacity \<le> 0 then 50000 else capacity)"
  using assms by (auto simp: queue_New_def Cap_def DefaultCapacity_def Let_def sint_sbintrunc'
      signed_take_bit_int_eq_self)

lemma TryEnqueue_counts:
  "TryEnqueue s q = (ok, q') \<Longrightarrow>
     q_enqueued q' = q_enqueued q + (if ok then 1 else 0) \<and>
     q_dropped q' = q_dropped q + (if ok then 0 else 1) \<and> q_capacity q' = q_capacity q"
  by (auto simp: TryEnqueue_def split: if_splits)

lemma enqueue_all_counts:
  "enqueue_all ss q = (oks, q') \<Longrightarrow>
     q_enqueued q' = q_enqueued q + of_nat (count_list oks True) \<and>
     q_dropped q' = q_dropped q + of_nat (count_list oks False) \<and>
     q_capacity q' = q_capacity q \<and> length oks = length ss"
proof (induction ss arbitrary: q oks q')
  case (Cons s ss)
  then show ?case
    by (fastforce split: prod.splits dest!: TryEnqueue_counts simp: algebra_simps)
qed simp

text \<open>A burst into an empty queue: the first \<open>capacity\<close> signals are kept in order, the rest dropped.\<close>

lemma enqueue_all_burst:
  assumes "enqueue_all ss q = (oks, q')" and "int (length (q_ch q)) \<le> sint (q_capacity q)"
  shows "q_ch q' = take (nat (sint (q_capacity q))) (q_ch q @ ss) \<and>
    oks = map (\<lambda>i. int (length (q_ch q) + i) < sint (q_capacity q)) [0..<length ss]"
  using assms
proof (induction ss arbitrary: q oks q')
  case (Cons s ss)
  obtain ok q1 where t: "TryEnqueue s q = (ok, q1)" by fastforce
  obtain oks2 q2 where e: "enqueue_all ss q1 = (oks2, q2)" by fastforce
  have upt: "map f [0..<length (s # ss)] = f 0 # map (\<lambda>i. f (Suc i)) [0..<length ss]" for f :: "nat \<Rightarrow> bool"
    by (simp add: map_upt_Suc del: upt_Suc)
  show ?case
  proof (cases "int (length (q_ch q)) < sint (q_capacity q)")
    case True
    then have q1: "ok" "q_ch q1 = q_ch q @ [s]" "q_capacity q1 = q_capacity q"
      using t by (auto simp: TryEnqueue_def)
    with True Cons.IH [OF e] Cons.prems t e show ?thesis by (simp only: upt) simp
  next
    case False
    then have q1: "\<not> ok" "q_ch q1 = q_ch q" "q_capacity q1 = q_capacity q"
      using t by (auto simp: TryEnqueue_def)
    with False Cons.IH [OF e] Cons.prems t e show ?thesis by (simp only: upt) auto
  qed
qed simp

subsection \<open>Properties\<close>

text \<open>
  C15. The queue is a bounded FIFO. For every history of sends and receives on a queue made by
  \<open>New\<close>: the signals accepted are, in order, those received followed by those still in the
  queue, so none is lost, duplicated or reordered, and the content never exceeds the capacity,
  which is the one asked for, or 50000 when that is not positive.
\<close>

theorem queue_fifo:
  assumes "capacity < 2 ^ 63" and "sq.history ops (queue_New capacity) = (q, ins, outs)"
  shows "ins = outs @ q_ch q \<and> Len q \<le> Cap q \<and> Cap q = (if capacity \<le> 0 then 50000 else capacity)"
proof -
  let ?q = "queue_New capacity"
  have ch: "q_ch ?q = []" by (simp add: queue_New_def Let_def)
  have cap: "Cap ?q = (if capacity \<le> 0 then 50000 else capacity)" by (rule queue_New_cap [OF assms(1)])
  have "length (q_ch q) \<le> nat (sint (q_capacity q))" "nat (sint (q_capacity q)) = nat (sint (q_capacity ?q))"
    using sq.history_bound [OF assms(2)] ch by auto
  with cap have "Len q \<le> Cap q \<and> Cap q = (if capacity \<le> 0 then 50000 else capacity)"
    by (auto simp: Len_def Cap_def split: if_splits)
  with sq.history_fifo [OF assms(2)] ch show ?thesis by simp
qed

definition ex_sig :: "string \<Rightarrow> Signal" where
  "ex_sig i = NewSignal i 5 ''db-1'' ComponentRDBMS ''timeout'' SeverityP0 None"

theorem queue_fifo_witness:
  "snd (snd (sq.history [Put (ex_sig ''a''), Put (ex_sig ''b''), Take, Put (ex_sig ''c''), Take] (queue_New 2))) =
     [ex_sig ''a'', ex_sig ''b'']"
proof -
  let ?ops = "[Put (ex_sig ''a''), Put (ex_sig ''b''), Take, Put (ex_sig ''c''), Take]"
  obtain q ins outs where h: "sq.history ?ops (queue_New 2) = (q, ins, outs)" by (metis surj_pair)
  have "ins = [ex_sig ''a'', ex_sig ''b'', ex_sig ''c''] \<and> length outs = 2"
    using h by (auto simp: queue_New_def TryEnqueue_def Consume_def Let_def)
  moreover have "ins = outs @ q_ch q" using queue_fifo [OF _ h] by simp
  ultimately have "outs = take 2 [ex_sig ''a'', ex_sig ''b'', ex_sig ''c'']" by (metis append_eq_conv_conj)
  with h show ?thesis by simp
qed

lemma filter_lt_upt: "filter (\<lambda>i. i < m) [0..<n] = [0..<min n m]"
proof (induction n)
  case (Suc n)
  then show ?case by (cases "n < m") (auto simp: min_def le_antisym dest: le_antisym)
qed simp

text \<open>
  Bursts and counters. When \<open>n\<close> signals are offered to a new queue and none is received, the
  first \<open>capacity\<close> of them are kept in order and the rest are dropped; the two counters hold the
  numbers of both modulo \<open>2^64\<close> and add up to \<open>n\<close>.
\<close>

theorem queue_burst:
  assumes "0 < capacity" and "capacity < 2 ^ 63" and "enqueue_all ss (queue_New capacity) = (oks, q)"
  shows "q_ch q = take (nat capacity) ss \<and> EnqueuedCount q = of_nat (min (length ss) (nat capacity)) \<and>
    DroppedCount q = of_nat (length ss - nat capacity) \<and>
    EnqueuedCount q + DroppedCount q = of_nat (length ss)"
proof -
  let ?q = "queue_New capacity"
  have cap: "sint (q_capacity ?q) = capacity" using queue_New_cap [OF assms(2)] assms(1) by (simp add: Cap_def)
  have q0: "q_ch ?q = []" "q_enqueued ?q = 0" "q_dropped ?q = 0" by (simp_all add: queue_New_def Let_def)
  have b: "q_ch q = take (nat capacity) ss" "oks = map (\<lambda>i. int i < capacity) [0..<length ss]"
    using enqueue_all_burst [OF assms(3)] cap q0 assms(1) by simp_all
  have n: "count_list oks True = min (length ss) (nat capacity)"
  proof -
    have "count_list oks True = length (filter (\<lambda>i. int i < capacity) [0..<length ss])"
      by (simp add: b(2) count_list_eq_length_filter filter_map comp_def)
    also have "filter (\<lambda>i. int i < capacity) [0..<length ss] = [0..<min (length ss) (nat capacity)]"
      using filter_lt_upt [of "nat capacity" "length ss"] by (simp add: zless_nat_eq_int_zless [symmetric])
    finally show ?thesis by simp
  qed
  have "count_list oks True + count_list oks False = length oks"
    by (induction oks) auto
  then have f: "count_list oks False = length ss - nat capacity"
    using n b(2) by (simp add: min_def split: if_splits)
  have e: "EnqueuedCount q = of_nat (min (length ss) (nat capacity))" "DroppedCount q = of_nat (length ss - nat capacity)"
    using enqueue_all_counts [OF assms(3)] q0 n f by (simp_all add: EnqueuedCount_def DroppedCount_def)
  have "EnqueuedCount q + DroppedCount q = of_nat (min (length ss) (nat capacity) + (length ss - nat capacity))"
    using e by simp
  also have "min (length ss) (nat capacity) + (length ss - nat capacity) = length ss" by simp
  finally show ?thesis using b(1) e by blast
qed

theorem queue_burst_witness:
  "DroppedCount (snd (enqueue_all [ex_sig ''a'', ex_sig ''b'', ex_sig ''c''] (queue_New 2))) = 1"
proof -
  have "(0 :: int) < 2" "(2 :: int) < 2 ^ 63" by simp_all
  from queue_burst [OF this, of "[ex_sig ''a'', ex_sig ''b'', ex_sig ''c'']"] show ?thesis
    by (cases "enqueue_all [ex_sig ''a'', ex_sig ''b'', ex_sig ''c''] (queue_New 2)") auto
qed

end
