(* ===== verification/Alerting.thy ===== *)
theory Alerting
  imports Models
begin

text \<open>
  Package \<open>alerting\<close> (\<open>strategy.go\<close>, \<open>dispatcher.go\<close>): the three strategies behind the
  interface \<open>AlertStrategy\<close>, the two tables and \<open>Dispatch\<close>. The interface is the locale
  \<open>alert_strategy\<close>; the tables are the maps of the source. Sending is a log entry, so an alert is
  the value that \<open>Execute\<close> returns; it never reports an error.
\<close>

definition componentSeverityMap :: "ComponentType \<Rightarrow> Severity option" where
  "componentSeverityMap =
     [ComponentRDBMS \<mapsto> SeverityP0, ComponentQueue \<mapsto> SeverityP0, ComponentAPI \<mapsto> SeverityP1,
      ComponentNoSQL \<mapsto> SeverityP1, ComponentMCPHost \<mapsto> SeverityP1, ComponentCache \<mapsto> SeverityP2]"

datatype AlertStrategy = P0Strategy | P1Strategy | P2Strategy

primrec strategy_Severity :: "AlertStrategy \<Rightarrow> Severity" where
  "strategy_Severity P0Strategy = SeverityP0"
| "strategy_Severity P1Strategy = SeverityP1"
| "strategy_Severity P2Strategy = SeverityP2"

primrec strategy_Channel :: "AlertStrategy \<Rightarrow> string" where
  "strategy_Channel P0Strategy = ''pagerduty''"
| "strategy_Channel P1Strategy = ''slack''"
| "strategy_Channel P2Strategy = ''email''"

text \<open>The long dash of the messages in UTF-8.\<close>

definition em_dash :: string where
  "em_dash = [CHR 0xE2, CHR 0x80, CHR 0x94]"

text \<open>The first two arguments are the results of \<open>uuid.New()\<close> and \<open>time.Now()\<close>.\<close>

definition P0_Execute :: "string \<Rightarrow> go_time \<Rightarrow> WorkItem \<Rightarrow> Alert" where
  "P0_Execute uid now wi =
     \<lparr>al_ID = uid, al_WorkItemID = wi_ID wi, al_Severity = SeverityP0,
      al_Channel = strategy_Channel P0Strategy,
      al_Message = ''[P0 CRITICAL] '' @ wi_ComponentType wi @ '' on '' @ wi_ComponentID wi @ '' '' @
        em_dash @ '' immediate response required. Work Item: '' @ wi_ID wi,
      al_SentAt = now\<rparr>"

definition P1_Execute :: "string \<Rightarrow> go_time \<Rightarrow> WorkItem \<Rightarrow> Alert" where
  "P1_Execute uid now wi =
     \<lparr>al_ID = uid, al_WorkItemID = wi_ID wi, al_Severity = SeverityP1,
      al_Channel = strategy_Channel P1Strategy,
      al_Message = ''[P1 HIGH] '' @ wi_ComponentType wi @ '' degraded on '' @ wi_ComponentID wi @ '' '' @
        em_dash @ '' investigate within 15 minutes. Work Item: '' @ wi_ID wi,
      al_SentAt = now\<rparr>"

definition P2_Execute :: "string \<Rightarrow> go_time \<Rightarrow> WorkItem \<Rightarrow> Alert" where
  "P2_Execute uid now wi =
     \<lparr>al_ID = uid, al_WorkItemID = wi_ID wi, al_Severity = SeverityP2,
      al_Channel = strategy_Channel P2Strategy,
      al_Message = ''[P2 LOW] '' @ wi_ComponentType wi @ '' issue detected on '' @ wi_ComponentID wi @ '' '' @
        em_dash @ '' review within 4 hours. Work Item: '' @ wi_ID wi,
      al_SentAt = now\<rparr>"

primrec Execute :: "AlertStrategy \<Rightarrow> string \<Rightarrow> go_time \<Rightarrow> WorkItem \<Rightarrow> Alert" where
  "Execute P0Strategy = P0_Execute"
| "Execute P1Strategy = P1_Execute"
| "Execute P2Strategy = P2_Execute"

definition strategyRegistry :: "Severity \<Rightarrow> AlertStrategy option" where
  "strategyRegistry =
     [SeverityP0 \<mapsto> P0Strategy, SeverityP1 \<mapsto> P1Strategy, SeverityP2 \<mapsto> P2Strategy]"

definition dispatch_severity :: "WorkItem \<Rightarrow> Severity" where
  "dispatch_severity wi =
     (let severity = wi_Severity wi in
      if severity = [] then
        (case componentSeverityMap (wi_ComponentType wi) of Some s \<Rightarrow> s | None \<Rightarrow> SeverityP2)
      else severity)"

text \<open>A missing registration falls back to that of P2, which exists; \<open>None\<close> is a nil strategy.\<close>

definition dispatch_strategy :: "Severity \<Rightarrow> AlertStrategy option" where
  "dispatch_strategy severity =
     (case strategyRegistry severity of Some s \<Rightarrow> Some s | None \<Rightarrow> strategyRegistry SeverityP2)"

definition Dispatch :: "string \<Rightarrow> go_time \<Rightarrow> WorkItem \<Rightarrow> Alert option" where
  "Dispatch uid now wi =
     map_option (\<lambda>s. Execute s uid now wi) (dispatch_strategy (dispatch_severity wi))"

definition SeverityForComponent :: "ComponentType \<Rightarrow> Severity" where
  "SeverityForComponent ct =
     (case componentSeverityMap ct of Some s \<Rightarrow> s | None \<Rightarrow> SeverityP2)"

subsection \<open>The interface\<close>

locale alert_strategy =
  fixes execute :: "string \<Rightarrow> go_time \<Rightarrow> WorkItem \<Rightarrow> Alert"
    and severity :: Severity
    and channel :: string
  assumes execute_severity: "al_Severity (execute uid now wi) = severity"
    and execute_channel: "al_Channel (execute uid now wi) = channel"
    and execute_item: "al_WorkItemID (execute uid now wi) = wi_ID wi"
    and execute_text: "sublist (wi_ID wi) (al_Message (execute uid now wi))"
      "sublist (wi_ComponentID wi) (al_Message (execute uid now wi))"
begin

text \<open>What a responder needs is in every alert of a strategy.\<close>

lemma addressed:
  "al_Severity (execute uid now wi) = severity \<and> al_Channel (execute uid now wi) = channel \<and>
   al_WorkItemID (execute uid now wi) = wi_ID wi \<and> sublist (wi_ID wi) (al_Message (execute uid now wi)) \<and>
   sublist (wi_ComponentID wi) (al_Message (execute uid now wi))"
  using execute_severity execute_channel execute_item execute_text by auto

end

lemma sublist_end: "sublist xs (ys @ xs)"
  by (simp add: sublist_append_rightI)

lemma sublist_mid: "sublist xs (ys @ xs @ zs)"
  by (simp add: sublist_appendI)

lemma message_parts:
  "sublist i (a @ b @ c @ d @ e @ f @ g @ i)"
  "sublist d (a @ b @ c @ d @ e @ f @ g @ i)"
  by (metis sublist_end append.assoc) (metis sublist_mid append.assoc)

interpretation p0: alert_strategy P0_Execute SeverityP0 "''pagerduty''"
  by unfold_locales (simp_all only: P0_Execute_def Alert.simps strategy_Channel.simps message_parts)

interpretation p1: alert_strategy P1_Execute SeverityP1 "''slack''"
  by unfold_locales (simp_all only: P1_Execute_def Alert.simps strategy_Channel.simps message_parts)

interpretation p2: alert_strategy P2_Execute SeverityP2 "''email''"
  by unfold_locales (simp_all only: P2_Execute_def Alert.simps strategy_Channel.simps message_parts)

lemma Execute_addressed:
  "Execute s uid now wi = a \<Longrightarrow> al_Severity a = strategy_Severity s \<and> al_Channel a = strategy_Channel s \<and>
     al_WorkItemID a = wi_ID wi \<and> sublist (wi_ID wi) (al_Message a) \<and>
     sublist (wi_ComponentID wi) (al_Message a)"
  by (cases s) (auto simp: p0.addressed p1.addressed p2.addressed)

subsection \<open>Tables\<close>

lemma SeverityForComponent_valid: "SeverityForComponent ct \<in> set severities"
  by (auto simp: SeverityForComponent_def componentSeverityMap_def severities_def)

lemma strategyRegistry_severity:
  "strategyRegistry sv = Some s \<longleftrightarrow> sv = strategy_Severity s"
  by (cases s) (auto simp: strategyRegistry_def)

lemma strategyRegistry_total: "sv \<in> set severities \<Longrightarrow> \<exists>s. strategyRegistry sv = Some s"
  by (auto simp: strategyRegistry_def severities_def)

lemma dispatch_strategy_some: "\<exists>s. dispatch_strategy sv = Some s"
  by (simp add: dispatch_strategy_def strategyRegistry_def split: option.splits)

subsection \<open>Properties\<close>

text \<open>
  C34. Dispatch. Every work item gets an alert, by the strategy of its severity: P0 by PagerDuty, P1 by
  Slack, P2 and any unknown severity by e-mail, and an item without a severity by the one of its
  component type. The alert names the work item and its text contains the identifiers of the item
  and of the component.
\<close>

theorem dispatch_addressed:
  "\<exists>a. Dispatch uid now wi = Some a \<and> al_WorkItemID a = wi_ID wi \<and>
     sublist (wi_ID wi) (al_Message a) \<and> sublist (wi_ComponentID wi) (al_Message a) \<and>
     (let sv = (if wi_Severity wi = [] then SeverityForComponent (wi_ComponentType wi) else wi_Severity wi)
      in if sv = SeverityP0 then al_Severity a = SeverityP0 \<and> al_Channel a = ''pagerduty''
         else if sv = SeverityP1 then al_Severity a = SeverityP1 \<and> al_Channel a = ''slack''
         else al_Severity a = SeverityP2 \<and> al_Channel a = ''email'')"
proof -
  let ?sv = "if wi_Severity wi = [] then SeverityForComponent (wi_ComponentType wi) else wi_Severity wi"
  let ?s = "if ?sv = SeverityP0 then P0Strategy else if ?sv = SeverityP1 then P1Strategy else P2Strategy"
  have "dispatch_severity wi = ?sv" by (simp add: dispatch_severity_def SeverityForComponent_def)
  moreover have "dispatch_strategy ?sv = Some ?s"
    by (simp add: dispatch_strategy_def strategyRegistry_def)
  ultimately have "Dispatch uid now wi = Some (Execute ?s uid now wi)" by (simp add: Dispatch_def)
  with Execute_addressed [of ?s uid now wi] show ?thesis by (auto simp: Let_def)
qed

end
