(* ===== verification/Http.thy ===== *)
theory Http
  imports Models
begin

text \<open>
  What the handlers hand back to Fiber, and what they start in the background. A response is its
  status, the headers that the code sets and the value that is encoded as JSON. A goroutine that
  outlives its handler is a pending task, run later by a step of the system.
\<close>

record batch_result =
  br_SignalID :: string
  br_WorkItemID :: string
  br_Debounced :: bool
  br_Error :: string

definition error_result :: "string \<Rightarrow> batch_result" where
  "error_result e = \<lparr>br_SignalID = [], br_WorkItemID = [], br_Debounced = False, br_Error = e\<rparr>"

datatype body =
    ErrorBody string
  | IngestBody IngestResponse
  | BatchBody "batch_result list"
  | WorkItemsBody "WorkItem list"
  | DetailBody WorkItem "Signal list" int "RCA option" "WorkItemState list"
  | TransitionBody WorkItem
  | RCACreatedBody RCA
  | RCABody RCA
  | DashboardBody DashboardState
  | SignalsBody "Signal list" int
  | TokenBody string

record response =
  rsp_status :: nat
  rsp_headers :: "(string \<times> string) list"
  rsp_body :: body

definition reply :: "nat \<Rightarrow> (string \<times> string) list \<Rightarrow> body \<Rightarrow> response" where
  "reply st hs b = \<lparr>rsp_status = st, rsp_headers = hs, rsp_body = b\<rparr>"

lemma reply_sel [simp]:
  "rsp_status (reply st hs b) = st" "rsp_headers (reply st hs b) = hs" "rsp_body (reply st hs b) = b"
  by (simp_all add: reply_def)

abbreviation StatusOK :: nat where "StatusOK \<equiv> 200"
abbreviation StatusCreated :: nat where "StatusCreated \<equiv> 201"
abbreviation StatusAccepted :: nat where "StatusAccepted \<equiv> 202"
abbreviation StatusBadRequest :: nat where "StatusBadRequest \<equiv> 400"
abbreviation StatusUnauthorized :: nat where "StatusUnauthorized \<equiv> 401"
abbreviation StatusNotFound :: nat where "StatusNotFound \<equiv> 404"
abbreviation StatusConflict :: nat where "StatusConflict \<equiv> 409"
abbreviation StatusUnprocessableEntity :: nat where "StatusUnprocessableEntity \<equiv> 422"
abbreviation StatusTooManyRequests :: nat where "StatusTooManyRequests \<equiv> 429"
abbreviation StatusInternalServerError :: nat where "StatusInternalServerError \<equiv> 500"
abbreviation StatusServiceUnavailable :: nat where "StatusServiceUnavailable \<equiv> 503"

datatype task =
    DispatchAlert WorkItem
  | IncrementCounter
  | RebuildDashboard "WorkItem list"

end
