(* ===== verification/Workflow.thy ===== *)
theory Workflow
  imports PostgresStore RedisStore
begin

text \<open>
  Package \<open>workflow\<close>, \<open>state.go\<close> and \<open>machine.go\<close>: the State pattern and the machine that
  moves a work item from OPEN to INVESTIGATING, RESOLVED and CLOSED. The interface \<open>State\<close> is the
  locale \<open>state_pattern\<close>, which the registry of the four states implements. A call that panics
  (\<open>stateFor\<close> on an unknown state) has the outcome \<open>Panicked\<close>. The invariant \<open>lifecycle_ok\<close>
  says what the stored work items and RCAs always satisfy; each operation of the machine keeps it,
  whatever the stores answer.
\<close>

datatype 'a outcome = Returned 'a | Panicked string

subsection \<open>The states\<close>

datatype State = openState | investigatingState | resolvedState | closedState

primrec Name :: "State \<Rightarrow> WorkItemState" where
  "Name openState = StateOpen"
| "Name investigatingState = StateInvestigating"
| "Name resolvedState = StateResolved"
| "Name closedState = StateClosed"

primrec CanTransitionTo :: "State \<Rightarrow> WorkItemState \<Rightarrow> bool" where
  "CanTransitionTo openState nxt = (nxt = StateInvestigating)"
| "CanTransitionTo investigatingState nxt = (nxt = StateResolved)"
| "CanTransitionTo resolvedState nxt = (nxt = StateClosed)"
| "CanTransitionTo closedState nxt = False"

primrec ValidTransitions :: "State \<Rightarrow> WorkItemState list" where
  "ValidTransitions openState = [StateInvestigating]"
| "ValidTransitions investigatingState = [StateResolved]"
| "ValidTransitions resolvedState = [StateClosed]"
| "ValidTransitions closedState = []"

definition stateRegistry :: "WorkItemState \<Rightarrow> State option" where
  "stateRegistry =
     [StateOpen \<mapsto> openState, StateInvestigating \<mapsto> investigatingState,
      StateResolved \<mapsto> resolvedState, StateClosed \<mapsto> closedState]"

definition stateFor :: "WorkItemState \<Rightarrow> State outcome" where
  "stateFor s = (case stateRegistry s of Some impl \<Rightarrow> Returned impl
     | None \<Rightarrow> Panicked (''workflow: unknown state: '' @ s))"

subsection \<open>The machine\<close>

definition arrow :: string where
  "arrow = [CHR 0xE2, CHR 0x86, CHR 0x92]"

text \<open>The verb \<open>%v\<close> on a slice of strings.\<close>

fun join_sp :: "string list \<Rightarrow> string" where
  "join_sp [] = []"
| "join_sp [x] = x"
| "join_sp (x # xs) = x @ '' '' @ join_sp xs"

definition show_strings :: "string list \<Rightarrow> string" where
  "show_strings xs = ''['' @ join_sp xs @ '']''"

definition invalid_transition :: "WorkItemState \<Rightarrow> WorkItemState \<Rightarrow> WorkItemState list \<Rightarrow> go_error" where
  "invalid_transition from to valid =
     Wrapped [] ErrInvalidTransition
       ('': '' @ from @ '' '' @ arrow @ '' '' @ to @ '' (valid: '' @ show_strings valid @ '')'')"

text \<open>Step 3: the precondition of CLOSED. \<open>Inr\<close> is the \<open>*float64\<close> that is then persisted.\<close>

definition close_precondition ::
  "'o ext \<Rightarrow> string \<Rightarrow> WorkItemState \<Rightarrow> 'o world \<Rightarrow> (go_error + float64 option) \<times> 'o world" where
  "close_precondition E workItemID toState w =
     (if toState = StateClosed then
        (case GetRCAByWorkItemID E workItemID w of
           ((rca, Some e), w1) \<Rightarrow> (Inl (Wrapped ''workflow: fetch RCA: '' e []), w1)
         | ((None, None), w1) \<Rightarrow> (Inl ErrRCARequiredForClose, w1)
         | ((Some rca, None), w1) \<Rightarrow>
             (case Validate rca of
                Some e \<Rightarrow> (Inl (Wrapped [] ErrRCARequiredForClose ('': '' @ Error e)), w1)
              | None \<Rightarrow> (Inr (Some (MTTRMinutes rca)), w1)))
      else (Inr None, w))"

definition Transition ::
  "'o ext \<Rightarrow> string \<Rightarrow> WorkItemState \<Rightarrow> 'o world \<Rightarrow> (go_error + WorkItem) outcome \<times> 'o world" where
  "Transition E workItemID toState w =
     (case GetWorkItem E workItemID w of
        (Inl e, w1) \<Rightarrow> (Returned (Inl e), w1)
      | (Inr wi, w1) \<Rightarrow>
          (case stateFor (wi_State wi) of
             Panicked p \<Rightarrow> (Panicked p, w1)
           | Returned currentState \<Rightarrow>
               if \<not> CanTransitionTo currentState toState
               then (Returned (Inl (invalid_transition (wi_State wi) toState (ValidTransitions currentState))), w1)
               else (case close_precondition E workItemID toState w1 of
                   (Inl e, w2) \<Rightarrow> (Returned (Inl e), w2)
                 | (Inr mttr, w2) \<Rightarrow>
                     (case UpdateWorkItemState E workItemID toState mttr w2 of
                        (Some e, w3) \<Rightarrow> (Returned (Inl (Wrapped ''workflow: persist transition: '' e [])), w3)
                      | (None, w3) \<Rightarrow>
                          (case InvalidateDashboard E w3 of (_, w4) \<Rightarrow>
                             (case GetWorkItem E workItemID w4 of
                                (Inl e, w5) \<Rightarrow> (Returned (Inl e), w5)
                              | (Inr updated, w5) \<Rightarrow> (Returned (Inr updated), w5)))))))"

text \<open>\<open>SubmitRCA\<close> takes a pointer: the RCA it leaves behind is part of the result.\<close>

definition SubmitRCA :: "'o ext \<Rightarrow> RCA \<Rightarrow> 'o world \<Rightarrow> (go_error option \<times> RCA) \<times> 'o world" where
  "SubmitRCA E rca w =
     (case Validate rca of
        Some e \<Rightarrow> ((Some e, rca), w)
      | None \<Rightarrow>
          (case GetWorkItem E (rca_WorkItemID rca) w of
             (Inl e, w1) \<Rightarrow> ((Some e, rca), w1)
           | (Inr wi, w1) \<Rightarrow>
               if wi_State wi = StateOpen \<or> wi_State wi = StateClosed
               then ((Some (NewError (''workflow: RCA can only be submitted when state is INVESTIGATING or RESOLVED, current state: '' @ wi_State wi)), rca), w1)
               else (case GetRCAByWorkItemID E (rca_WorkItemID rca) w1 of
                   ((existing, Some e), w2) \<Rightarrow>
                     ((Some (Wrapped ''workflow: check existing RCA: '' e []), rca), w2)
                 | ((Some existing, None), w2) \<Rightarrow>
                     ((Some (NewError (''workflow: RCA already submitted for work item '' @ rca_WorkItemID rca)), rca), w2)
                 | ((None, None), w2) \<Rightarrow>
                     (case time_Now E w2 of (now, w3) \<Rightarrow>
                      let rca = rca\<lparr>rca_SubmittedAt := now\<rparr>
                      in case CreateRCA E rca w3 of
                           (Some e, w4) \<Rightarrow> ((Some (Wrapped ''workflow: persist RCA: '' e []), rca), w4)
                         | (None, w4) \<Rightarrow> ((None, rca), w4)))))"

definition GetValidTransitionsSync :: "WorkItemState \<Rightarrow> WorkItemState list outcome" where
  "GetValidTransitionsSync state = (case stateFor state of
       Panicked p \<Rightarrow> Panicked p | Returned s \<Rightarrow> Returned (ValidTransitions s))"

definition GetValidTransitions ::
  "'o ext \<Rightarrow> string \<Rightarrow> 'o world \<Rightarrow> (go_error + WorkItemState list) outcome \<times> 'o world" where
  "GetValidTransitions E workItemID w =
     (case GetWorkItem E workItemID w of
        (Inl e, w1) \<Rightarrow> (Returned (Inl e), w1)
      | (Inr wi, w1) \<Rightarrow>
          (case GetValidTransitionsSync (wi_State wi) of
             Panicked p \<Rightarrow> (Panicked p, w1)
           | Returned ts \<Rightarrow> (Returned (Inr ts), w1)))"

subsection \<open>The interface of a state\<close>

locale state_pattern =
  fixes name :: "'s \<Rightarrow> WorkItemState"
    and can :: "'s \<Rightarrow> WorkItemState \<Rightarrow> bool"
    and valid :: "'s \<Rightarrow> WorkItemState list"
    and registry :: "WorkItemState \<Rightarrow> 's option"
  assumes valid_iff: "n \<in> set (valid s) \<longleftrightarrow> can s n"
    and registry_name: "registry n = Some s \<Longrightarrow> name s = n"
    and registry_total: "n \<in> set states \<Longrightarrow> \<exists>s. registry n = Some s"
    and valid_known: "set (valid s) \<subseteq> set states"
    and can_unique: "can s m \<Longrightarrow> can s n \<Longrightarrow> m = n"
begin

text \<open>The edges between states that the pattern permits, as a relation on their names.\<close>

definition edge :: "WorkItemState \<Rightarrow> WorkItemState \<Rightarrow> bool" where
  "edge m n \<longleftrightarrow> (\<exists>s. registry m = Some s \<and> can s n)"

lemma edge_known: "edge m n \<Longrightarrow> n \<in> set states"
  using valid_iff valid_known by (auto simp: edge_def)

lemma edge_deterministic: "edge m n \<Longrightarrow> edge m n' \<Longrightarrow> n = n'"
  using can_unique by (auto simp: edge_def)

end

interpretation wf: state_pattern Name CanTransitionTo ValidTransitions stateRegistry
proof
  fix s :: State and n m
  show "n \<in> set (ValidTransitions s) \<longleftrightarrow> CanTransitionTo s n" by (cases s) auto
  show "stateRegistry n = Some s \<Longrightarrow> Name s = n"
    by (auto simp: stateRegistry_def split: if_splits)
  show "n \<in> set states \<Longrightarrow> \<exists>s. stateRegistry n = Some s"
    by (auto simp: stateRegistry_def states_def)
  show "set (ValidTransitions s) \<subseteq> set states" by (cases s) (auto simp: states_def)
  show "CanTransitionTo s m \<Longrightarrow> CanTransitionTo s n \<Longrightarrow> m = n" by (cases s) auto
qed

text \<open>The specification of the life cycle: a chain of four states.\<close>

inductive lifecycle_edge :: "WorkItemState \<Rightarrow> WorkItemState \<Rightarrow> bool" where
  investigate: "lifecycle_edge StateOpen StateInvestigating"
| resolve: "lifecycle_edge StateInvestigating StateResolved"
| close: "lifecycle_edge StateResolved StateClosed"

inductive_simps lifecycle_edge_simps: "lifecycle_edge a b"
inductive_cases lifecycle_from_closed: "lifecycle_edge StateClosed b"
inductive_cases lifecycle_to_closed: "lifecycle_edge a StateClosed"

lemma stateRegistry_eqs [simp]:
  "stateRegistry StateOpen = Some openState"
  "stateRegistry StateInvestigating = Some investigatingState"
  "stateRegistry StateResolved = Some resolvedState"
  "stateRegistry StateClosed = Some closedState"
  by (simp_all add: stateRegistry_def)

lemma stateRegistry_iff: "stateRegistry n = Some s \<longleftrightarrow> n = Name s"
  by (cases s) (auto simp: stateRegistry_def)

lemma can_iff_lifecycle: "CanTransitionTo s b \<longleftrightarrow> lifecycle_edge (Name s) b"
  by (cases s) (auto simp: lifecycle_edge_simps)

lemma edge_iff_lifecycle: "wf.edge a b \<longleftrightarrow> lifecycle_edge a b"
proof
  assume "wf.edge a b"
  then show "lifecycle_edge a b" by (auto simp: wf.edge_def stateRegistry_iff can_iff_lifecycle)
next
  assume "lifecycle_edge a b"
  then show "wf.edge a b" by cases (auto simp: wf.edge_def stateRegistry_iff intro: exI [of _ openState]
      exI [of _ investigatingState] exI [of _ resolvedState])
qed

lemma stateFor_Returned: "stateFor n = Returned s \<longleftrightarrow> stateRegistry n = Some s"
  by (auto simp: stateFor_def split: option.splits)

lemma stateFor_known: "n \<in> set states \<Longrightarrow> \<exists>s. stateFor n = Returned s"
  using wf.registry_total by (simp add: stateFor_Returned)

subsection \<open>The invariant of the stored work items\<close>

text \<open>
  A closed work item has a complete RCA on file, its time to repair is the one of that RCA, and
  the instants of resolution and closing are set; before closing there is neither.
\<close>

definition item_ok :: "RCA list \<Rightarrow> WorkItem \<Rightarrow> bool" where
  "item_ok rcas r \<longleftrightarrow>
     (if wi_State r = StateClosed
      then wi_ClosedAt r \<noteq> None \<and> wi_ResolvedAt r \<noteq> None \<and>
        (case row_with rca_WorkItemID (wi_ID r) rcas of
           None \<Rightarrow> False
         | Some c \<Rightarrow> complete_rca c \<and> wi_MTTR r = Some (MTTRMinutes c))
      else wi_ClosedAt r = None \<and> wi_MTTR r = None \<and>
        (wi_State r = StateResolved \<longrightarrow> wi_ResolvedAt r \<noteq> None))"

definition lifecycle_ok :: "pg_db \<Rightarrow> bool" where
  "lifecycle_ok db \<longleftrightarrow> schema_ok db \<and> list_all (item_ok (t_rcas db)) (t_work_items db)"

lemma lifecycle_empty: "lifecycle_ok empty_db"
  by (simp add: lifecycle_ok_def schema_ok_def empty_db_def)

lemma lifecycle_schema: "lifecycle_ok db \<Longrightarrow> schema_ok db"
  by (simp add: lifecycle_ok_def)

lemma lifecycle_row:
  "lifecycle_ok db \<Longrightarrow> row_with wi_ID i (t_work_items db) = Some r \<Longrightarrow> item_ok (t_rcas db) r"
  by (auto simp: lifecycle_ok_def list_all_iff dest: row_with_in_set)

lemma known_state:
  "schema_ok db \<Longrightarrow> row_with wi_ID i (t_work_items db) = Some r \<Longrightarrow> wi_State r \<in> set states"
  by (auto simp: schema_ok_def list_all_iff dest: row_with_in_set)

text \<open>An update of one row keeps the invariant if it keeps it for that row.\<close>

lemma on_work_item_items_ok:
  assumes "list_all P rows" and "\<And>r. r \<in> set rows \<Longrightarrow> wi_ID r = i \<Longrightarrow> P r \<Longrightarrow> P (f r)"
  shows "list_all P (upd_where wi_ID i f rows)"
  using assms by (auto simp: list_all_iff upd_where_def)

lemma lifecycle_on_work_item:
  assumes "lifecycle_ok db" and "schema_ok (on_work_item i f db)"
    and "\<And>r. r \<in> set (t_work_items db) \<Longrightarrow> wi_ID r = i \<Longrightarrow> item_ok (t_rcas db) r \<Longrightarrow> item_ok (t_rcas db) (f r)"
  shows "lifecycle_ok (on_work_item i f db)"
  using assms by (auto simp: lifecycle_ok_def intro: on_work_item_items_ok)

lemma lifecycle_severity:
  "lifecycle_ok db \<Longrightarrow> apply_stmt (UPDATE_severity sv t i) db = Some db' \<Longrightarrow> lifecycle_ok db'"
  by (auto simp: apply_stmt_Some_iff item_ok_def intro!: lifecycle_on_work_item
      split: option.splits)

lemma lifecycle_signal_count:
  "lifecycle_ok db \<Longrightarrow> apply_stmt (UPDATE_signal_count t i) db = Some db' \<Longrightarrow> lifecycle_ok db'"
  by (auto simp: apply_stmt_Some_iff item_ok_def intro!: lifecycle_on_work_item
      split: option.splits)

lemma lifecycle_timeseries:
  "lifecycle_ok db \<Longrightarrow> apply_stmt (UPSERT_timeseries b c ct sv) db = Some db' \<Longrightarrow> lifecycle_ok db'"
  by (auto simp: apply_stmt_Some_iff lifecycle_ok_def Let_def)

lemma lifecycle_insert_item:
  "lifecycle_ok db \<Longrightarrow> apply_stmt (INSERT_work_item wi) db = Some db' \<Longrightarrow> wi_State wi = StateOpen \<Longrightarrow>
     lifecycle_ok db'"
  by (auto simp: apply_stmt_Some_iff lifecycle_ok_def item_ok_def inserted_work_item_def)

lemma item_ok_more_rcas:
  "item_ok rcas r \<Longrightarrow> item_ok (rcas @ [c]) r"
  by (auto simp: item_ok_def row_with_append split: option.splits if_splits)

lemma lifecycle_insert_rca:
  "lifecycle_ok db \<Longrightarrow> apply_stmt (INSERT_rca c) db = Some db' \<Longrightarrow> lifecycle_ok db'"
  by (auto simp: apply_stmt_Some_iff lifecycle_ok_def list_all_iff item_ok_more_rcas)

text \<open>A change of state is sound when it follows an edge and, for CLOSED, carries the RCA's MTTR.\<close>

definition sound_move :: "pg_db \<Rightarrow> string \<Rightarrow> WorkItemState \<Rightarrow> float64 option \<Rightarrow> bool" where
  "sound_move db i st mttr \<longleftrightarrow>
     (\<exists>r. row_with wi_ID i (t_work_items db) = Some r \<and> lifecycle_edge (wi_State r) st) \<and>
     (if st = StateClosed
      then \<exists>c. row_with rca_WorkItemID i (t_rcas db) = Some c \<and> complete_rca c \<and> mttr = Some (MTTRMinutes c)
      else mttr = None)"

lemma lifecycle_state:
  assumes "lifecycle_ok db" and "apply_stmt (state_stmt st mttr i t) db = Some db'"
    and "sound_move db i st mttr"
  shows "lifecycle_ok db'"
proof -
  from assms(3) obtain r where r: "row_with wi_ID i (t_work_items db) = Some r" "lifecycle_edge (wi_State r) st"
    by (auto simp: sound_move_def)
  have only: "x = r" if "x \<in> set (t_work_items db)" "wi_ID x = i" for x
    using row_with_distinct [of wi_ID "t_work_items db" x] that r assms(1)
    by (simp add: lifecycle_ok_def schema_ok_def)
  from r(2) show ?thesis
  proof cases
    case investigate
    with assms only show ?thesis
      by (auto simp: state_stmt_def apply_stmt_Some_iff item_ok_def intro!: lifecycle_on_work_item)
  next
    case resolve
    with assms only show ?thesis
      by (auto simp: state_stmt_def apply_stmt_Some_iff item_ok_def intro!: lifecycle_on_work_item)
  next
    case close
    with assms only show ?thesis
      by (auto simp: state_stmt_def apply_stmt_Some_iff item_ok_def sound_move_def
          intro!: lifecycle_on_work_item)
  qed
qed

subsection \<open>What a transition does\<close>

lemma Transition_blocked:
  "GetWorkItem E i w = (Inr r, w1) \<Longrightarrow> stateRegistry (wi_State r) = Some s \<Longrightarrow> \<not> CanTransitionTo s st \<Longrightarrow>
     Transition E i st w = (Returned (Inl (invalid_transition (wi_State r) st (ValidTransitions s))), w1)"
  by (simp add: Transition_def stateFor_def)

text \<open>The end of \<open>Transition\<close>, from the result of the update on.\<close>

definition persisted :: "'o ext \<Rightarrow> string \<Rightarrow> go_error option \<Rightarrow> 'o world \<Rightarrow> (go_error + WorkItem) outcome \<times> 'o world" where
  "persisted E i ur w3 =
     (case ur of
        Some e \<Rightarrow> (Returned (Inl (Wrapped ''workflow: persist transition: '' e [])), w3)
      | None \<Rightarrow> (case InvalidateDashboard E w3 of (_, w4) \<Rightarrow> case GetWorkItem E i w4 of (r, w5) \<Rightarrow> (Returned r, w5)))"

context postgres_service
begin

lemma close_precondition_ok:
  assumes "close_precondition E i st w = (Inr mttr, w')"
  shows "same_stores w w' \<and>
    (if st = StateClosed
     then \<exists>c. row_with rca_WorkItemID i (t_rcas (w_pg w)) = Some c \<and> complete_rca c \<and> mttr = Some (MTTRMinutes c)
     else mttr = None)"
  using assms
  by (fastforce simp: close_precondition_def Validate_None_iff
      split: if_splits prod.splits option.splits dest: GetRCA_ok)

lemma close_precondition_frame: "close_precondition E i st w = (r, w') \<Longrightarrow> same_stores w w'"
  by (auto simp: close_precondition_def split: if_splits prod.splits option.splits dest: GetRCA_frame)

text \<open>A transition stops before it writes anything, or it persists a move that the life cycle permits.\<close>

lemma Transition_run:
  assumes "Transition E i st w = (out, w')"
  obtains (stopped) "same_stores w w'" "\<forall>u. out \<noteq> Returned (Inr u)"
  | (moved) mttr w2 ur w3 where "sound_move (w_pg w) i st mttr" "same_stores w w2"
      "UpdateWorkItemState E i st mttr w2 = (ur, w3)" "persisted E i ur w3 = (out, w')"
proof -
  obtain g w1 where g: "GetWorkItem E i w = (g, w1)" by fastforce
  have s1: "same_stores w w1" using g GetWorkItem_ok GetWorkItem_err by (cases g) auto
  consider (no) "same_stores w w'" "\<forall>u. out \<noteq> Returned (Inr u)"
    | (go) wi cs where "g = Inr wi" "stateFor (wi_State wi) = Returned cs" "CanTransitionTo cs st"
    using assms g s1 by (auto simp: Transition_def split: sum.splits outcome.splits if_splits)
  then show thesis
  proof cases
    case (go wi cs)
    have "lifecycle_edge (wi_State wi) st" using go by (simp add: stateFor_Returned stateRegistry_iff can_iff_lifecycle)
    moreover have "row_with wi_ID i (t_work_items (w_pg w)) = Some wi" using g go GetWorkItem_ok by auto
    moreover obtain p w2 where p: "close_precondition E i st w1 = (p, w2)" by fastforce
    then have s2: "same_stores w w2" using s1 close_precondition_frame same_stores_trans by metis
    ultimately show ?thesis
    proof (cases p)
      case (Inl e)
      with p go g assms s2 show ?thesis by (intro stopped) (auto simp: Transition_def)
    next
      case (Inr mttr)
      assume "lifecycle_edge (wi_State wi) st" "row_with wi_ID i (t_work_items (w_pg w)) = Some wi"
      with close_precondition_ok [OF p [unfolded Inr]] s1 have mv: "sound_move (w_pg w) i st mttr"
        by (auto simp: sound_move_def same_stores_def)
      obtain ur w3 where u: "UpdateWorkItemState E i st mttr w2 = (ur, w3)" by fastforce
      with p Inr go g assms have "persisted E i ur w3 = (out, w')"
        by (auto simp: Transition_def persisted_def split: option.splits prod.splits sum.splits)
      with mv s2 u show ?thesis by (rule moved)
    qed
  qed (rule stopped)
qed

text \<open>
  The outcomes of \<open>Transition\<close>: either the stores are as before and the result is an error, or the
  item has moved along a sound edge. An error after a move is possible: the update or the final
  read can fail after the change has been committed.
\<close>

lemma Transition_effect:
  assumes "Transition E i st w = (out, w')"
  shows "w_mongo w' = w_mongo w \<and>
    (w_pg w' = w_pg w \<and> (\<forall>u. out \<noteq> Returned (Inr u)) \<or>
     (\<exists>t mttr. sound_move (w_pg w) i st mttr \<and> apply_stmt (state_stmt st mttr i t) (w_pg w) = Some (w_pg w') \<and>
        (\<forall>u. out = Returned (Inr u) \<longrightarrow> row_with wi_ID i (t_work_items (w_pg w')) = Some u)))"
  using assms
proof (cases rule: Transition_run)
  case stopped
  then show ?thesis by (simp add: same_stores_def)
next
  case (moved mttr w2 ur w3)
  show ?thesis
  proof (cases ur)
    case (Some e)
    from UpdateState_any [OF moved(3)] moved(2) have "w_mongo w3 = w_mongo w \<and> (w_pg w3 = w_pg w \<or>
        (\<exists>t. apply_stmt (state_stmt st mttr i t) (w_pg w) = Some (w_pg w3)))"
      by (auto simp: same_stores_def apply_stmt_Some_iff)
    with Some moved(1,4) show ?thesis by (auto simp: persisted_def)
  next
    case None
    from UpdateState_ok moved(2,3) None obtain t where
        t: "apply_stmt (state_stmt st mttr i t) (w_pg w) = Some (w_pg w3)" "w_mongo w3 = w_mongo w"
      by (fastforce simp: same_stores_def apply_stmt_Some_iff)
    obtain ir w4 where inv: "InvalidateDashboard E w3 = (ir, w4)" by fastforce
    obtain fr w5 where f: "GetWorkItem E i w4 = (fr, w5)" by fastforce
    have s5: "w_pg w5 = w_pg w3" "w_mongo w5 = w_mongo w3"
      using InvalidateDashboard_frame [OF inv] f GetWorkItem_ok [of i w4] GetWorkItem_err [of i w4]
      by (cases fr; auto simp: same_stores_def)+
    from None inv f moved(4) have "w' = w5" "out = Returned fr" by (simp_all add: persisted_def)
    with t moved(1) s5 f GetWorkItem_ok [of i w4] InvalidateDashboard_frame [OF inv] show ?thesis by auto
  qed
qed


lemma Transition_frame:
  "Transition E i st w = (out, w') \<Longrightarrow> \<forall>u. out \<noteq> Returned (Inr u) \<Longrightarrow>
     w_mongo w' = w_mongo w"
  using Transition_effect by blast

lemma Transition_lifecycle:
  assumes "lifecycle_ok (w_pg w)" and "Transition E i st w = (out, w')"
  shows "lifecycle_ok (w_pg w')"
  using Transition_effect [OF assms(2)] assms(1) by (auto intro: lifecycle_state)

text \<open>A move that the state pattern does not permit changes nothing.\<close>

lemma Transition_refused:
  assumes "Transition E i st w = (out, w')"
    and "row_with wi_ID i (t_work_items (w_pg w)) = Some r" and "wi_State r \<in> set states"
    and "\<not> lifecycle_edge (wi_State r) st"
  shows "same_stores w w' \<and> (\<exists>e. out = Returned (Inl e) \<and>
    (external_error e \<or> e = invalid_transition (wi_State r) st (ValidTransitions (the (stateRegistry (wi_State r))))))"
proof -
  obtain g w1 where g: "GetWorkItem E i w = (g, w1)" by fastforce
  show ?thesis
  proof (cases g)
    case (Inl e)
    with g assms GetWorkItem_err [of i w e w1] show ?thesis by (auto simp: Transition_def)
  next
    case (Inr wi)
    with g assms(2) have wi: "wi = r" "same_stores w w1" using GetWorkItem_ok [of i w wi w1] by auto
    from stateFor_known [OF assms(3)] obtain s where s: "stateFor (wi_State r) = Returned s" by blast
    then have "\<not> CanTransitionTo s st" "stateRegistry (wi_State r) = Some s"
      using assms(4) by (auto simp: stateFor_Returned stateRegistry_iff can_iff_lifecycle)
    with assms(1) g Inr wi s show ?thesis by (auto simp: Transition_def)
  qed
qed

lemma Transition_no_panic:
  assumes "schema_ok (w_pg w)"
  shows "fst (Transition E i st w) \<noteq> Panicked p"
proof (cases "GetWorkItem E i w")
  case (Pair g w1)
  show ?thesis
  proof (cases g)
    case (Inl e)
    with Pair show ?thesis by (simp add: Transition_def)
  next
    case (Inr wi)
    with Pair assms have "wi_State wi \<in> set states"
      using GetWorkItem_ok known_state by blast
    then obtain s where "stateFor (wi_State wi) = Returned s" using stateFor_known by blast
    with Pair Inr show ?thesis
      by (auto simp: Transition_def split: prod.splits sum.splits option.splits)
  qed
qed

text \<open>Without a complete RCA a resolved item cannot be closed.\<close>

lemma close_precondition_refuses:
  assumes "close_precondition E i StateClosed w = (p, w')"
    and "\<forall>c. row_with rca_WorkItemID i (t_rcas (w_pg w)) = Some c \<longrightarrow> \<not> complete_rca c"
  shows "\<exists>e. p = Inl e"
  using close_precondition_ok [of i StateClosed w _ w'] assms by (cases p) auto

subsection \<open>What a submission does\<close>

lemma SubmitRCA_run:
  assumes "SubmitRCA E rca w = ((err, rca'), w')"
  obtains (refused) "same_stores w w'" "err \<noteq> None"
  | (inserted) now w3 ce r where "Validate rca = None" "same_stores w w3"
      "row_with wi_ID (rca_WorkItemID rca) (t_work_items (w_pg w)) = Some r" "wi_State r \<noteq> StateOpen" "wi_State r \<noteq> StateClosed"
      "row_with rca_WorkItemID (rca_WorkItemID rca) (t_rcas (w_pg w)) = None"
      "rca' = rca\<lparr>rca_SubmittedAt := now\<rparr>" "CreateRCA E rca' w3 = (ce, w')" "err = None \<longleftrightarrow> ce = None"
proof -
  let ?i = "rca_WorkItemID rca"
  obtain g w1 where g: "GetWorkItem E ?i w = (g, w1)" by fastforce
  have s1: "same_stores w w1" using g GetWorkItem_ok GetWorkItem_err by (cases g) auto
  obtain ex e2 w2 where x: "GetRCAByWorkItemID E ?i w1 = ((ex, e2), w2)" by (metis surj_pair)
  then have s2: "same_stores w w2" using s1 GetRCA_frame same_stores_trans by metis
  obtain now w3 where n: "time_Now E w2 = (now, w3)" by fastforce
  then have s3: "same_stores w w3" using s2 time_Now_frame same_stores_trans by metis
  obtain ce w4 where c: "CreateRCA E (rca\<lparr>rca_SubmittedAt := now\<rparr>) w3 = (ce, w4)" by fastforce
  consider (no) "same_stores w w'" "err \<noteq> None"
    | (go) wi where "Validate rca = None" "g = Inr wi" "wi_State wi \<noteq> StateOpen" "wi_State wi \<noteq> StateClosed" "e2 = None" "ex = None"
  proof (cases "Validate rca")
    case None
    with assms g x s1 s2 show ?thesis
      by (cases g; cases e2; cases ex) (auto simp: SubmitRCA_def split: if_splits intro: no go)
  next
    case (Some e)
    then have "w' = w" "err = Some e" using assms by (simp_all add: SubmitRCA_def)
    then show ?thesis by (intro no) auto
  qed
  then show thesis
  proof cases
    case (go wi)
    have row: "row_with wi_ID ?i (t_work_items (w_pg w)) = Some wi" using g go GetWorkItem_ok by auto
    have none: "row_with rca_WorkItemID ?i (t_rcas (w_pg w)) = None"
      using x go s1 GetRCA_ok [of ?i w1 ex w2] by (simp add: same_stores_def)
    have "rca' = rca\<lparr>rca_SubmittedAt := now\<rparr>" "w' = w4" "err = None \<longleftrightarrow> ce = None"
      using assms go g x n c by (cases ce; simp add: SubmitRCA_def; force)+
    with go row none s3 c show ?thesis by (intro inserted) auto
  qed (rule refused)
qed

lemma SubmitRCA_effect:
  assumes "SubmitRCA E rca w = ((err, rca'), w')"
  shows "w_mongo w' = w_mongo w \<and> w_redis w' = w_redis w \<and>
    (w_pg w' = w_pg w \<and> err \<noteq> None \<or>
     complete_rca rca \<and> (\<exists>t. rca' = rca\<lparr>rca_SubmittedAt := t\<rparr>) \<and>
     row_with rca_WorkItemID (rca_WorkItemID rca) (t_rcas (w_pg w)) = None \<and>
     (\<exists>r. row_with wi_ID (rca_WorkItemID rca) (t_work_items (w_pg w)) = Some r \<and>
          wi_State r \<noteq> StateOpen \<and> wi_State r \<noteq> StateClosed) \<and>
     apply_stmt (INSERT_rca rca') (w_pg w) = Some (w_pg w'))"
  using assms
proof (cases rule: SubmitRCA_run)
  case refused
  then show ?thesis by (simp add: same_stores_def)
next
  case (inserted now w3 ce r)
  from CreateRCA_any [OF inserted(8)] inserted(2) have "w_mongo w' = w_mongo w \<and> w_redis w' = w_redis w \<and>
      (w_pg w' = w_pg w \<or> apply_stmt (INSERT_rca rca') (w_pg w) = Some (w_pg w'))"
    by (simp add: same_stores_def)
  moreover have "apply_stmt (INSERT_rca rca') (w_pg w) = Some (w_pg w')" if "err = None"
    using CreateRCA_ok [of rca' w3 w'] inserted(2,8,9) that by (auto simp: same_stores_def apply_stmt_Some_iff)
  ultimately show ?thesis using inserted by (auto simp: Validate_None_iff)
qed

lemma SubmitRCA_lifecycle:
  assumes "lifecycle_ok (w_pg w)" and "SubmitRCA E rca w = ((err, rca'), w')"
  shows "lifecycle_ok (w_pg w')"
  using SubmitRCA_effect [OF assms(2)] assms(1) by (auto intro: lifecycle_insert_rca)

end

subsection \<open>Properties\<close>

text \<open>
  C8. Functional correctness of \<open>Transition\<close>. When it returns a work item, that item existed, the
  target state is the successor of its state in the life cycle OPEN, INVESTIGATING, RESOLVED,
  CLOSED, the returned value is the row now stored, in the target state, and the table differs
  from the one before in that row only, by the one statement for the target state; RCAs, time
  series and the signal log are as before. This holds whatever faults the retries have hidden.
\<close>

theorem Transition_correct:
  assumes "postgres_service E" and "Transition E i st w = (Returned (Inr u), w')"
  shows "\<exists>r t mttr. row_with wi_ID i (t_work_items (w_pg w)) = Some r \<and> lifecycle_edge (wi_State r) st \<and>
    w_pg w' = run_stmt (state_stmt st mttr i t) (w_pg w) \<and>
    row_with wi_ID i (t_work_items (w_pg w')) = Some u \<and> wi_State u = st \<and>
    (\<forall>j. j \<noteq> i \<longrightarrow> row_with wi_ID j (t_work_items (w_pg w')) = row_with wi_ID j (t_work_items (w_pg w))) \<and>
    t_rcas (w_pg w') = t_rcas (w_pg w) \<and> t_timeseries (w_pg w') = t_timeseries (w_pg w) \<and>
    w_mongo w' = w_mongo w"
proof -
  from postgres_service.Transition_effect [OF assms] obtain t mttr where
      mv: "sound_move (w_pg w) i st mttr" and ap: "apply_stmt (state_stmt st mttr i t) (w_pg w) = Some (w_pg w')"
      and u: "row_with wi_ID i (t_work_items (w_pg w')) = Some u" and m: "w_mongo w' = w_mongo w"
    by blast
  from mv obtain r where r: "row_with wi_ID i (t_work_items (w_pg w)) = Some r" "lifecycle_edge (wi_State r) st"
    by (auto simp: sound_move_def)
  from ap have db: "w_pg w' = run_stmt (state_stmt st mttr i t) (w_pg w)" by (simp add: apply_stmt_Some_iff)
  with r u m show ?thesis
    by (intro exI [of _ r] exI [of _ t] exI [of _ mttr])
      (auto simp: state_stmt_def row_with_upd_where_same row_with_upd_where_other)
qed

lemma ex_close_runs:
  "\<exists>u w'. Transition ref_env ''w1'' StateClosed (ex_world StateResolved [ex_rca] fs) = (Returned (Inr u), w')"
  if "fs = [] \<or> fs = [False, False, True, True, False]"
proof -
  have "case fst (Transition ref_env ''w1'' StateClosed (ex_world StateResolved [ex_rca] fs)) of
      Returned (Inr u) \<Rightarrow> True | _ \<Rightarrow> False"
    using that by (elim disjE; hypsubst) code_simp+
  then show ?thesis by (cases "Transition ref_env ''w1'' StateClosed (ex_world StateResolved [ex_rca] fs)")
      (auto split: outcome.splits sum.splits)
qed

theorem Transition_correct_witness:
  "\<exists>u w'. Transition ref_env ''w1'' StateClosed (ex_world StateResolved [ex_rca] [False, False, True, True, False]) =
      (Returned (Inr u), w') \<and> wi_State u = StateClosed \<and> row_with wi_ID ''w1'' (t_work_items (w_pg w')) = Some u"
  using ex_close_runs [of "[False, False, True, True, False]"]
    Transition_correct [OF ref_pg.postgres_service_axioms] by blast

text \<open>
  Mandatory RCA. A transition to CLOSED succeeds only for an item that was RESOLVED and has a
  complete RCA on file; the item returned carries the RCA's time to repair, which is positive, and
  a time of closing.
\<close>

theorem close_requires_rca:
  assumes "postgres_service E" and "Transition E i StateClosed w = (Returned (Inr u), w')"
  shows "\<exists>r c. row_with wi_ID i (t_work_items (w_pg w)) = Some r \<and> wi_State r = StateResolved \<and>
    row_with rca_WorkItemID i (t_rcas (w_pg w)) = Some c \<and> complete_rca c \<and>
    wi_MTTR u = Some (MTTRMinutes c) \<and> 0 < MTTRMinutes c \<and> wi_ClosedAt u \<noteq> None"
proof -
  from postgres_service.Transition_effect [OF assms] obtain t mttr where
      mv: "sound_move (w_pg w) i StateClosed mttr"
      and ap: "apply_stmt (state_stmt StateClosed mttr i t) (w_pg w) = Some (w_pg w')"
      and u: "row_with wi_ID i (t_work_items (w_pg w')) = Some u"
    by blast
  from mv obtain r c where r: "row_with wi_ID i (t_work_items (w_pg w)) = Some r" "wi_State r = StateResolved"
      "row_with rca_WorkItemID i (t_rcas (w_pg w)) = Some c" "complete_rca c" "mttr = Some (MTTRMinutes c)"
    by (auto simp: sound_move_def elim: lifecycle_to_closed)
  with ap u show ?thesis
    by (auto simp: apply_stmt_Some_iff state_stmt_def row_with_upd_where_same complete_rca_MTTR_pos)
qed

theorem close_requires_rca_witness:
  "\<exists>u w'. Transition ref_env ''w1'' StateClosed (ex_world StateResolved [ex_rca] []) = (Returned (Inr u), w') \<and>
     wi_MTTR u = Some (MTTRMinutes ex_rca)"
proof -
  obtain u w' where t: "Transition ref_env ''w1'' StateClosed (ex_world StateResolved [ex_rca] []) = (Returned (Inr u), w')"
    using ex_close_runs [of "[]"] by blast
  have c: "row_with rca_WorkItemID ''w1'' (t_rcas (w_pg (ex_world StateResolved [ex_rca] []))) = Some ex_rca"
    by code_simp
  from close_requires_rca [OF ref_pg.postgres_service_axioms t] t c show ?thesis by auto
qed

text \<open>
  Invariant. Whatever \<open>Transition\<close> returns, errors and lost acknowledgements included, the
  stored work items keep the life-cycle invariant: closed items have a complete RCA, its time to
  repair and both instants, items that are not closed have none of these marks, and the
  constraints of the schema hold.
\<close>

theorem Transition_keeps_invariant:
  assumes "postgres_service E" and "lifecycle_ok (w_pg w)"
  shows "lifecycle_ok (w_pg (snd (Transition E i st w)))"
  using postgres_service.Transition_lifecycle [OF assms, of i st] by (metis prod.collapse)

theorem Transition_keeps_invariant_witness:
  "lifecycle_ok (w_pg (snd (Transition ref_env ''w1'' StateClosed (ex_world StateResolved [ex_rca] [False, False, True]))))"
proof -
  have "lifecycle_ok (w_pg (ex_world StateResolved [ex_rca] [False, False, True]))" by code_simp
  then show ?thesis by (rule Transition_keeps_invariant [OF ref_pg.postgres_service_axioms])
qed

text \<open>
  C21. Refused transitions. If the target is not the successor of the item's state, \<open>Transition\<close>
  returns an error and changes no store; unless the read itself failed, the error wraps
  \<open>ErrInvalidTransition\<close> and its text names both states and the permitted targets.
\<close>

theorem Transition_refuses:
  assumes "postgres_service E" and "schema_ok (w_pg w)"
    and "row_with wi_ID i (t_work_items (w_pg w)) = Some r" and "\<not> lifecycle_edge (wi_State r) st"
    and "Transition E i st w = (out, w')"
  shows "same_stores w w' \<and> (\<exists>e. out = Returned (Inl e) \<and>
    (external_error e \<or> Error e = ''workflow: invalid state transition: '' @ wi_State r @ '' '' @ arrow @ '' '' @ st @
       '' (valid: '' @ show_strings (ValidTransitions (the (stateRegistry (wi_State r)))) @ '')''))"
  using postgres_service.Transition_refused [OF assms(1,5,3) known_state [OF assms(2,3)] assms(4)]
  by (auto simp: invalid_transition_def)

theorem Transition_refuses_witness:
  "same_stores (ex_world StateClosed [ex_rca] []) (snd (Transition ref_env ''w1'' StateOpen (ex_world StateClosed [ex_rca] [])))"
proof -
  let ?w = "ex_world StateClosed [ex_rca] []"
  have "schema_ok (w_pg ?w)" by code_simp
  moreover have "row_with wi_ID ''w1'' (t_work_items (w_pg ?w)) = Some (ex_item StateClosed)" by code_simp
  moreover have "\<not> lifecycle_edge (wi_State (ex_item StateClosed)) StateOpen"
    by (simp add: lifecycle_edge_simps ex_item_def)
  ultimately show ?thesis
    using Transition_refuses [OF ref_pg.postgres_service_axioms, of ?w "''w1''" "ex_item StateClosed" StateOpen]
    by (metis prod.collapse)
qed

text \<open>
  C35. No panic. \<open>stateFor\<close> panics on an unknown state; with the CHECK constraint of the schema in
  force no call of \<open>Transition\<close> reaches that panic, for any target the client sends.
\<close>

theorem Transition_never_panics:
  assumes "postgres_service E" and "schema_ok (w_pg w)"
  shows "\<exists>r. fst (Transition E i st w) = Returned r"
  using postgres_service.Transition_no_panic [OF assms] by (metis outcome.exhaust)

theorem Transition_never_panics_witness:
  "\<exists>r. fst (Transition ref_env ''w1'' ''REOPENED'' (ex_world StateOpen [] [])) = Returned r"
proof -
  have "schema_ok (w_pg (ex_world StateOpen [] []))" by code_simp
  then show ?thesis by (rule Transition_never_panics [OF ref_pg.postgres_service_axioms])
qed

text \<open>
  C19. Submission of an RCA. \<open>SubmitRCA\<close> reports success only for a complete RCA of an existing
  work item that is neither OPEN nor CLOSED and has no RCA yet; then exactly that RCA, stamped with
  the time of submission, has been added, once, and no work item has changed.
\<close>

theorem SubmitRCA_correct:
  assumes "postgres_service E" and "SubmitRCA E rca w = ((None, rca'), w')"
  shows "complete_rca rca \<and> (\<exists>t. rca' = rca\<lparr>rca_SubmittedAt := t\<rparr>) \<and>
    row_with rca_WorkItemID (rca_WorkItemID rca) (t_rcas (w_pg w)) = None \<and>
    (\<exists>r. row_with wi_ID (rca_WorkItemID rca) (t_work_items (w_pg w)) = Some r \<and>
         wi_State r \<noteq> StateOpen \<and> wi_State r \<noteq> StateClosed) \<and>
    t_rcas (w_pg w') = t_rcas (w_pg w) @ [inserted_rca rca'] \<and> t_work_items (w_pg w') = t_work_items (w_pg w) \<and>
    t_timeseries (w_pg w') = t_timeseries (w_pg w) \<and> w_mongo w' = w_mongo w \<and> w_redis w' = w_redis w"
  using postgres_service.SubmitRCA_effect [OF assms] by (auto simp: apply_stmt_Some_iff)

theorem SubmitRCA_correct_witness:
  "\<exists>rca' w'. SubmitRCA ref_env ex_rca (ex_world StateResolved [] [False, False, True]) = ((None, rca'), w') \<and>
     t_rcas (w_pg w') = [inserted_rca rca']"
proof -
  let ?w = "ex_world StateResolved [] [False, False, True]"
  have "fst (fst (SubmitRCA ref_env ex_rca ?w)) = None" by code_simp
  then obtain rca' w' where s: "SubmitRCA ref_env ex_rca ?w = ((None, rca'), w')" by (metis prod.collapse)
  have "t_rcas (w_pg ?w) = []" by code_simp
  with SubmitRCA_correct [OF ref_pg.postgres_service_axioms s] s show ?thesis by auto
qed

text \<open>
  The converse for errors: a submission that fails leaves the tables as they were, or it is a
  complete RCA for an item in a permitted state without one, whose insertion was executed although
  it was reported as failed; in both cases the life-cycle invariant is kept.
\<close>

theorem SubmitRCA_error:
  assumes "postgres_service E" and "lifecycle_ok (w_pg w)" and "SubmitRCA E rca w = ((Some e, rca'), w')"
  shows "lifecycle_ok (w_pg w') \<and> (w_pg w' = w_pg w \<or>
    complete_rca rca \<and> t_rcas (w_pg w') = t_rcas (w_pg w) @ [inserted_rca rca'] \<and>
    t_work_items (w_pg w') = t_work_items (w_pg w))"
  using postgres_service.SubmitRCA_effect [OF assms(1,3)] postgres_service.SubmitRCA_lifecycle [OF assms]
  by (auto simp: apply_stmt_Some_iff)

theorem SubmitRCA_error_witness:
  "\<exists>e rca' w'. SubmitRCA ref_env ex_rca (ex_world StateOpen [] []) = ((Some e, rca'), w') \<and> lifecycle_ok (w_pg w')"
proof -
  let ?w = "ex_world StateOpen [] []"
  have "fst (fst (SubmitRCA ref_env ex_rca ?w)) \<noteq> None" by code_simp
  then obtain e rca' w' where s: "SubmitRCA ref_env ex_rca ?w = ((Some e, rca'), w')" by (metis prod.collapse option.exhaust)
  have "lifecycle_ok (w_pg ?w)" by code_simp
  from SubmitRCA_error [OF ref_pg.postgres_service_axioms this s] s show ?thesis by blast
qed

end
