(* ===== verification/Ingestion.thy ===== *)
theory Ingestion
  imports Debounce RateLimiter SignalQueue Alerting Http Workflow
begin

text \<open>
  \<open>ingestion/handler.go\<close>: the two ingestion endpoints. The result of Fiber's \<open>BodyParser\<close> is
  part of the request. Each handler is one function from the handler's state and the world to the
  response and both of them, with every early return of the code; what it starts with \<open>go\<close> is
  appended to the pending tasks.
\<close>

record Handler =
  h_queue :: SignalQueue
  h_debouncer :: Debouncer
  h_rateLimiter :: RateLimiter
  h_tasks :: "task list"

definition NewHandler :: "SignalQueue \<Rightarrow> Handler" where
  "NewHandler q = \<lparr>h_queue = q, h_debouncer = NewDebouncer, h_rateLimiter = NewRateLimiter 200 100,
     h_tasks = []\<rparr>"

subsection \<open>Validation\<close>

definition invalid_signal :: "string \<Rightarrow> go_error" where
  "invalid_signal s = Wrapped [] ErrInvalidSignal s"

text \<open>The validator also fills in the metadata, with a new UUID, when they are nil.\<close>

definition validateIngestRequest ::
  "'o ext \<Rightarrow> IngestRequest \<Rightarrow> 'o world \<Rightarrow> (go_error option \<times> IngestRequest) \<times> 'o world" where
  "validateIngestRequest E req w =
     (if ir_ComponentID req = [] then ((Some (invalid_signal '': component_id is required''), req), w)
      else if ir_ComponentType req = [] then ((Some (invalid_signal '': component_type is required''), req), w)
      else if ir_Message req = [] then ((Some (invalid_signal '': message is required''), req), w)
      else if ir_Severity req = [] then ((Some (invalid_signal '': severity is required''), req), w)
      else if ir_Severity req \<notin> set severities
        then ((Some (invalid_signal '': severity must be P0, P1, or P2''), req), w)
      else if ir_ComponentType req \<notin> set component_types
        then ((Some (invalid_signal '': invalid component_type''), req), w)
      else if ir_Metadata req = None
        then (case uuid_New E w of (u, w1) \<Rightarrow>
                ((None, req\<lparr>ir_Metadata := Some [(''signal_id'', AString u)]\<rparr>), w1))
      else ((None, req), w))"

subsection \<open>Rate limiting and its headers\<close>

definition rate_limit ::
  "'o ext \<Rightarrow> string \<Rightarrow> RateLimiter \<Rightarrow> 'o world \<Rightarrow>
   (bool \<times> (string \<times> string) list) \<times> RateLimiter \<times> 'o world" where
  "rate_limit E ip rl w =
     (case (if rl_buckets rl ip = None then time_Now E w else (0, w)) of (t0, w0) \<Rightarrow>
      case time_Now E w0 of (t1, w1) \<Rightarrow>
      case Allow ip t0 t1 rl of ((allowed, remaining, resetIn), rl') \<Rightarrow>
      case time_Now E w1 of (now, w2) \<Rightarrow>
        ((allowed, [(''X-RateLimit-Limit'', ''100''), (''X-RateLimit-Remaining'', itoa remaining),
                    (''X-RateLimit-Reset'', itoa (Unix (now + resetIn)))]), rl', w2))"

subsection \<open>POST /api/v1/signals\<close>

text \<open>The closure of \<open>IngestSignal\<close>: the severity comes from the component type.\<close>

definition new_item_single ::
  "'o ext \<Rightarrow> Signal \<Rightarrow> 'o world \<Rightarrow> (go_error + WorkItem \<times> WorkItem) \<times> 'o world" where
  "new_item_single E signal w =
     (case uuid_New E w of (u, w1) \<Rightarrow> case time_Now E w1 of (t1, w2) \<Rightarrow> case time_Now E w2 of (t2, w3) \<Rightarrow>
      let wi = (NewWorkItem u t1 t2 signal)\<lparr>wi_Severity := SeverityForComponent (sig_ComponentType signal)\<rparr>
      in case CreateWorkItem E wi w3 of
           (Some e, w4) \<Rightarrow> (Inl (Wrapped ''create work item: '' e []), w4)
         | (None, w4) \<Rightarrow> (case InvalidateDashboard E w4 of (_, w5) \<Rightarrow> (Inr (wi, wi), w5)))"

text \<open>Steps 3 to 7, for a request that passed the limiter and the validator.\<close>

definition ingest_valid ::
  "'o ext \<Rightarrow> (string \<times> string) list \<Rightarrow> IngestRequest \<Rightarrow> Handler \<Rightarrow> 'o world \<Rightarrow>
   response \<times> Handler \<times> 'o world" where
  "ingest_valid E hs req h w =
     (case uuid_New E w of (u, w1) \<Rightarrow> case time_Now E w1 of (t, w2) \<Rightarrow>
      let signal = NewSignal u t (ir_ComponentID req) (ir_ComponentType req) (ir_Message req)
                     (ir_Severity req) (ir_Metadata req)
      in case Resolve E signal (new_item_single E signal) (h_debouncer h) w2 of
           (((workItemID, isNew, err), created), d, w3) \<Rightarrow>
             (case err of
                Some e \<Rightarrow> (reply StatusInternalServerError hs
                    (ErrorBody (''failed to process signal: '' @ Error e)), h\<lparr>h_debouncer := d\<rparr>, w3)
              | None \<Rightarrow>
                  let sev = (case created of Some wi \<Rightarrow> wi_Severity wi | None \<Rightarrow> sig_Severity signal);
                      alerts = (case created of Some wi \<Rightarrow> [DispatchAlert wi] | None \<Rightarrow> []);
                      signal = signal\<lparr>sig_Severity := sev, sig_WorkItemID := workItemID\<rparr>;
                      h = h\<lparr>h_debouncer := d, h_tasks := h_tasks h @ alerts\<rparr>
                  in case TryEnqueue signal (h_queue h) of
                       (False, q) \<Rightarrow> (reply StatusTooManyRequests hs (ErrorBody (Error ErrQueueFull)),
                          h\<lparr>h_queue := q\<rparr>, w3)
                     | (True, q) \<Rightarrow> (reply StatusAccepted hs
                          (IngestBody \<lparr>resp_SignalID = sig_ID signal, resp_WorkItemID = workItemID,
                                       resp_Debounced = (\<not> isNew)\<rparr>),
                          h\<lparr>h_queue := q, h_tasks := h_tasks h @ [IncrementCounter]\<rparr>, w3)))"

definition IngestSignal ::
  "'o ext \<Rightarrow> string \<Rightarrow> go_error + IngestRequest \<Rightarrow> Handler \<Rightarrow> 'o world \<Rightarrow> response \<times> Handler \<times> 'o world" where
  "IngestSignal E ip parsed h w =
     (case rate_limit E ip (h_rateLimiter h) w of ((allowed, hs), rl, w1) \<Rightarrow>
      let h = h\<lparr>h_rateLimiter := rl\<rparr> in
      if \<not> allowed then (reply StatusTooManyRequests hs (ErrorBody (Error ErrRateLimitExceeded)), h, w1)
      else (case parsed of
          Inl e \<Rightarrow> (reply StatusBadRequest hs (ErrorBody (''invalid request body: '' @ Error e)), h, w1)
        | Inr req \<Rightarrow>
            (case validateIngestRequest E req w1 of
               ((Some e, req1), w2) \<Rightarrow> (reply StatusBadRequest hs (ErrorBody (Error e)), h, w2)
             | ((None, req1), w2) \<Rightarrow> ingest_valid E hs req1 h w2)))"

subsection \<open>POST /api/v1/signals/batch\<close>

text \<open>The closure of \<open>IngestBatch\<close>: the severity of the request is kept and no alert is sent.\<close>

definition new_item_batch ::
  "'o ext \<Rightarrow> Signal \<Rightarrow> 'o world \<Rightarrow> (go_error + WorkItem \<times> unit) \<times> 'o world" where
  "new_item_batch E signal w =
     (case uuid_New E w of (u, w1) \<Rightarrow> case time_Now E w1 of (t1, w2) \<Rightarrow> case time_Now E w2 of (t2, w3) \<Rightarrow>
      let wi = NewWorkItem u t1 t2 signal
      in case CreateWorkItem E wi w3 of
           (Some e, w4) \<Rightarrow> (Inl e, w4)
         | (None, w4) \<Rightarrow> (case InvalidateDashboard E w4 of (_, w5) \<Rightarrow> (Inr (wi, ()), w5)))"

definition batch_one ::
  "'o ext \<Rightarrow> IngestRequest \<Rightarrow> Handler \<Rightarrow> 'o world \<Rightarrow> batch_result \<times> Handler \<times> 'o world" where
  "batch_one E req h w =
     (case validateIngestRequest E req w of
        ((Some e, req1), w1) \<Rightarrow> (error_result (Error e), h, w1)
      | ((None, req1), w1) \<Rightarrow>
          (case uuid_New E w1 of (u, w2) \<Rightarrow> case time_Now E w2 of (t, w3) \<Rightarrow>
           let signal = NewSignal u t (ir_ComponentID req1) (ir_ComponentType req1) (ir_Message req1)
                          (ir_Severity req1) (ir_Metadata req1)
           in case Resolve E signal (new_item_batch E signal) (h_debouncer h) w3 of
                (((workItemID, isNew, err), created), d, w4) \<Rightarrow>
                  (case err of
                     Some e \<Rightarrow> (error_result (Error e), h\<lparr>h_debouncer := d\<rparr>, w4)
                   | None \<Rightarrow>
                       let signal = signal\<lparr>sig_WorkItemID := workItemID\<rparr>; h = h\<lparr>h_debouncer := d\<rparr>
                       in case TryEnqueue signal (h_queue h) of
                            (False, q) \<Rightarrow> (error_result (Error ErrQueueFull), h\<lparr>h_queue := q\<rparr>, w4)
                          | (True, q) \<Rightarrow>
                              (\<lparr>br_SignalID = sig_ID signal, br_WorkItemID = workItemID,
                                br_Debounced = (\<not> isNew), br_Error = []\<rparr>,
                               h\<lparr>h_queue := q, h_tasks := h_tasks h @ [IncrementCounter]\<rparr>, w4))))"

fun batch_loop ::
  "'o ext \<Rightarrow> IngestRequest list \<Rightarrow> batch_result list \<Rightarrow> Handler \<Rightarrow> 'o world \<Rightarrow>
   batch_result list \<times> Handler \<times> 'o world" where
  "batch_loop E [] results h w = (results, h, w)"
| "batch_loop E (req # reqs) results h w =
     (case batch_one E req h w of (r, h1, w1) \<Rightarrow> batch_loop E reqs (results @ [r]) h1 w1)"

definition IngestBatch ::
  "'o ext \<Rightarrow> string \<Rightarrow> go_error + IngestRequest list \<Rightarrow> Handler \<Rightarrow> 'o world \<Rightarrow>
   response \<times> Handler \<times> 'o world" where
  "IngestBatch E ip parsed h w =
     (case rate_limit E ip (h_rateLimiter h) w of ((allowed, hs), rl, w1) \<Rightarrow>
      let h = h\<lparr>h_rateLimiter := rl\<rparr> in
      if \<not> allowed then (reply StatusTooManyRequests hs (ErrorBody (Error ErrRateLimitExceeded)), h, w1)
      else (case parsed of
          Inl e \<Rightarrow> (reply StatusBadRequest hs (ErrorBody (''invalid batch request body: '' @ Error e)), h, w1)
        | Inr reqs \<Rightarrow>
            if 100 < length reqs
            then (reply StatusBadRequest hs (ErrorBody ''batch size exceeds maximum of 100 signals''), h, w1)
            else (case batch_loop E reqs [] h w1 of (results, h1, w2) \<Rightarrow>
                    (reply StatusAccepted hs (BatchBody results), h1, w2))))"

subsection \<open>The validator and the limiter\<close>

definition valid_request :: "IngestRequest \<Rightarrow> bool" where
  "valid_request req \<longleftrightarrow> ir_ComponentID req \<noteq> [] \<and> ir_Message req \<noteq> [] \<and>
     ir_Severity req \<in> set severities \<and> ir_ComponentType req \<in> set component_types"

lemma validate_frame: "validateIngestRequest E req w = (r, w') \<Longrightarrow> same_stores w w'"
  by (auto simp: validateIngestRequest_def split: if_splits prod.splits dest: uuid_New_frame)

lemma no_empty_enum: "[] \<notin> set severities" "[] \<notin> set component_types"
  by (simp_all add: severities_def component_types_def component_defs severity_defs)

lemma validate_iff:
  "validateIngestRequest E req w = ((err, req'), w') \<Longrightarrow> err = None \<longleftrightarrow> valid_request req"
  using no_empty_enum by (auto simp: validateIngestRequest_def valid_request_def split: if_splits prod.splits)

lemma validate_keeps:
  "validateIngestRequest E req w = ((err, req'), w') \<Longrightarrow>
     ir_ComponentID req' = ir_ComponentID req \<and> ir_ComponentType req' = ir_ComponentType req \<and>
     ir_Message req' = ir_Message req \<and> ir_Severity req' = ir_Severity req \<and>
     (err = None \<longrightarrow> ir_Metadata req' \<noteq> None)"
  by (auto simp: validateIngestRequest_def split: if_splits prod.splits)

lemma rate_limit_frame: "rate_limit E ip rl w = (r, rl', w') \<Longrightarrow> same_stores w w'"
  by (auto simp: rate_limit_def same_stores_def split: prod.splits if_splits dest!: time_Now_frame)

subsection \<open>The closures create work items\<close>

context backend
begin

lemma created_item:
  assumes "CreateWorkItem E wi w = (None, w1)" and "InvalidateDashboard E w1 = (r, w2)"
  shows "apply_stmt (INSERT_work_item wi) (w_pg w) = Some (w_pg w2) \<and> w_mongo w2 = w_mongo w \<and>
    (\<forall>k. k \<noteq> dashboardKey \<longrightarrow> w_redis w2 k = w_redis w k)"
  using pg.CreateWorkItem_ok [OF assms(1)] InvalidateDashboard_frame [OF assms(2)]
    rd.Invalidate_any [OF assms(2)]
  by (auto simp: apply_stmt_Some_iff)

lemma fresh_item:
  assumes "uuid_New E w = (u, w1)" "time_Now E w1 = (t1, w2)" "time_Now E w2 = (t2, w3)"
  shows "u \<noteq> [] \<and> same_stores w w3"
  using assms uu.uuid_nonempty [of "w_env w" u]
  by (auto simp: same_stores_def uuid_New_def split: prod.splits dest!: time_Now_frame)

lemma failed_item:
  assumes "CreateWorkItem E wi w1 = (r, w')" and "wi_State wi = StateOpen" and "same_stores w w1"
  shows "(w_pg w' = w_pg w \<or> (\<exists>wi. wi_State wi = StateOpen \<and> apply_stmt (INSERT_work_item wi) (w_pg w) = Some (w_pg w'))) \<and>
    w_mongo w' = w_mongo w \<and> w_redis w' = w_redis w"
  using pg.CreateWorkItem_any [OF assms(1)] assms(2,3) by (auto simp only: same_stores_def)

lemma new_item_single_ok:
  assumes "new_item_single E s w = (Inr (wi, x), w')"
  shows "x = wi \<and> wi_ComponentID wi = sig_ComponentID s \<and> wi_ComponentType wi = sig_ComponentType s \<and>
    wi_ID wi \<noteq> [] \<and> wi_State wi = StateOpen \<and> wi_SignalCount wi = 1 \<and>
    wi_Severity wi = SeverityForComponent (sig_ComponentType s) \<and>
    apply_stmt (INSERT_work_item wi) (w_pg w) = Some (w_pg w') \<and> w_mongo w' = w_mongo w \<and>
    (\<forall>k. k \<noteq> dashboardKey \<longrightarrow> w_redis w' k = w_redis w k)"
proof -
  obtain u w1 t1 w2 t2 w3 where f: "uuid_New E w = (u, w1)" "time_Now E w1 = (t1, w2)" "time_Now E w2 = (t2, w3)"
    by (metis surj_pair)
  let ?wi = "(NewWorkItem u t1 t2 s)\<lparr>wi_Severity := SeverityForComponent (sig_ComponentType s)\<rparr>"
  obtain r w4 where c: "CreateWorkItem E ?wi w3 = (r, w4)" by fastforce
  obtain r' w5 where i: "InvalidateDashboard E w4 = (r', w5)" by fastforce
  from assms f c i have "r = None" "wi = ?wi" "x = ?wi" "w' = w5"
    by (cases r; simp add: new_item_single_def Let_def)+
  with created_item [of ?wi w3 w4 r' w5] c i fresh_item [OF f] show ?thesis
    by (simp add: NewWorkItem_def same_stores_def)
qed

lemma new_item_single_err:
  assumes "new_item_single E s w = (Inl e, w')"
  shows "(w_pg w' = w_pg w \<or> (\<exists>wi. wi_State wi = StateOpen \<and> apply_stmt (INSERT_work_item wi) (w_pg w) = Some (w_pg w'))) \<and>
    w_mongo w' = w_mongo w \<and> w_redis w' = w_redis w"
proof -
  obtain u w1 t1 w2 t2 w3 where f: "uuid_New E w = (u, w1)" "time_Now E w1 = (t1, w2)" "time_Now E w2 = (t2, w3)"
    by (metis surj_pair)
  let ?wi = "(NewWorkItem u t1 t2 s)\<lparr>wi_Severity := SeverityForComponent (sig_ComponentType s)\<rparr>"
  obtain r w4 where c: "CreateWorkItem E ?wi w3 = (r, w4)" by fastforce
  obtain r' w5 where i: "InvalidateDashboard E w4 = (r', w5)" by fastforce
  from assms f c i have "w' = w4" by (cases r) (auto simp: new_item_single_def Let_def)
  moreover have "wi_State ?wi = StateOpen" by (simp add: NewWorkItem_def)
  ultimately show ?thesis using failed_item [OF c] fresh_item [OF f] by simp
qed

lemma new_item_batch_ok:
  assumes "new_item_batch E s w = (Inr (wi, x), w')"
  shows "wi_ComponentID wi = sig_ComponentID s \<and> wi_ID wi \<noteq> [] \<and> wi_State wi = StateOpen \<and>
    wi_Severity wi = sig_Severity s \<and>
    apply_stmt (INSERT_work_item wi) (w_pg w) = Some (w_pg w') \<and> w_mongo w' = w_mongo w \<and>
    (\<forall>k. k \<noteq> dashboardKey \<longrightarrow> w_redis w' k = w_redis w k)"
proof -
  obtain u w1 t1 w2 t2 w3 where f: "uuid_New E w = (u, w1)" "time_Now E w1 = (t1, w2)" "time_Now E w2 = (t2, w3)"
    by (metis surj_pair)
  let ?wi = "NewWorkItem u t1 t2 s"
  obtain r w4 where c: "CreateWorkItem E ?wi w3 = (r, w4)" by fastforce
  obtain r' w5 where i: "InvalidateDashboard E w4 = (r', w5)" by fastforce
  from assms f c i have "r = None" "wi = ?wi" "w' = w5"
    by (cases r; simp add: new_item_batch_def Let_def)+
  with created_item [of ?wi w3 w4 r' w5] c i fresh_item [OF f] show ?thesis
    by (simp add: NewWorkItem_def same_stores_def)
qed

lemma new_item_batch_err:
  assumes "new_item_batch E s w = (Inl e, w')"
  shows "(w_pg w' = w_pg w \<or> (\<exists>wi. wi_State wi = StateOpen \<and> apply_stmt (INSERT_work_item wi) (w_pg w) = Some (w_pg w'))) \<and>
    w_mongo w' = w_mongo w \<and> w_redis w' = w_redis w"
proof -
  obtain u w1 t1 w2 t2 w3 where f: "uuid_New E w = (u, w1)" "time_Now E w1 = (t1, w2)" "time_Now E w2 = (t2, w3)"
    by (metis surj_pair)
  let ?wi = "NewWorkItem u t1 t2 s"
  obtain r w4 where c: "CreateWorkItem E ?wi w3 = (r, w4)" by fastforce
  obtain r' w5 where i: "InvalidateDashboard E w4 = (r', w5)" by fastforce
  from assms f c i have "w' = w4" by (cases r) (auto simp: new_item_batch_def Let_def)
  moreover have "wi_State ?wi = StateOpen" by (simp add: NewWorkItem_def)
  ultimately show ?thesis using failed_item [OF c] fresh_item [OF f] by simp
qed

end

sublocale backend \<subseteq> single: item_creator E s "new_item_single E s" for s
proof
  fix w w' :: "'o world" and wi x
  assume "new_item_single E s w = (Inr (wi, x), w')"
  from new_item_single_ok [OF this]
  show "wi_ComponentID wi = sig_ComponentID s \<and> wi_ID wi \<noteq> [] \<and> wi_State wi = StateOpen \<and>
      apply_stmt (INSERT_work_item wi) (w_pg w) = Some (w_pg w') \<and> w_mongo w' = w_mongo w \<and>
      (\<forall>k. k \<noteq> dashboardKey \<longrightarrow> w_redis w' k = w_redis w k)"
    by simp
qed (rule new_item_single_err)

sublocale backend \<subseteq> batch: item_creator E s "new_item_batch E s" for s
proof
  fix w w' :: "'o world" and wi x
  assume "new_item_batch E s w = (Inr (wi, x), w')"
  from new_item_batch_ok [OF this]
  show "wi_ComponentID wi = sig_ComponentID s \<and> wi_ID wi \<noteq> [] \<and> wi_State wi = StateOpen \<and>
      apply_stmt (INSERT_work_item wi) (w_pg w) = Some (w_pg w') \<and> w_mongo w' = w_mongo w \<and>
      (\<forall>k. k \<noteq> dashboardKey \<longrightarrow> w_redis w' k = w_redis w k)"
    by simp
qed (rule new_item_batch_err)

subsection \<open>What the endpoints do\<close>

text \<open>A signal built from a request, and one whose work item exists and is of its component.\<close>

definition signal_of :: "IngestRequest \<Rightarrow> Signal \<Rightarrow> bool" where
  "signal_of req s \<longleftrightarrow> sig_ID s \<noteq> [] \<and> sig_ComponentID s = ir_ComponentID req \<and>
     sig_ComponentType s = ir_ComponentType req \<and> sig_Message s = ir_Message req"

definition linked_signal :: "pg_db \<Rightarrow> Signal \<Rightarrow> bool" where
  "linked_signal db s \<longleftrightarrow> item_of db (sig_WorkItemID s) (sig_ComponentID s)"

lemma linked_signal_kept: "linked_signal db s \<Longrightarrow> items_kept db db' \<Longrightarrow> linked_signal db' s"
  by (simp add: linked_signal_def items_kept_def)

definition opened_for :: "Signal \<Rightarrow> WorkItem \<Rightarrow> bool" where
  "opened_for s wi \<longleftrightarrow> wi_ID wi = sig_WorkItemID s \<and> wi_ComponentID wi = sig_ComponentID s \<and>
     wi_State wi = StateOpen \<and> wi_Severity wi = sig_Severity s \<and>
     sig_Severity s = SeverityForComponent (sig_ComponentType s)"

definition accepted_response :: "Signal \<Rightarrow> bool \<Rightarrow> (string \<times> string) list \<Rightarrow> response" where
  "accepted_response s debounced hs = reply StatusAccepted hs
     (IngestBody \<lparr>resp_SignalID = sig_ID s, resp_WorkItemID = sig_WorkItemID s, resp_Debounced = debounced\<rparr>)"

text \<open>The signals that a batch adds to the queue are those of its results, in order.\<close>

definition batch_taken :: "batch_result list \<Rightarrow> Signal list \<Rightarrow> bool" where
  "batch_taken rs ss \<longleftrightarrow>
     map (\<lambda>r. (br_SignalID r, br_WorkItemID r)) (filter (\<lambda>r. br_SignalID r \<noteq> []) rs) =
     map (\<lambda>s. (sig_ID s, sig_WorkItemID s)) ss"

definition alerts_for :: "WorkItem option \<Rightarrow> task list" where
  "alerts_for created = (case created of Some wi \<Rightarrow> [DispatchAlert wi] | None \<Rightarrow> [])"

definition attached :: "Signal \<Rightarrow> WorkItem option \<Rightarrow> string \<Rightarrow> Signal" where
  "attached sg created i =
     sg\<lparr>sig_Severity := (case created of Some wi \<Rightarrow> wi_Severity wi | None \<Rightarrow> sig_Severity sg), sig_WorkItemID := i\<rparr>"

context backend
begin

lemma Resolve_single:
  assumes "Resolve E s (new_item_single E s) d w = (((i, new, None), x), d', w')"
  shows "(new \<longleftrightarrow> x \<noteq> None) \<and> linked d' (sig_ComponentID s) = Some i \<and>
    (case x of
       None \<Rightarrow> w_pg w' = w_pg w
     | Some wi \<Rightarrow> wi_ID wi = i \<and> wi_ComponentID wi = sig_ComponentID s \<and> wi_State wi = StateOpen \<and>
         wi_Severity wi = SeverityForComponent (sig_ComponentType s) \<and>
         apply_stmt (INSERT_work_item wi) (w_pg w) = Some (w_pg w'))"
  using assms
proof (cases rule: Resolve_cases)
  case hit
  then show ?thesis by simp
next
  case (redis e)
  then show ?thesis using GetDebounceEntry_frame [OF redis(2)] by (simp add: same_stores_def)
next
  case (created e1 w1 wi y w2 e2)
  have s1: "same_stores w w1" by (rule GetDebounceEntry_frame [OF created(2)])
  from new_item_single_ok [OF created(3)] s1 SetDebounceEntry_frame [OF created(4)] created show ?thesis
    by (simp add: same_stores_def)
qed simp

text \<open>The identifier and the time of a new signal.\<close>

lemma fresh_ids:
  assumes "uuid_New E w = (u, w1)" and "time_Now E w1 = (t, w2)"
  shows "u \<noteq> []" "same_stores w w2"
  using assms uu.uuid_nonempty [of "w_env w" u]
  by (auto simp: same_stores_def uuid_New_def split: prod.splits dest!: time_Now_frame)

lemma Resolve_fresh_single:
  assumes "uuid_New E w = (u, w1)" and "time_Now E w1 = (t, w2)"
    and "sg = NewSignal u t (ir_ComponentID req) (ir_ComponentType req) (ir_Message req) (ir_Severity req) (ir_Metadata req)"
    and "Resolve E sg (new_item_single E sg) d w2 = (((i, new, None), x), d', w3)"
  shows "(new \<longleftrightarrow> x \<noteq> None) \<and> linked d' (ir_ComponentID req) = Some i"
    "case x of None \<Rightarrow> w_pg w3 = w_pg w | Some wi \<Rightarrow> wi_ID wi = i \<and> wi_ComponentID wi = ir_ComponentID req \<and>
       wi_State wi = StateOpen \<and> wi_Severity wi = SeverityForComponent (ir_ComponentType req) \<and>
       apply_stmt (INSERT_work_item wi) (w_pg w) = Some (w_pg w3)"
  using Resolve_single [OF assms(4)] fresh_ids(2) [OF assms(1,2)] assms(3)
  by (simp_all add: NewSignal_def same_stores_def split: option.splits)

lemma ingest_valid_run:
  assumes "uuid_New E w = (u, w1)" and "time_Now E w1 = (t, w2)"
    and "sg = NewSignal u t (ir_ComponentID req) (ir_ComponentType req) (ir_Message req) (ir_Severity req) (ir_Metadata req)"
    and "Resolve E sg (new_item_single E sg) (h_debouncer h) w2 = (((i, new, None), x), d, w3)"
    and "TryEnqueue (attached sg x i) (h_queue h) = (ok, q)"
  shows "ingest_valid E hs req h w =
    (if ok then (accepted_response (attached sg x i) (\<not> new) hs,
       h\<lparr>h_debouncer := d, h_queue := q, h_tasks := h_tasks h @ alerts_for x @ [IncrementCounter]\<rparr>, w3)
     else (reply StatusTooManyRequests hs (ErrorBody (Error ErrQueueFull)),
       h\<lparr>h_debouncer := d, h_queue := q, h_tasks := h_tasks h @ alerts_for x\<rparr>, w3))"
  using assms(1,2,4,5) unfolding assms(3) ingest_valid_def alerts_for_def accepted_response_def attached_def
  by (cases ok) simp_all

lemma ingest_valid_cases:
  assumes "ingest_valid E hs req h w = (resp, h', w')"
  obtains (failed) e where "resp = reply StatusInternalServerError hs (ErrorBody e)"
      "h_queue h' = h_queue h" "h_tasks h' = h_tasks h" "linked (h_debouncer h') = linked (h_debouncer h)"
  | (full) s created where "signal_of req s" "resp = reply StatusTooManyRequests hs (ErrorBody (Error ErrQueueFull))"
      "TryEnqueue s (h_queue h) = (False, h_queue h')" "h_tasks h' = h_tasks h @ alerts_for created"
      "linked (h_debouncer h') (sig_ComponentID s) = Some (sig_WorkItemID s)"
      "case created of None \<Rightarrow> True | Some wi \<Rightarrow> apply_stmt (INSERT_work_item wi) (w_pg w) = Some (w_pg w')"
  | (accepted) s created where "signal_of req s" "resp = accepted_response s (created = None) hs"
      "TryEnqueue s (h_queue h) = (True, h_queue h')" "h_tasks h' = h_tasks h @ alerts_for created @ [IncrementCounter]"
      "linked (h_debouncer h') (sig_ComponentID s) = Some (sig_WorkItemID s)"
      "case created of
         None \<Rightarrow> w_pg w' = w_pg w \<and> sig_Severity s = ir_Severity req
       | Some wi \<Rightarrow> opened_for s wi \<and> apply_stmt (INSERT_work_item wi) (w_pg w) = Some (w_pg w')"
proof -
  obtain u w1 t w2 where f: "uuid_New E w = (u, w1)" "time_Now E w1 = (t, w2)" by (metis surj_pair)
  note u = fresh_ids(1) [OF f] and s2 = fresh_ids(2) [OF f]
  define sg where "sg = NewSignal u t (ir_ComponentID req) (ir_ComponentType req) (ir_Message req)
    (ir_Severity req) (ir_Metadata req)"
  obtain i new err x d w3 where r: "Resolve E sg (new_item_single E sg) (h_debouncer h) w2 = (((i, new, err), x), d, w3)"
    by (metis surj_pair)
  show ?thesis
  proof (cases err)
    case (Some e)
    then have "d = h_debouncer h" using r Resolve_error by metis
    with Some assms f r show ?thesis by (intro failed) (auto simp: ingest_valid_def sg_def Let_def)
  next
    case None
    define sg' where "sg' = attached sg x i"
    obtain ok q where q: "TryEnqueue sg' (h_queue h) = (ok, q)" by fastforce
    note R = Resolve_fresh_single [OF f sg_def r [unfolded None]]
    have sig: "signal_of req sg'" using u by (simp add: signal_of_def attached_def sg'_def sg_def NewSignal_def)
    note run = ingest_valid_run [OF f sg_def r [unfolded None] q [unfolded sg'_def], folded sg'_def, of hs]
    show ?thesis
    proof (cases ok)
      case True
      with run assms R q sig show ?thesis
        by (intro accepted [of sg' x]) (auto simp: sg'_def attached_def sg_def NewSignal_def opened_for_def split: option.splits)
    next
      case False
      with run assms R q sig show ?thesis
        by (intro full [of sg' x]) (auto simp: sg'_def attached_def sg_def NewSignal_def split: option.splits)
    qed
  qed
qed

text \<open>The same for one element of a batch.\<close>

lemma Resolve_batch:
  assumes "Resolve E s (new_item_batch E s) d w = (((i, new, None), x), d', w')"
  shows "linked d' (sig_ComponentID s) = Some i \<and>
    (if new then \<exists>wi. wi_ID wi = i \<and> wi_ComponentID wi = sig_ComponentID s \<and> wi_State wi = StateOpen \<and>
         wi_Severity wi = sig_Severity s \<and> apply_stmt (INSERT_work_item wi) (w_pg w) = Some (w_pg w')
     else w_pg w' = w_pg w)"
  using assms
proof (cases rule: Resolve_cases)
  case hit
  then show ?thesis by simp
next
  case (redis e)
  then show ?thesis using GetDebounceEntry_frame [OF redis(2)] by (simp add: same_stores_def)
next
  case (created e1 w1 wi y w2 e2)
  have s1: "same_stores w w1" by (rule GetDebounceEntry_frame [OF created(2)])
  from new_item_batch_ok [OF created(3)] s1 SetDebounceEntry_frame [OF created(4)] created show ?thesis
    by (auto simp: same_stores_def intro!: exI [of _ wi])
qed simp

lemma batch_one_run:
  assumes "validateIngestRequest E req w = ((None, rq), w1)" and "uuid_New E w1 = (u, w2)" and "time_Now E w2 = (t, w3)"
    and "sg = NewSignal u t (ir_ComponentID rq) (ir_ComponentType rq) (ir_Message rq) (ir_Severity rq) (ir_Metadata rq)"
    and "Resolve E sg (new_item_batch E sg) (h_debouncer h) w3 = (((i, new, None), x), d, w4)"
    and "TryEnqueue (sg\<lparr>sig_WorkItemID := i\<rparr>) (h_queue h) = (ok, q)"
  shows "batch_one E req h w =
    (if ok then (\<lparr>br_SignalID = sig_ID (sg\<lparr>sig_WorkItemID := i\<rparr>), br_WorkItemID = i, br_Debounced = (\<not> new), br_Error = []\<rparr>,
       h\<lparr>h_debouncer := d, h_queue := q, h_tasks := h_tasks h @ [IncrementCounter]\<rparr>, w4)
     else (error_result (Error ErrQueueFull), h\<lparr>h_debouncer := d, h_queue := q\<rparr>, w4))"
  using assms(1-3,5,6) unfolding assms(4) batch_one_def by (cases ok) simp_all

lemma batch_one_cases:
  assumes "batch_one E req h w = (r, h', w')"
  obtains (rejected) e where "r = error_result e" "h_queue h' = h_queue h" "h_tasks h' = h_tasks h"
      "linked (h_debouncer h') = linked (h_debouncer h)" "\<not> valid_request req \<Longrightarrow> same_stores w w'"
  | (full) s where "valid_request req" "signal_of req s" "r = error_result (Error ErrQueueFull)"
      "TryEnqueue s (h_queue h) = (False, h_queue h')" "h_tasks h' = h_tasks h"
  | (accepted) s new where "valid_request req" "signal_of req s" "sig_Severity s = ir_Severity req"
      "r = \<lparr>br_SignalID = sig_ID s, br_WorkItemID = sig_WorkItemID s, br_Debounced = (\<not> new), br_Error = []\<rparr>"
      "TryEnqueue s (h_queue h) = (True, h_queue h')" "h_tasks h' = h_tasks h @ [IncrementCounter]"
      "linked (h_debouncer h') (sig_ComponentID s) = Some (sig_WorkItemID s)"
      "if new then \<exists>wi. wi_ID wi = sig_WorkItemID s \<and> wi_ComponentID wi = sig_ComponentID s \<and>
           wi_State wi = StateOpen \<and> wi_Severity wi = ir_Severity req \<and>
           apply_stmt (INSERT_work_item wi) (w_pg w) = Some (w_pg w')
       else w_pg w' = w_pg w"
proof -
  obtain ve rq w1 where v: "validateIngestRequest E req w = ((ve, rq), w1)" by (metis surj_pair)
  note valid = validate_iff [OF v] and s1 = validate_frame [OF v] and keeps = validate_keeps [OF v]
  show ?thesis
  proof (cases ve)
    case (Some e)
    with v assms s1 show ?thesis by (intro rejected) (auto simp: batch_one_def)
  next
    case vN: None
    obtain u w2 t w3 where f: "uuid_New E w1 = (u, w2)" "time_Now E w2 = (t, w3)" by (metis surj_pair)
    note u = fresh_ids(1) [OF f] and s3 = same_stores_trans [OF s1 fresh_ids(2) [OF f]]
    define sg where "sg = NewSignal u t (ir_ComponentID rq) (ir_ComponentType rq) (ir_Message rq)
      (ir_Severity rq) (ir_Metadata rq)"
    obtain i new err x d w4 where r: "Resolve E sg (new_item_batch E sg) (h_debouncer h) w3 = (((i, new, err), x), d, w4)"
      by (metis surj_pair)
    show ?thesis
    proof (cases err)
      case (Some e)
      then have "d = h_debouncer h" using r Resolve_error by metis
      with Some vN v assms f r valid show ?thesis by (intro rejected) (auto simp: batch_one_def sg_def Let_def)
    next
      case None
      define sg' where "sg' = sg\<lparr>sig_WorkItemID := i\<rparr>"
      obtain ok q where q: "TryEnqueue sg' (h_queue h) = (ok, q)" by fastforce
      have R: "linked d (ir_ComponentID req) = Some i"
        "if new then \<exists>wi. wi_ID wi = i \<and> wi_ComponentID wi = ir_ComponentID req \<and> wi_State wi = StateOpen \<and>
           wi_Severity wi = ir_Severity req \<and> apply_stmt (INSERT_work_item wi) (w_pg w) = Some (w_pg w4)
         else w_pg w4 = w_pg w"
        using Resolve_batch [OF r [unfolded None]] s3 keeps
        by (simp_all add: sg_def NewSignal_def same_stores_def split: if_splits)
      have sig: "signal_of req sg'" "sig_Severity sg' = ir_Severity req" "sig_WorkItemID sg' = i"
          "sig_ComponentID sg' = ir_ComponentID req"
        using u keeps by (simp_all add: signal_of_def sg'_def sg_def NewSignal_def)
      note run = batch_one_run [OF v [unfolded vN] f sg_def r [unfolded None] q [unfolded sg'_def], folded sg'_def]
      show ?thesis
      proof (cases ok)
        case True
        with run assms R q sig valid vN show ?thesis by (intro accepted [of sg' new]) auto
      next
        case False
        with run assms q sig valid vN show ?thesis by (intro full [of sg']) auto
      qed
    qed
  qed
qed

end

subsection \<open>The invariant of ingestion\<close>

text \<open>
  The debounce entries name work items of their component, the queue is within its capacity, and
  every signal in it is linked to an existing work item of its component.
\<close>

definition handler_ok :: "Handler \<Rightarrow> 'o world \<Rightarrow> bool" where
  "handler_ok h w \<longleftrightarrow> refs_ok (h_debouncer h) w \<and> list_all (linked_signal (w_pg w)) (q_ch (h_queue h)) \<and>
     Len (h_queue h) \<le> Cap (h_queue h)"

lemma handler_ok_mono:
  assumes "handler_ok h w" and "items_kept (w_pg w) (w_pg w')"
    and "\<And>c. w_redis w' (debounceKey c) = w_redis w (debounceKey c)"
    and "h_debouncer h' = h_debouncer h" "h_queue h' = h_queue h"
  shows "handler_ok h' w'"
  using assms refs_ok_mono [of "h_debouncer h" w w']
  by (auto simp: handler_ok_def list_all_iff intro: linked_signal_kept)

lemma handler_ok_same:
  "handler_ok h w \<Longrightarrow> same_stores w w' \<Longrightarrow> h_debouncer h' = h_debouncer h \<Longrightarrow> h_queue h' = h_queue h \<Longrightarrow>
     handler_ok h' w'"
  by (rule handler_ok_mono) (auto simp: same_stores_def)

lemma TryEnqueue_handler:
  assumes "handler_ok h w" and "refs_ok d w'" and "items_kept (w_pg w) (w_pg w')"
    and "TryEnqueue s (h_queue h) = (ok, q)" and "linked_signal (w_pg w') s"
    and "h_debouncer h' = d" "h_queue h' = q"
  shows "handler_ok h' w'"
proof -
  have "list_all (linked_signal (w_pg w')) (q_ch (h_queue h))"
    using assms(1,3) by (auto simp: handler_ok_def list_all_iff intro: linked_signal_kept)
  moreover have "q_ch q = (if ok then q_ch (h_queue h) @ [s] else q_ch (h_queue h))"
      "ok \<longleftrightarrow> length (q_ch (h_queue h)) < nat (sint (q_capacity (h_queue h)))"
      "q_capacity q = q_capacity (h_queue h)"
    using sq.put_cases [OF assms(4)] TryEnqueue_counts [OF assms(4)] by auto
  ultimately show ?thesis
    using assms by (auto simp: handler_ok_def Len_def Cap_def)
qed

definition ingest_inv :: "Handler \<Rightarrow> 'o world \<Rightarrow> bool" where
  "ingest_inv h w \<longleftrightarrow> handler_ok h w \<and> lifecycle_ok (w_pg w)"

context item_creator
begin

text \<open>
  Both endpoints do the same after \<open>Resolve\<close>: on an error only the debouncer is updated, otherwise
  the signal, linked to the answer, is offered to the queue.
\<close>

lemma resolve_then_enqueue:
  assumes "ingest_inv h w" and "same_stores w w1"
    and "Resolve E s fn (h_debouncer h) w1 = (((i, new, err), x), d, w')"
    and "h_debouncer h' = d"
    and "case err of Some e \<Rightarrow> h_queue h' = h_queue h
       | None \<Rightarrow> \<exists>ok s'. TryEnqueue s' (h_queue h) = (ok, h_queue h') \<and> sig_WorkItemID s' = i \<and>
           sig_ComponentID s' = sig_ComponentID s"
  shows "ingest_inv h' w' \<and> items_kept (w_pg w) (w_pg w') \<and> w_mongo w' = w_mongo w"
proof -
  have h1: "handler_ok h w1" and l1: "lifecycle_ok (w_pg w1)" and eq: "w_pg w1 = w_pg w" "w_mongo w1 = w_mongo w"
    using assms(1,2) handler_ok_same [of h w w1 h] by (auto simp: ingest_inv_def same_stores_def)
  have "refs_ok (h_debouncer h) w1" using h1 by (simp add: handler_ok_def)
  note R = Resolve_refs [OF this assms(3)]
  have life: "lifecycle_ok (w_pg w')" using R l1 lifecycle_insert_item by auto
  have "handler_ok h' w'"
  proof (cases err)
    case (Some e)
    with assms(5) have "h_queue h' = h_queue h" by simp
    moreover have "list_all (linked_signal (w_pg w')) (q_ch (h_queue h))"
      using h1 R by (auto simp: handler_ok_def list_all_iff intro: linked_signal_kept)
    ultimately show ?thesis using h1 R assms(4) by (auto simp: handler_ok_def)
  next
    case None
    with assms(5) obtain ok s' where q: "TryEnqueue s' (h_queue h) = (ok, h_queue h')"
        "sig_WorkItemID s' = i" "sig_ComponentID s' = sig_ComponentID s" by auto
    with R None have "linked_signal (w_pg w') s'" by (simp add: linked_signal_def)
    with R h1 q(1) assms(4) show ?thesis
      by (intro TryEnqueue_handler [of h w1 d w' s' ok "h_queue h'" h']) auto
  qed
  with R life eq show ?thesis by (auto simp: ingest_inv_def)
qed

end

context backend
begin

lemma ingest_valid_inv:
  assumes "ingest_inv h w" and "ingest_valid E hs req h w = (resp, h', w')"
  shows "ingest_inv h' w' \<and> items_kept (w_pg w) (w_pg w') \<and> w_mongo w' = w_mongo w"
proof -
  obtain u w1 t w2 where f: "uuid_New E w = (u, w1)" "time_Now E w1 = (t, w2)" by (metis surj_pair)
  then have s2: "same_stores w w2" using uuid_New_frame time_Now_frame same_stores_trans by metis
  let ?sg = "NewSignal u t (ir_ComponentID req) (ir_ComponentType req) (ir_Message req) (ir_Severity req) (ir_Metadata req)"
  obtain i new err x d w3 where r: "Resolve E ?sg (new_item_single E ?sg) (h_debouncer h) w2 = (((i, new, err), x), d, w3)"
    by (metis surj_pair)
  have "w' = w3" "h_debouncer h' = d"
    using assms(2) f r by (auto simp: ingest_valid_def Let_def split: option.splits prod.splits bool.splits)
  moreover have "case err of Some e \<Rightarrow> h_queue h' = h_queue h
       | None \<Rightarrow> \<exists>ok s'. TryEnqueue s' (h_queue h) = (ok, h_queue h') \<and> sig_WorkItemID s' = i \<and>
           sig_ComponentID s' = sig_ComponentID ?sg"
  proof (cases err)
    case (Some e)
    with assms(2) f r show ?thesis by (auto simp: ingest_valid_def Let_def)
  next
    case None
    let ?s = "?sg\<lparr>sig_Severity := case x of Some wi \<Rightarrow> wi_Severity wi | None \<Rightarrow> sig_Severity ?sg, sig_WorkItemID := i\<rparr>"
    obtain ok q where q: "TryEnqueue ?s (h_queue h) = (ok, q)" by fastforce
    with assms(2) f r None have "h_queue h' = q" by (cases ok) (auto simp: ingest_valid_def Let_def)
    with q None show ?thesis by (auto intro!: exI [of _ ok] exI [of _ ?s])
  qed
  ultimately show ?thesis using single.resolve_then_enqueue [OF assms(1) s2 r] by simp
qed

lemma batch_one_inv:
  assumes "ingest_inv h w" and "batch_one E req h w = (r, h', w')"
  shows "ingest_inv h' w' \<and> items_kept (w_pg w) (w_pg w') \<and> w_mongo w' = w_mongo w"
proof -
  obtain ve rq w1 where v: "validateIngestRequest E req w = ((ve, rq), w1)" by (metis surj_pair)
  have s1: "same_stores w w1" by (rule validate_frame [OF v])
  show ?thesis
  proof (cases ve)
    case (Some e)
    with v assms(2) have "h' = h" "w' = w1" by (auto simp: batch_one_def)
    with s1 assms(1) handler_ok_same [of h w w1 h] show ?thesis by (auto simp: ingest_inv_def same_stores_def)
  next
    case vN: None
    obtain u w2 t w3 where f: "uuid_New E w1 = (u, w2)" "time_Now E w2 = (t, w3)" by (metis surj_pair)
    then have s3: "same_stores w w3" using s1 uuid_New_frame time_Now_frame same_stores_trans by metis
    let ?sg = "NewSignal u t (ir_ComponentID rq) (ir_ComponentType rq) (ir_Message rq) (ir_Severity rq) (ir_Metadata rq)"
    obtain i new err x d w4 where rs: "Resolve E ?sg (new_item_batch E ?sg) (h_debouncer h) w3 = (((i, new, err), x), d, w4)"
      by (metis surj_pair)
    have "w' = w4" "h_debouncer h' = d"
      using assms(2) v vN f rs by (auto simp: batch_one_def Let_def split: option.splits prod.splits bool.splits)
    moreover have "case err of Some e \<Rightarrow> h_queue h' = h_queue h
         | None \<Rightarrow> \<exists>ok s'. TryEnqueue s' (h_queue h) = (ok, h_queue h') \<and> sig_WorkItemID s' = i \<and>
             sig_ComponentID s' = sig_ComponentID ?sg"
    proof (cases err)
      case (Some e)
      with assms(2) v vN f rs show ?thesis by (auto simp: batch_one_def Let_def)
    next
      case None
      obtain ok q where q: "TryEnqueue (?sg\<lparr>sig_WorkItemID := i\<rparr>) (h_queue h) = (ok, q)" by fastforce
      with assms(2) v vN f rs None have "h_queue h' = q" by (cases ok) (auto simp: batch_one_def Let_def)
      with q None show ?thesis by (auto intro!: exI [of _ ok] exI [of _ "?sg\<lparr>sig_WorkItemID := i\<rparr>"])
    qed
    ultimately show ?thesis using batch.resolve_then_enqueue [OF assms(1) s3 rs] by simp
  qed
qed

lemma batch_loop_inv:
  "ingest_inv h w \<Longrightarrow> batch_loop E reqs rs h w = (rs', h', w') \<Longrightarrow>
     ingest_inv h' w' \<and> items_kept (w_pg w) (w_pg w') \<and> w_mongo w' = w_mongo w"
proof (induction reqs arbitrary: rs h w)
  case (Cons req reqs)
  obtain r h1 w1 where b: "batch_one E req h w = (r, h1, w1)" by (metis surj_pair)
  with Cons.prems(2) have "batch_loop E reqs (rs @ [r]) h1 w1 = (rs', h', w')" by simp
  with Cons.IH batch_one_inv [OF Cons.prems(1) b] show ?case by (metis items_kept_trans)
qed simp

lemma ingest_inv_same:
  "ingest_inv h w \<Longrightarrow> same_stores w w' \<Longrightarrow> ingest_inv (h\<lparr>h_rateLimiter := rl\<rparr>) w'"
  using handler_ok_same [of h w w' "h\<lparr>h_rateLimiter := rl\<rparr>"] by (simp add: ingest_inv_def same_stores_def)

lemma IngestSignal_inv:
  assumes "ingest_inv h w" and "IngestSignal E ip parsed h w = (resp, h', w')"
  shows "ingest_inv h' w' \<and> items_kept (w_pg w) (w_pg w') \<and> w_mongo w' = w_mongo w"
proof -
  obtain ok hs rl w1 where rl: "rate_limit E ip (h_rateLimiter h) w = ((ok, hs), rl, w1)" by (metis surj_pair)
  have s1: "same_stores w w1" by (rule rate_limit_frame [OF rl])
  consider "h' = h\<lparr>h_rateLimiter := rl\<rparr>" "same_stores w w'"
    | req1 w2 where "ingest_valid E hs req1 (h\<lparr>h_rateLimiter := rl\<rparr>) w2 = (resp, h', w')" "same_stores w w2"
    using assms(2) rl s1 by (auto simp: IngestSignal_def Let_def split: if_splits sum.splits prod.splits option.splits
        dest!: validate_frame intro: same_stores_trans)
  then show ?thesis
  proof cases
    case 1
    with assms(1) show ?thesis by (auto simp: same_stores_def intro: ingest_inv_same [unfolded same_stores_def])
  next
    case (2 req1 w2)
    from ingest_valid_inv [OF ingest_inv_same [OF assms(1) 2(2)] 2(1)] 2(2) show ?thesis
      by (simp add: same_stores_def)
  qed
qed

lemma IngestBatch_inv:
  assumes "ingest_inv h w" and "IngestBatch E ip parsed h w = (resp, h', w')"
  shows "ingest_inv h' w' \<and> items_kept (w_pg w) (w_pg w') \<and> w_mongo w' = w_mongo w"
proof -
  obtain ok hs rl w1 where rl: "rate_limit E ip (h_rateLimiter h) w = ((ok, hs), rl, w1)" by (metis surj_pair)
  have s1: "same_stores w w1" by (rule rate_limit_frame [OF rl])
  consider "h' = h\<lparr>h_rateLimiter := rl\<rparr>" "w' = w1"
    | reqs rs where "batch_loop E reqs [] (h\<lparr>h_rateLimiter := rl\<rparr>) w1 = (rs, h', w')"
    using assms(2) rl by (auto simp: IngestBatch_def Let_def split: if_splits sum.splits prod.splits)
  then show ?thesis
  proof cases
    case 1
    with assms(1) s1 show ?thesis using ingest_inv_same [OF assms(1) s1] by (simp add: same_stores_def)
  next
    case (2 reqs rs)
    from batch_loop_inv [OF ingest_inv_same [OF assms(1) s1] 2] s1 show ?thesis
      by (simp add: same_stores_def)
  qed
qed

lemma batch_one_taken:
  assumes "batch_one E req h w = (r, h', w')"
  shows "\<exists>ss. q_ch (h_queue h') = q_ch (h_queue h) @ ss \<and> batch_taken [r] ss \<and>
    (br_SignalID r \<noteq> [] \<longrightarrow> valid_request req)"
  using assms
proof (cases rule: batch_one_cases)
  case (rejected e)
  then show ?thesis by (intro exI [of _ "[]"]) (simp add: batch_taken_def error_result_def)
next
  case (full s)
  then show ?thesis using sq.put_cases [OF full(4)]
    by (intro exI [of _ "[]"]) (simp add: batch_taken_def error_result_def)
next
  case (accepted s new)
  then show ?thesis using sq.put_cases [OF accepted(5)]
    by (intro exI [of _ "[s]"]) (simp add: batch_taken_def signal_of_def)
qed

lemma batch_loop_results:
  "batch_loop E reqs rs h w = (rs', h', w') \<Longrightarrow>
     \<exists>new ss. rs' = rs @ new \<and> q_ch (h_queue h') = q_ch (h_queue h) @ ss \<and> batch_taken new ss \<and>
       list_all2 (\<lambda>req r. br_SignalID r \<noteq> [] \<longrightarrow> valid_request req) reqs new"
proof (induction reqs arbitrary: rs h w)
  case Nil
  then show ?case by (simp add: batch_taken_def)
next
  case (Cons req reqs)
  obtain r h1 w1 where b: "batch_one E req h w = (r, h1, w1)" by (metis surj_pair)
  with Cons.prems have "batch_loop E reqs (rs @ [r]) h1 w1 = (rs', h', w')" by simp
  from Cons.IH [OF this] obtain new ss where IH: "rs' = (rs @ [r]) @ new"
      "q_ch (h_queue h') = q_ch (h_queue h1) @ ss" "batch_taken new ss"
      "list_all2 (\<lambda>req r. br_SignalID r \<noteq> [] \<longrightarrow> valid_request req) reqs new" by blast
  from batch_one_taken [OF b] obtain s1 where one: "q_ch (h_queue h1) = q_ch (h_queue h) @ s1"
      "batch_taken [r] s1" "br_SignalID r \<noteq> [] \<longrightarrow> valid_request req" by blast
  have "batch_taken (r # new) (s1 @ ss)"
    using one(2) IH(3) by (auto simp: batch_taken_def split: if_splits)
  with IH one show ?case by (intro exI [of _ "r # new"] exI [of _ "s1 @ ss"]) simp
qed

end

subsection \<open>Properties\<close>


definition ex_request :: IngestRequest where
  "ex_request = \<lparr>ir_ComponentID = ''db-1'', ir_ComponentType = ComponentRDBMS, ir_Message = ''timeout'',
     ir_Severity = SeverityP2, ir_Metadata = None\<rparr>"

abbreviation ex_handler :: Handler where
  "ex_handler \<equiv> NewHandler (queue_New 2)"


text \<open>
  C9. Accepted signals. A 202 answer means: the request was valid; exactly one signal, carrying the
  request's data, has been appended to the queue; it is linked to an existing work item of its
  component, which is the one in the answer and the one the debouncer now remembers. If the answer
  says "not debounced", that work item has just been inserted, OPEN and with the severity of the
  component type, and its alert is pending; if it says "debounced", no work item was inserted and no
  alert is sent.
\<close>

theorem IngestSignal_accepts:
  assumes "backend E" and "ingest_inv h w"
    and "IngestSignal E ip (Inr req) h w = (resp, h', w')" and "rsp_status resp = StatusAccepted"
  shows "\<exists>s created. valid_request req \<and> signal_of req s \<and>
    rsp_body resp = IngestBody \<lparr>resp_SignalID = sig_ID s, resp_WorkItemID = sig_WorkItemID s,
                               resp_Debounced = (created = None)\<rparr> \<and>
    q_ch (h_queue h') = q_ch (h_queue h) @ [s] \<and> linked_signal (w_pg w') s \<and>
    linked (h_debouncer h') (sig_ComponentID s) = Some (sig_WorkItemID s) \<and>
    h_tasks h' = h_tasks h @ alerts_for created @ [IncrementCounter] \<and>
    (case created of
       None \<Rightarrow> w_pg w' = w_pg w \<and> sig_Severity s = ir_Severity req
     | Some wi \<Rightarrow> opened_for s wi \<and> apply_stmt (INSERT_work_item wi) (w_pg w) = Some (w_pg w'))"
proof -
  obtain ok hs rl w1 where rl: "rate_limit E ip (h_rateLimiter h) w = ((ok, hs), rl, w1)" by (metis surj_pair)
  obtain e rq w2 where v: "validateIngestRequest E req w1 = ((e, rq), w2)" by (metis surj_pair)
  have s2: "same_stores w w2" using rate_limit_frame [OF rl] validate_frame [OF v] by (rule same_stores_trans)
  from assms(3,4) rl v have ok: "ok" "e = None" and
    run: "ingest_valid E hs rq (h\<lparr>h_rateLimiter := rl\<rparr>) w2 = (resp, h', w')"
    by (auto simp: IngestSignal_def Let_def split: if_splits option.splits)
  have valid: "valid_request req" using validate_iff [OF v] ok by simp
  note keeps = validate_keeps [OF v]
  show ?thesis
    using run
  proof (cases rule: backend.ingest_valid_cases [OF assms(1), consumes 1, case_names failed full accepted])
    case (accepted s created)
    have "ingest_inv h' w'"
      using backend.IngestSignal_inv [OF assms(1,2,3)] by simp
    moreover have "q_ch (h_queue h') = q_ch (h_queue h) @ [s]"
      using sq.put_cases [OF accepted(3)] by simp
    ultimately have "linked_signal (w_pg w') s" by (simp add: ingest_inv_def handler_ok_def)
    with accepted valid keeps s2 \<open>q_ch (h_queue h') = q_ch (h_queue h) @ [s]\<close> show ?thesis
      by (intro exI [of _ s] exI [of _ created])
        (auto simp: signal_of_def accepted_response_def same_stores_def split: option.splits)
  qed (use assms(4) in auto)
qed

lemma ingest_inv_start: "ingest_inv (NewHandler (queue_New c)) (ref_world t fs)" if "c < 2 ^ 63"
  using queue_New_cap [OF that]
  by (auto simp: ingest_inv_def handler_ok_def refs_ok_def NewHandler_def ref_world_def lifecycle_empty
      queue_New_def Len_def Cap_def Let_def)

theorem IngestSignal_accepts_witness:
  "\<exists>s wi h' w' resp. IngestSignal ref_env ''ip'' (Inr ex_request) ex_handler (ref_world 5 [True]) = (resp, h', w') \<and>
     q_ch (h_queue h') = [s] \<and> opened_for s wi \<and> h_tasks h' = [DispatchAlert wi, IncrementCounter]"
proof -
  let ?run = "IngestSignal ref_env ''ip'' (Inr ex_request) ex_handler (ref_world 5 [True])"
  have st: "rsp_status (fst ?run) = StatusAccepted" by code_simp
  have b: "rsp_body (fst ?run) = IngestBody \<lparr>resp_SignalID = ''uuid-1'', resp_WorkItemID = ''uuid-2'', resp_Debounced = False\<rparr>"
    by code_simp
  obtain resp h' w' where r: "?run = (resp, h', w')" by (metis surj_pair)
  have inv: "ingest_inv ex_handler (ref_world 5 [True])" by (rule ingest_inv_start) simp
  have st': "rsp_status resp = StatusAccepted" using st r by simp
  from IngestSignal_accepts [OF ref.backend_axioms inv r st'] obtain s created where
      c: "rsp_body resp = IngestBody \<lparr>resp_SignalID = sig_ID s, resp_WorkItemID = sig_WorkItemID s, resp_Debounced = (created = None)\<rparr>"
      "q_ch (h_queue h') = q_ch (h_queue ex_handler) @ [s]" "h_tasks h' = h_tasks ex_handler @ alerts_for created @ [IncrementCounter]"
      "case created of None \<Rightarrow> w_pg w' = w_pg (ref_world 5 [True]) \<and> sig_Severity s = ir_Severity ex_request
        | Some wi \<Rightarrow> opened_for s wi \<and> apply_stmt (INSERT_work_item wi) (w_pg (ref_world 5 [True])) = Some (w_pg w')"
    by blast
  with b r obtain wi where "created = Some wi" by auto
  with c r show ?thesis
    by (intro exI [of _ s] exI [of _ wi] exI [of _ h'] exI [of _ w'] exI [of _ resp])
      (simp add: NewHandler_def queue_New_def alerts_for_def Let_def)
qed

text \<open>
  Back-pressure. While the queue is full no signal is accepted: the answer is not 202 and the
  content of the queue does not change.
\<close>

theorem IngestSignal_full:
  assumes "backend E" and "Cap (h_queue h) \<le> Len (h_queue h)"
    and "IngestSignal E ip parsed h w = (resp, h', w')"
  shows "rsp_status resp \<noteq> StatusAccepted \<and> q_ch (h_queue h') = q_ch (h_queue h)"
proof -
  obtain ok hs rl w1 where rl: "rate_limit E ip (h_rateLimiter h) w = ((ok, hs), rl, w1)" by (metis surj_pair)
  consider "rsp_status resp \<noteq> StatusAccepted" "h_queue h' = h_queue h"
    | rq w2 where "ingest_valid E hs rq (h\<lparr>h_rateLimiter := rl\<rparr>) w2 = (resp, h', w')"
    using assms(3) rl by (auto simp: IngestSignal_def Let_def split: if_splits sum.splits prod.splits option.splits)
  then show ?thesis
  proof cases
    case (2 rq w2)
    then show ?thesis
    proof (cases rule: backend.ingest_valid_cases [OF assms(1), consumes 1, case_names failed full accepted])
      case (full s created)
      then show ?thesis using sq.put_cases [OF full(3)] by simp
    next
      case (accepted s created)
      then show ?thesis using assms(2) by (simp add: TryEnqueue_def Len_def Cap_def split: if_splits)
    qed simp
  qed simp
qed

definition ex_signal :: Signal where
  "ex_signal = NewSignal ''s1'' 5 ''db-1'' ComponentRDBMS ''timeout'' SeverityP0 None"

theorem IngestSignal_full_witness:
  "rsp_status (fst (IngestSignal ref_env ''ip'' (Inr ex_request)
     (NewHandler (snd (TryEnqueue ex_signal (queue_New 1)))) (ref_world 5 []))) \<noteq> StatusAccepted"
proof -
  have "Cap (h_queue (NewHandler (snd (TryEnqueue ex_signal (queue_New 1))))) \<le>
      Len (h_queue (NewHandler (snd (TryEnqueue ex_signal (queue_New 1)))))" by code_simp
  from IngestSignal_full [OF ref.backend_axioms this] show ?thesis by (metis prod.collapse)
qed

text \<open>
  C23. Batches. A batch of at most 100 requests that passes the limiter is answered with one result
  per request, in order; the signals appended to the queue are exactly those of the results that
  carry a signal identifier, in order and with the work items reported, and each of them comes from a
  valid request. A larger batch is refused and has no effect.
\<close>

theorem IngestBatch_results:
  assumes "backend E" and "IngestBatch E ip (Inr reqs) h w = (resp, h', w')"
  shows "(case rsp_body resp of
     BatchBody rs \<Rightarrow> length reqs \<le> 100 \<and> rsp_status resp = StatusAccepted \<and>
       (\<exists>ss. q_ch (h_queue h') = q_ch (h_queue h) @ ss \<and> batch_taken rs ss) \<and>
       list_all2 (\<lambda>req r. br_SignalID r \<noteq> [] \<longrightarrow> valid_request req) reqs rs
   | _ \<Rightarrow> rsp_status resp \<in> {StatusBadRequest, StatusTooManyRequests} \<and> same_stores w w' \<and>
       h' = h\<lparr>h_rateLimiter := h_rateLimiter h'\<rparr>)"
proof -
  obtain ok hs rl w1 where rl: "rate_limit E ip (h_rateLimiter h) w = ((ok, hs), rl, w1)" by (metis surj_pair)
  have s1: "same_stores w w1" by (rule rate_limit_frame [OF rl])
  obtain rs h2 w2 where b: "batch_loop E reqs [] (h\<lparr>h_rateLimiter := rl\<rparr>) w1 = (rs, h2, w2)" by (metis surj_pair)
  show ?thesis
  proof (cases "ok \<and> length reqs \<le> 100")
    case True
    then have "resp = reply StatusAccepted hs (BatchBody rs)" "h' = h2"
      using assms(2) rl b by (simp_all add: IngestBatch_def Let_def)
    with backend.batch_loop_results [OF assms(1) b] True show ?thesis by auto
  next
    case False
    with assms(2) rl s1 show ?thesis by (auto simp: IngestBatch_def Let_def split: if_splits)
  qed
qed

theorem IngestBatch_results_witness:
  "\<exists>rs. rsp_body (fst (IngestBatch ref_env ''ip'' (Inr [ex_request, ex_request\<lparr>ir_Message := []\<rparr>, ex_request]) ex_handler
       (ref_world 5 []))) = BatchBody rs \<and> length rs = 3"
proof -
  let ?reqs = "[ex_request, ex_request\<lparr>ir_Message := []\<rparr>, ex_request]"
  let ?run = "IngestBatch ref_env ''ip'' (Inr ?reqs) ex_handler (ref_world 5 [])"
  have "case rsp_body (fst ?run) of BatchBody rs \<Rightarrow> True | _ \<Rightarrow> False" by code_simp
  then obtain rs where rs: "rsp_body (fst ?run) = BatchBody rs" by (auto split: body.splits)
  moreover obtain resp h' w' where "?run = (resp, h', w')" by (metis surj_pair)
  ultimately show ?thesis
    using IngestBatch_results [OF ref.backend_axioms, of "''ip''" ?reqs ex_handler "ref_world 5 []"]
    by (auto dest!: list_all2_lengthD)
qed

text \<open>
  Referential integrity of ingestion. Both endpoints keep the invariant: debounce entries, in
  process and in Redis, and queued signals refer to existing work items of their component, the queue
  stays within its capacity, and the life-cycle invariant of the tables holds; no work item is lost and
  the signal log is not touched. This holds on every path, failures of the stores included.
\<close>

theorem ingestion_keeps_invariant:
  assumes "backend E" and "ingest_inv h w"
    and "IngestSignal E ip parsed h w = (resp, h', w') \<or> IngestBatch E ip parsed' h w = (resp, h', w')"
  shows "ingest_inv h' w' \<and> items_kept (w_pg w) (w_pg w') \<and> w_mongo w' = w_mongo w"
  using assms(3) backend.IngestSignal_inv [OF assms(1,2)] backend.IngestBatch_inv [OF assms(1,2)] by blast

theorem ingestion_keeps_invariant_witness:
  "\<exists>resp h' w'. IngestBatch ref_env ''ip'' (Inr [ex_request]) ex_handler (ref_world 5 [True, True]) = (resp, h', w') \<and>
     ingest_inv h' w'"
proof -
  obtain resp h' w' where r: "IngestBatch ref_env ''ip'' (Inr [ex_request]) ex_handler (ref_world 5 [True, True]) = (resp, h', w')"
    by (metis surj_pair)
  have "ingest_inv ex_handler (ref_world 5 [True, True])" by (rule ingest_inv_start) simp
  from ingestion_keeps_invariant [OF ref.backend_axioms this disjI2 [OF r]] r show ?thesis by blast
qed

end
