(* ===== verification/Concurrency.thy ===== *)
theory Concurrency
  imports Ingestion
begin

text \<open>
  Requests that overlap. Fiber runs each handler in its own goroutine, and neither \<open>Debouncer.Resolve\<close>
  nor \<open>Machine.Transition\<close> holds a lock or a transaction over its steps. Both are split here at their
  calls to shared state: a step is one access to the map or one call to a store, a schedule says which
  request moves next. Run alone, the steps are the function of the source; interleaved, some
  guarantees survive and others do not, and both are proved.
\<close>

subsection \<open>\<open>Resolve\<close> step by step\<close>

datatype resolve_pc =
    At_local
  | At_redis
  | At_found string
  | At_create
  | At_set WorkItem
  | At_store string
  | Finished "string \<times> bool \<times> go_error option"

fun resolve_step ::
  "'o ext \<Rightarrow> Signal \<Rightarrow> ('o world \<Rightarrow> (go_error + WorkItem \<times> 'x) \<times> 'o world) \<Rightarrow> resolve_pc \<Rightarrow>
   Debouncer \<times> 'o world \<Rightarrow> resolve_pc \<times> Debouncer \<times> 'o world" where
  "resolve_step E s fn At_local (d, w) =
     (case db_local d (sig_ComponentID s) of
        Some entry \<Rightarrow> (Finished (de_workItemID entry, False, None), d, w)
      | None \<Rightarrow> (At_redis, d, w))"
| "resolve_step E s fn At_redis (d, w) =
     (case GetDebounceEntry E (sig_ComponentID s) w of ((existingID, err), w1) \<Rightarrow>
        (if existingID \<noteq> [] then At_found existingID else At_create, d, w1))"
| "resolve_step E s fn (At_found i) (d, w) =
     (Finished (i, False, None), local_Store (sig_ComponentID s) i d, w)"
| "resolve_step E s fn At_create (d, w) =
     (case fn w of
        (Inl e, w1) \<Rightarrow> (Finished ([], False, Some e), d, w1)
      | (Inr (wi, x), w1) \<Rightarrow> (At_set wi, d, w1))"
| "resolve_step E s fn (At_set wi) (d, w) =
     (case SetDebounceEntry E (sig_ComponentID s) (wi_ID wi) w of (redisErr, w1) \<Rightarrow> (At_store (wi_ID wi), d, w1))"
| "resolve_step E s fn (At_store i) (d, w) =
     (Finished (i, True, None), local_Store (sig_ComponentID s) i d, w)"
| "resolve_step E s fn (Finished r) (d, w) = (Finished r, d, w)"

fun resolve_steps ::
  "'o ext \<Rightarrow> Signal \<Rightarrow> ('o world \<Rightarrow> (go_error + WorkItem \<times> 'x) \<times> 'o world) \<Rightarrow> nat \<Rightarrow>
   resolve_pc \<times> Debouncer \<times> 'o world \<Rightarrow> resolve_pc \<times> Debouncer \<times> 'o world" where
  "resolve_steps E s fn 0 c = c"
| "resolve_steps E s fn (Suc n) (pc, d, w) = resolve_steps E s fn n (resolve_step E s fn pc (d, w))"

lemma resolve_steps_finished [simp]: "resolve_steps E s fn n (Finished r, d, w) = (Finished r, d, w)"
  by (induction n) auto

subsection \<open>Requests that overlap\<close>

text \<open>The requests by their signals; each creates work items as \<open>IngestSignal\<close> does.\<close>

record 'o race =
  rc_pcs :: "resolve_pc list"
  rc_debouncer :: Debouncer
  rc_world :: "'o world"

definition race_move :: "'o ext \<Rightarrow> Signal list \<Rightarrow> nat \<Rightarrow> 'o race \<Rightarrow> 'o race" where
  "race_move E ss i c =
     (if i < length ss \<and> i < length (rc_pcs c) then
        (case resolve_step E (ss ! i) (new_item_single E (ss ! i)) (rc_pcs c ! i) (rc_debouncer c, rc_world c) of
           (pc, d, w) \<Rightarrow> \<lparr>rc_pcs = (rc_pcs c)[i := pc], rc_debouncer = d, rc_world = w\<rparr>)
      else c)"

fun race_run :: "'o ext \<Rightarrow> Signal list \<Rightarrow> nat list \<Rightarrow> 'o race \<Rightarrow> 'o race" where
  "race_run E ss [] c = c"
| "race_run E ss (i # is) c = race_run E ss is (race_move E ss i c)"

definition race_start :: "Signal list \<Rightarrow> Debouncer \<Rightarrow> 'o world \<Rightarrow> 'o race" where
  "race_start ss d w = \<lparr>rc_pcs = replicate (length ss) At_local, rc_debouncer = d, rc_world = w\<rparr>"

text \<open>What a request at a program point may rely on.\<close>

fun pc_ok :: "pg_db \<Rightarrow> string \<Rightarrow> resolve_pc \<Rightarrow> bool" where
  "pc_ok db c (At_found i) = item_of db i c"
| "pc_ok db c (At_set wi) = item_of db (wi_ID wi) c"
| "pc_ok db c (At_store i) = item_of db i c"
| "pc_ok db c (Finished (i, new, err)) = (err = None \<longrightarrow> item_of db i c)"
| "pc_ok db c _ = True"

lemma pc_ok_kept: "pc_ok db c pc \<Longrightarrow> items_kept db db' \<Longrightarrow> pc_ok db' c pc"
  by (cases "(db, c, pc)" rule: pc_ok.cases) (auto simp: items_kept_def)

context item_creator
begin

lemma resolve_step_ok:
  assumes "resolve_step E s fn pc (d, w) = (pc', d', w')" and "refs_ok d w" and "pc_ok (w_pg w) (sig_ComponentID s) pc"
  shows "refs_ok d' w' \<and> pc_ok (w_pg w') (sig_ComponentID s) pc' \<and> items_kept (w_pg w) (w_pg w') \<and> w_mongo w' = w_mongo w"
proof (cases pc)
  case At_local
  with assms show ?thesis by (auto simp: refs_ok_def linked_def split: option.splits)
next
  case At_redis
  obtain i err w1 where g: "GetDebounceEntry E (sig_ComponentID s) w = ((i, err), w1)" by (metis surj_pair)
  have s1: "same_stores w w1" by (rule GetDebounceEntry_frame [OF g])
  with At_redis assms g get_entry_item [OF assms(2) g] refs_ok_same [OF assms(2) s1] show ?thesis
    by (auto simp: same_stores_def)
next
  case (At_found i)
  with assms show ?thesis by (auto intro: refs_ok_local_Store)
next
  case At_create
  obtain r w1 where f: "fn w = (r, w1)" by fastforce
  show ?thesis
  proof (cases r)
    case (Inl e)
    with f fn_err [of w e w1] have k: "items_kept (w_pg w) (w_pg w1)" "w_mongo w1 = w_mongo w" "w_redis w1 = w_redis w"
      by (auto intro: items_kept_apply)
    with At_create assms f Inl refs_ok_mono [OF assms(2) k(1)] show ?thesis by auto
  next
    case (Inr p)
    obtain wi x where p: "p = (wi, x)" by (cases p)
    from fn_ok [OF f [unfolded Inr p]] have ok: "wi_ComponentID wi = sig_ComponentID s"
        "apply_stmt (INSERT_work_item wi) (w_pg w) = Some (w_pg w1)" "w_mongo w1 = w_mongo w"
        "\<And>c. w_redis w1 (debounceKey c) = w_redis w (debounceKey c)" by simp_all
    have kept: "items_kept (w_pg w) (w_pg w1)" using ok(2) by (rule items_kept_apply)
    have "item_of (w_pg w1) (wi_ID wi) (sig_ComponentID s)"
      using ok(1,2) item_of_inserted [of wi "w_pg w"] by (simp add: apply_stmt_Some_iff)
    with kept ok refs_ok_mono [OF assms(2) kept ok(4)] At_create assms(1) f Inr p show ?thesis by auto
  qed
next
  case (At_set wi)
  obtain e w1 where g: "SetDebounceEntry E (sig_ComponentID s) (wi_ID wi) w = (e, w1)" by fastforce
  with At_set assms set_entry_only [OF assms(2) g] SetDebounceEntry_frame [OF g] show ?thesis by auto
next
  case (At_store i)
  with assms show ?thesis by (auto intro: refs_ok_local_Store)
next
  case (Finished r)
  with assms show ?thesis by auto
qed

end

definition race_ok :: "Signal list \<Rightarrow> 'o race \<Rightarrow> bool" where
  "race_ok ss c \<longleftrightarrow> refs_ok (rc_debouncer c) (rc_world c) \<and> length (rc_pcs c) = length ss \<and>
     (\<forall>i < length ss. pc_ok (w_pg (rc_world c)) (sig_ComponentID (ss ! i)) (rc_pcs c ! i))"

context backend
begin

lemma race_move_ok:
  assumes "race_ok ss c"
  shows "race_ok ss (race_move E ss i c) \<and> items_kept (w_pg (rc_world c)) (w_pg (rc_world (race_move E ss i c)))"
proof (cases "i < length ss \<and> i < length (rc_pcs c)")
  case True
  obtain pc d w where st: "resolve_step E (ss ! i) (new_item_single E (ss ! i)) (rc_pcs c ! i) (rc_debouncer c, rc_world c) = (pc, d, w)"
    by (metis surj_pair)
  from single.resolve_step_ok [OF st] assms True have ok: "refs_ok d w" "pc_ok (w_pg w) (sig_ComponentID (ss ! i)) pc"
      "items_kept (w_pg (rc_world c)) (w_pg w)" by (auto simp: race_ok_def)
  have "pc_ok (w_pg w) (sig_ComponentID (ss ! j)) ((rc_pcs c)[i := pc] ! j)" if "j < length ss" for j
    using assms that ok True pc_ok_kept [OF _ ok(3)] by (cases "j = i") (auto simp: race_ok_def)
  with ok assms True st show ?thesis by (simp add: race_move_def race_ok_def)
qed (use assms in \<open>auto simp: race_move_def\<close>)

lemma race_run_ok:
  "race_ok ss c \<Longrightarrow> race_ok ss (race_run E ss sched c) \<and>
     items_kept (w_pg (rc_world c)) (w_pg (rc_world (race_run E ss sched c)))"
proof (induction sched arbitrary: c)
  case (Cons i sched)
  with race_move_ok [OF Cons.prems, of i] show ?case by (auto intro: items_kept_trans)
qed simp

end

subsection \<open>\<open>Transition\<close> step by step\<close>

datatype transition_pc =
    T_read
  | T_precondition
  | T_update "float64 option"
  | T_invalidate
  | T_reread
  | T_finished "(go_error + WorkItem) outcome"

fun transition_step ::
  "'o ext \<Rightarrow> string \<Rightarrow> WorkItemState \<Rightarrow> transition_pc \<Rightarrow> 'o world \<Rightarrow> transition_pc \<times> 'o world" where
  "transition_step E i st T_read w =
     (case GetWorkItem E i w of
        (Inl e, w1) \<Rightarrow> (T_finished (Returned (Inl e)), w1)
      | (Inr wi, w1) \<Rightarrow>
          (case stateFor (wi_State wi) of
             Panicked p \<Rightarrow> (T_finished (Panicked p), w1)
           | Returned s \<Rightarrow>
               if \<not> CanTransitionTo s st
               then (T_finished (Returned (Inl (invalid_transition (wi_State wi) st (ValidTransitions s)))), w1)
               else (T_precondition, w1)))"
| "transition_step E i st T_precondition w =
     (case close_precondition E i st w of
        (Inl e, w1) \<Rightarrow> (T_finished (Returned (Inl e)), w1)
      | (Inr mttr, w1) \<Rightarrow> (T_update mttr, w1))"
| "transition_step E i st (T_update mttr) w =
     (case UpdateWorkItemState E i st mttr w of
        (Some e, w1) \<Rightarrow> (T_finished (Returned (Inl (Wrapped ''workflow: persist transition: '' e []))), w1)
      | (None, w1) \<Rightarrow> (T_invalidate, w1))"
| "transition_step E i st T_invalidate w = (case InvalidateDashboard E w of (_, w1) \<Rightarrow> (T_reread, w1))"
| "transition_step E i st T_reread w =
     (case GetWorkItem E i w of
        (Inl e, w1) \<Rightarrow> (T_finished (Returned (Inl e)), w1)
      | (Inr u, w1) \<Rightarrow> (T_finished (Returned (Inr u)), w1))"
| "transition_step E i st (T_finished r) w = (T_finished r, w)"

fun transition_steps ::
  "'o ext \<Rightarrow> string \<Rightarrow> WorkItemState \<Rightarrow> nat \<Rightarrow> transition_pc \<times> 'o world \<Rightarrow> transition_pc \<times> 'o world" where
  "transition_steps E i st 0 c = c"
| "transition_steps E i st (Suc n) (pc, w) = transition_steps E i st n (transition_step E i st pc w)"

lemma transition_steps_finished [simp]: "transition_steps E i st n (T_finished r, w) = (T_finished r, w)"
  by (induction n) auto

text \<open>Several transitions of one item; a request is its target state.\<close>

definition trace_move ::
  "'o ext \<Rightarrow> string \<Rightarrow> WorkItemState list \<Rightarrow> nat \<Rightarrow> transition_pc list \<times> 'o world \<Rightarrow> transition_pc list \<times> 'o world" where
  "trace_move E i targets k c = (case c of (pcs, w) \<Rightarrow>
     if k < length targets \<and> k < length pcs
     then (case transition_step E i (targets ! k) (pcs ! k) w of (pc, w1) \<Rightarrow> (pcs[k := pc], w1))
     else (pcs, w))"

fun trace_run ::
  "'o ext \<Rightarrow> string \<Rightarrow> WorkItemState list \<Rightarrow> nat list \<Rightarrow> transition_pc list \<times> 'o world \<Rightarrow> transition_pc list \<times> 'o world" where
  "trace_run E i targets [] c = c"
| "trace_run E i targets (k # ks) c = trace_run E i targets ks (trace_move E i targets k c)"


subsection \<open>Properties\<close>

lemma resolve_refines:
  assumes "Resolve E s fn d w = ((r, x), d', w')"
  shows "resolve_steps E s fn 5 (At_local, d, w) = (Finished r, d', w')"
proof -
  have five: "5 = Suc (Suc (Suc (Suc (Suc 0))))" by simp
  obtain i new err where r: "r = (i, new, err)" by (cases r)
  from assms [unfolded r] show ?thesis
  proof (cases rule: Resolve_cases)
    case hit
    then show ?thesis unfolding five r by (auto simp: linked_def)
  next
    case (redis e)
    then show ?thesis unfolding five r by (auto simp: linked_def)
  next
    case (failed e1 w1 e)
    then show ?thesis unfolding five r by (auto simp: linked_def)
  next
    case (created e1 w1 wi y w2 e2)
    then show ?thesis unfolding five r by (auto simp: linked_def)
  qed
qed

lemma transition_refines:
  assumes "Transition E i st w = (out, w')"
  shows "transition_steps E i st 5 (T_read, w) = (T_finished out, w')"
proof -
  have five: "5 = Suc (Suc (Suc (Suc (Suc 0))))" by simp
  show ?thesis
    using assms unfolding five
    by (auto simp: Transition_def split: prod.splits sum.splits outcome.splits option.splits if_splits)
qed


text \<open>
  What survives concurrency in the debouncer. Under every schedule of any number of overlapping
  requests, debounce entries, in the map and in Redis, name existing work items of their component, every
  request that has finished without an error has answered with such an item, and no work item is lost.
\<close>

theorem race_keeps_references:
  assumes "backend E" and "refs_ok d w" and "c = race_run E ss sched (race_start ss d w)"
  shows "refs_ok (rc_debouncer c) (rc_world c) \<and> items_kept (w_pg w) (w_pg (rc_world c)) \<and>
    (\<forall>k < length ss. \<forall>i new. rc_pcs c ! k = Finished (i, new, None) \<longrightarrow>
       item_of (w_pg (rc_world c)) i (sig_ComponentID (ss ! k)))"
proof -
  have "race_ok ss (race_start ss d w)" using assms(2) by (simp add: race_ok_def race_start_def)
  from backend.race_run_ok [OF assms(1) this, of sched] assms(3)
  have "race_ok ss c" "items_kept (w_pg w) (w_pg (rc_world c))" by (auto simp: race_start_def)
  then show ?thesis by (fastforce simp: race_ok_def)
qed

definition ex_pair :: "Signal list" where
  "ex_pair = [ex_sig ''s1'', ex_sig ''s2'']"

theorem race_keeps_references_witness:
  "refs_ok (rc_debouncer (race_run ref_env ex_pair [0, 1, 0, 1] (race_start ex_pair NewDebouncer (ref_world 5 []))))
     (rc_world (race_run ref_env ex_pair [0, 1, 0, 1] (race_start ex_pair NewDebouncer (ref_world 5 []))))"
proof -
  have "refs_ok NewDebouncer (ref_world 5 [])" by (simp add: refs_ok_def ref_world_def)
  from race_keeps_references [OF ref.backend_axioms this refl, of ex_pair "[0, 1, 0, 1]"] show ?thesis by blast
qed

text \<open>
  C39. What does not survive: one work item per component. Two overlapping first signals of one component
  can both miss the map and Redis and each create a work item; both answers say "new", and the table
  ends up with two open items for the component.
\<close>

theorem race_two_items:
  "\<exists>sched i j. rc_pcs (race_run ref_env ex_pair sched (race_start ex_pair NewDebouncer (ref_world 5 []))) =
      [Finished (i, True, None), Finished (j, True, None)] \<and> i \<noteq> j \<and>
    map (\<lambda>r. (wi_ID r, wi_ComponentID r, wi_State r)) (t_work_items (w_pg (rc_world
      (race_run ref_env ex_pair sched (race_start ex_pair NewDebouncer (ref_world 5 [])))))) =
      [(i, ''db-1'', StateOpen), (j, ''db-1'', StateOpen)]"
proof -
  let ?c = "race_run ref_env ex_pair [0, 1, 0, 1, 0, 1, 0, 1, 0, 1] (race_start ex_pair NewDebouncer (ref_world 5 []))"
  have "rc_pcs ?c = [Finished (''uuid-0'', True, None), Finished (''uuid-1'', True, None)]" by code_simp
  moreover have "map (\<lambda>r. (wi_ID r, wi_ComponentID r, wi_State r)) (t_work_items (w_pg (rc_world ?c))) =
      [(''uuid-0'', ''db-1'', StateOpen), (''uuid-1'', ''db-1'', StateOpen)]" by code_simp
  ultimately show ?thesis
    by (intro exI [of _ "[0, 1, 0, 1, 0, 1, 0, 1, 0, 1]"] exI [of _ "''uuid-0''"] exI [of _ "''uuid-1''"]) simp
qed

text \<open>
  C37. A closed item can be reopened. \<open>Transition\<close> checks the state it has read and updates without a
  condition on the state: while one request to RESOLVED is between its check and its update, two others
  can resolve and close the item; the delayed update then overwrites CLOSED by RESOLVED, which leaves a
  row that is not closed with a closing time and a time to repair, outside the life-cycle invariant.
\<close>

theorem transition_lost_update:
  "\<exists>sched u. lifecycle_ok (w_pg (ex_world StateInvestigating [ex_rca] [])) \<and>
    row_with wi_ID ''w1'' (t_work_items (w_pg (snd (trace_run ref_env ''w1'' [StateResolved, StateResolved, StateClosed] sched
      (replicate 3 T_read, ex_world StateInvestigating [ex_rca] []))))) = Some u \<and>
    wi_State u = StateResolved \<and> wi_ClosedAt u \<noteq> None \<and>
    \<not> lifecycle_ok (w_pg (snd (trace_run ref_env ''w1'' [StateResolved, StateResolved, StateClosed] sched
      (replicate 3 T_read, ex_world StateInvestigating [ex_rca] []))))"
proof -
  let ?sched = "[0, 0, 1, 1, 1, 2, 2, 2, 0]"
  let ?w = "snd (trace_run ref_env ''w1'' [StateResolved, StateResolved, StateClosed] ?sched
      (replicate 3 T_read, ex_world StateInvestigating [ex_rca] []))"
  have "case row_with wi_ID ''w1'' (t_work_items (w_pg ?w)) of None \<Rightarrow> False
      | Some u \<Rightarrow> wi_State u = StateResolved \<and> wi_ClosedAt u \<noteq> None" by code_simp
  then obtain u where "row_with wi_ID ''w1'' (t_work_items (w_pg ?w)) = Some u" "wi_State u = StateResolved"
      "wi_ClosedAt u \<noteq> None" by (auto split: option.splits)
  moreover have "\<not> lifecycle_ok (w_pg ?w)" by code_simp
  moreover have "lifecycle_ok (w_pg (ex_world StateInvestigating [ex_rca] []))" by code_simp
  ultimately show ?thesis by (intro exI [of _ ?sched] exI [of _ u]) simp
qed

end
