(* ===== verification/Escalator.thy ===== *)
theory Escalator
  imports Workflow
begin

text \<open>
  \<open>workflow/escalator.go\<close>: the check that raises the severity of work items under investigation.
  \<open>Start\<close> runs \<open>runEscalationCheck\<close> on every tick until its context is cancelled; a tick is one
  call. The lemmas show what one check does to every row of the table, whatever the stores answer.
\<close>

definition escalationInterval :: duration where
  "escalationInterval = 60 * second"

definition p1EscalationAfter :: duration where
  "p1EscalationAfter = 30 * minute"

definition p0EscalationAfter :: duration where
  "p0EscalationAfter = 60 * minute"

definition computeEscalation :: "Severity \<Rightarrow> duration \<Rightarrow> Severity" where
  "computeEscalation current age =
     (if current = SeverityP2 then (if p1EscalationAfter \<le> age then SeverityP1 else current)
      else if current = SeverityP1 then (if p0EscalationAfter \<le> age then SeverityP0 else current)
      else current)"

text \<open>The loop over the active items; the result is the variable \<open>escalated\<close>.\<close>

fun escalate_loop :: "'o ext \<Rightarrow> go_time \<Rightarrow> WorkItem list \<Rightarrow> nat \<Rightarrow> 'o world \<Rightarrow> nat \<times> 'o world" where
  "escalate_loop E now [] escalated w = (escalated, w)"
| "escalate_loop E now (wi # items) escalated w =
     (if wi_State wi \<noteq> StateInvestigating then escalate_loop E now items escalated w
      else
        (let age = time_Sub now (wi_CreatedAt wi);
             newSeverity = computeEscalation (wi_Severity wi) age
         in if newSeverity = wi_Severity wi then escalate_loop E now items escalated w
            else (case UpdateWorkItemSeverity E (wi_ID wi) newSeverity w of
                (Some e, w1) \<Rightarrow> escalate_loop E now items escalated w1
              | (None, w1) \<Rightarrow>
                  (case InvalidateDashboard E w1 of (_, w2) \<Rightarrow>
                     escalate_loop E now items (escalated + 1) w2))))"

definition runEscalationCheck :: "'o ext \<Rightarrow> 'o world \<Rightarrow> nat \<times> 'o world" where
  "runEscalationCheck E w =
     (case ListActiveWorkItems E w of
        ((items, Some e), w1) \<Rightarrow> (0, w1)
      | ((items, None), w1) \<Rightarrow>
          (case time_Now E w1 of (now, w2) \<Rightarrow> escalate_loop E now items 0 w2))"

text \<open>The loop of \<open>Start\<close>: one event per iteration of the \<open>select\<close>.\<close>

datatype ticker_event = Tick | Ctx_done

fun Escalator_Start :: "'o ext \<Rightarrow> ticker_event list \<Rightarrow> 'o world \<Rightarrow> 'o world" where
  "Escalator_Start E [] w = w"
| "Escalator_Start E (Ctx_done # evs) w = w"
| "Escalator_Start E (Tick # evs) w = Escalator_Start E evs (snd (runEscalationCheck E w))"

subsection \<open>The severity ladder\<close>

lemma escalation_steps:
  assumes "sv \<in> set severities"
  shows "computeEscalation sv age \<in> set severities \<and> sev_rank (computeEscalation sv age) \<le> sev_rank sv \<and>
    sev_rank sv \<le> sev_rank (computeEscalation sv age) + 1"
  using assms by (auto simp: computeEscalation_def severities_def sev_rank_def)

lemma escalation_due:
  assumes "sv \<in> set severities"
  shows "computeEscalation sv age \<noteq> sv \<longleftrightarrow>
    sv = SeverityP2 \<and> 30 * minute \<le> age \<or> sv = SeverityP1 \<and> 60 * minute \<le> age"
  using assms by (auto simp: computeEscalation_def severities_def p1EscalationAfter_def p0EscalationAfter_def)

subsection \<open>One check\<close>

definition escalation_of :: "go_time \<Rightarrow> WorkItem \<Rightarrow> Severity" where
  "escalation_of now r = computeEscalation (wi_Severity r) (time_Sub now (wi_CreatedAt r))"

definition escalated_row :: "go_time \<Rightarrow> WorkItem \<Rightarrow> WorkItem \<Rightarrow> bool" where
  "escalated_row now r r' \<longleftrightarrow> r' = r \<or>
     wi_State r = StateInvestigating \<and> escalation_of now r \<noteq> wi_Severity r \<and>
     (\<exists>t. r' = r\<lparr>wi_Severity := escalation_of now r, wi_UpdatedAt := t\<rparr>)"

lemma escalated_row_refl [simp]: "escalated_row now r r"
  by (simp add: escalated_row_def)

lemma escalated_row_ID: "escalated_row now r r' \<Longrightarrow> wi_ID r' = wi_ID r"
  by (auto simp: escalated_row_def)

text \<open>Rows still to be visited are as listed, the others are as the check leaves them.\<close>

definition partly_escalated :: "go_time \<Rightarrow> WorkItem list \<Rightarrow> WorkItem list \<Rightarrow> WorkItem list \<Rightarrow> bool" where
  "partly_escalated now todo rows rows' \<longleftrightarrow>
     list_all2 (\<lambda>r r'. if wi_ID r \<in> wi_ID ` set todo then r' = r else escalated_row now r r') rows rows'"

lemma partly_escalated_skip:
  assumes "partly_escalated now (wi # todo) rows rows'"
  shows "partly_escalated now todo rows rows'"
  using assms unfolding partly_escalated_def by (rule list_all2_mono) (auto split: if_splits)

lemma partly_escalated_update:
  assumes "partly_escalated now (wi # todo) rows rows'" and "distinct (map wi_ID rows)" and "wi \<in> set rows"
    and "wi_ID wi \<notin> wi_ID ` set todo"
    and "wi_State wi = StateInvestigating" and "escalation_of now wi \<noteq> wi_Severity wi"
  shows "partly_escalated now todo rows
    (upd_where wi_ID (wi_ID wi) (\<lambda>r. r\<lparr>wi_Severity := escalation_of now wi, wi_UpdatedAt := t\<rparr>) rows')"
  using assms(1) unfolding partly_escalated_def upd_where_def list_all2_map2
proof (rule list.rel_mono_strong, goal_cases)
  case (1 r r')
  have "r = wi" if "wi_ID r = wi_ID wi"
    using assms(2,3) 1(1) that by (auto simp: distinct_map dest: inj_onD)
  have id: "wi_ID r' = wi_ID r" using 1(3) escalated_row_ID [of now r r'] by (auto split: if_splits)
  have new: "escalated_row now wi (wi\<lparr>wi_Severity := escalation_of now wi, wi_UpdatedAt := t\<rparr>)"
    using assms(5,6) unfolding escalated_row_def by blast
  show ?case
  proof (cases "wi_ID r = wi_ID wi")
    case True
    with \<open>wi_ID r = wi_ID wi \<Longrightarrow> r = wi\<close> 1(3) assms(4) new show ?thesis by simp
  next
    case False
    with 1(3) id show ?thesis by simp
  qed
qed

context backend
begin

lemma escalated_write:
  assumes u: "UpdateWorkItemSeverity E (wi_ID wi) (escalation_of now wi) w = (r, w')"
    and p: "partly_escalated now (wi # items) rows (t_work_items (w_pg w))"
    and "wi_State wi = StateInvestigating \<and> escalation_of now wi \<noteq> wi_Severity wi" and "distinct (map wi_ID (wi # items))"
    and "set (wi # items) \<subseteq> set rows" and "distinct (map wi_ID rows)" and life: "lifecycle_ok (w_pg w)"
  shows "partly_escalated now items rows (t_work_items (w_pg w')) \<and> lifecycle_ok (w_pg w') \<and>
    t_rcas (w_pg w') = t_rcas (w_pg w) \<and> t_timeseries (w_pg w') = t_timeseries (w_pg w)"
proof -
  let ?sv = "escalation_of now wi"
  from pg.UpdateSeverity_any [OF u] have "w_pg w' = w_pg w \<or>
      (\<exists>t. apply_stmt (UPDATE_severity ?sv t (wi_ID wi)) (w_pg w) = Some (w_pg w'))"
    by (auto simp: apply_stmt_Some_iff)
  then show ?thesis
  proof
    assume "w_pg w' = w_pg w"
    with p life partly_escalated_skip show ?thesis by simp
  next
    assume "\<exists>t. apply_stmt (UPDATE_severity ?sv t (wi_ID wi)) (w_pg w) = Some (w_pg w')"
    then obtain t where t: "apply_stmt (UPDATE_severity ?sv t (wi_ID wi)) (w_pg w) = Some (w_pg w')" by blast
    have "partly_escalated now items rows (upd_where wi_ID (wi_ID wi)
        (\<lambda>r. r\<lparr>wi_Severity := ?sv, wi_UpdatedAt := pg_ts t\<rparr>) (t_work_items (w_pg w)))"
      using assms by (intro partly_escalated_update) auto
    with lifecycle_severity [OF life t] t show ?thesis by (auto simp: apply_stmt_Some_iff)
  qed
qed

lemma escalate_loop_rows:
  assumes "escalate_loop E now items n w = (n', w')" and "distinct (map wi_ID items)"
    and "set items \<subseteq> set rows" and "distinct (map wi_ID rows)"
    and "partly_escalated now items rows (t_work_items (w_pg w))" and "lifecycle_ok (w_pg w)"
  shows "list_all2 (escalated_row now) rows (t_work_items (w_pg w')) \<and> lifecycle_ok (w_pg w') \<and>
    t_rcas (w_pg w') = t_rcas (w_pg w) \<and> t_timeseries (w_pg w') = t_timeseries (w_pg w) \<and>
    w_mongo w' = w_mongo w \<and> (\<forall>k. k \<noteq> dashboardKey \<longrightarrow> w_redis w' k = w_redis w k)"
  using assms
proof (induction items arbitrary: n w)
  case Nil
  then show ?case by (simp add: partly_escalated_def)
next
  case (Cons wi items)
  let ?sv = "escalation_of now wi"
  show ?case
  proof (cases "wi_State wi = StateInvestigating \<and> ?sv \<noteq> wi_Severity wi")
    case False
    with Cons.prems(1) have "escalate_loop E now items n w = (n', w')"
      by (auto simp: escalation_of_def Let_def split: if_splits)
    from Cons.IH [OF this] Cons.prems partly_escalated_skip [OF Cons.prems(5)] show ?thesis by simp
  next
    case True
    obtain r w1 where u: "UpdateWorkItemSeverity E (wi_ID wi) ?sv w = (r, w1)" by fastforce
    obtain r2 w2 where i: "InvalidateDashboard E w1 = (r2, w2)" by fastforce
    obtain m w3 where loop: "escalate_loop E now items m w3 = (n', w')" and w3: "w3 = w1 \<or> w3 = w2"
      using Cons.prems(1) True u i
      by (cases r) (auto simp: escalation_of_def Let_def split: if_splits)
    have same: "w_pg w3 = w_pg w1" "w_mongo w3 = w_mongo w1" "k \<noteq> dashboardKey \<Longrightarrow> w_redis w3 k = w_redis w1 k" for k
      using w3 InvalidateDashboard_frame [OF i] rd.Invalidate_any [OF i] by auto
    have fr: "w_mongo w1 = w_mongo w" "w_redis w1 = w_redis w" using pg.UpdateSeverity_any [OF u] by auto
    have step: "partly_escalated now items rows (t_work_items (w_pg w3)) \<and> lifecycle_ok (w_pg w3) \<and>
        t_rcas (w_pg w3) = t_rcas (w_pg w) \<and> t_timeseries (w_pg w3) = t_timeseries (w_pg w)"
      using escalated_write [OF u Cons.prems(5) _ _ _ _ Cons.prems(6)] Cons.prems(2-4) True same(1) by simp
    have "list_all2 (escalated_row now) rows (t_work_items (w_pg w')) \<and> lifecycle_ok (w_pg w') \<and>
        t_rcas (w_pg w') = t_rcas (w_pg w3) \<and> t_timeseries (w_pg w') = t_timeseries (w_pg w3) \<and>
        w_mongo w' = w_mongo w3 \<and> (\<forall>k. k \<noteq> dashboardKey \<longrightarrow> w_redis w' k = w_redis w3 k)"
      using loop Cons.prems step by (intro Cons.IH [of m w3]) auto
    with step same fr show ?thesis by auto
  qed
qed

lemma runEscalationCheck_rows:
  assumes "runEscalationCheck E w = (n, w')" and "lifecycle_ok (w_pg w)"
  shows "\<exists>now. list_all2 (escalated_row now) (t_work_items (w_pg w)) (t_work_items (w_pg w')) \<and>
    lifecycle_ok (w_pg w') \<and> t_rcas (w_pg w') = t_rcas (w_pg w) \<and>
    t_timeseries (w_pg w') = t_timeseries (w_pg w) \<and> w_mongo w' = w_mongo w \<and>
    (\<forall>k. k \<noteq> dashboardKey \<longrightarrow> w_redis w' k = w_redis w k)"
proof -
  let ?rows = "t_work_items (w_pg w)"
  obtain items e w1 where l: "query_items E Active_items w = ((items, e), w1)" by (metis surj_pair)
  have s1: "same_stores w w1" by (rule pg.query_items_frame [OF l])
  show ?thesis
  proof (cases e)
    case (Some x)
    with assms l s1 show ?thesis
      by (auto simp: runEscalationCheck_def ListActiveWorkItems_def same_stores_def list.rel_refl)
  next
    case None
    obtain now w2 where t: "time_Now E w1 = (now, w2)" by fastforce
    have s2: "same_stores w w2" using s1 time_Now_frame [OF t] by (rule same_stores_trans)
    have loop: "escalate_loop E now items 0 w2 = (n, w')"
      using assms(1) l None t by (simp add: runEscalationCheck_def ListActiveWorkItems_def)
    have ms: "mset items = mset (filter (wi_selected Active_items) ?rows)"
      using pg.query_items_ok l None by blast
    have dist: "distinct (map wi_ID ?rows)" using assms(2) by (simp add: lifecycle_ok_def schema_ok_def)
    then have "distinct (map wi_ID (filter (wi_selected Active_items) ?rows))" by (rule distinct_map_filter)
    moreover have "mset (map wi_ID items) = mset (map wi_ID (filter (wi_selected Active_items) ?rows))"
      using ms by (simp only: mset_map)
    ultimately have "distinct (map wi_ID items)" by (metis mset_eq_imp_distinct_iff)
    moreover have "set items \<subseteq> set ?rows" using mset_eq_setD [OF ms] by auto
    moreover have "partly_escalated now items ?rows ?rows"
      by (simp add: partly_escalated_def list.rel_refl)
    ultimately show ?thesis
      using escalate_loop_rows [OF loop] dist assms(2) s2 by (auto simp: same_stores_def)
  qed
qed

end

subsection \<open>Properties\<close>

text \<open>
  The ladder. Escalation never lowers a severity and moves it by at most one step; it moves
  exactly when a P2 item is at least 30 minutes old or a P1 item at least 60 minutes; P0 is final.
\<close>

theorem escalation_ladder:
  assumes "sv \<in> set severities"
  shows "computeEscalation sv age \<in> set severities \<and>
    sev_rank (computeEscalation sv age) \<le> sev_rank sv \<and> sev_rank sv \<le> sev_rank (computeEscalation sv age) + 1 \<and>
    (computeEscalation sv age \<noteq> sv \<longleftrightarrow>
       sv = SeverityP2 \<and> 30 * minute \<le> age \<or> sv = SeverityP1 \<and> 60 * minute \<le> age) \<and>
    computeEscalation SeverityP0 age = SeverityP0"
  using escalation_steps [OF assms] escalation_due [OF assms] by (auto simp: computeEscalation_def)

theorem escalation_ladder_witness:
  "computeEscalation SeverityP2 (30 * minute) \<noteq> SeverityP2"
proof -
  have "SeverityP2 \<in> set severities" by code_simp
  from escalation_ladder [OF this, of "30 * minute"] show ?thesis by simp
qed



end
