(* ===== verification/MongoStore.thy ===== *)
theory MongoStore
  imports Retry
begin

text \<open>
  \<open>store/mongo.go\<close>: the audit log of raw signals. An insert is retried like the statements of
  PostgreSQL, but a document identifier is unique, so the log never holds a signal twice: that is
  what the lemmas show, together with the order and the cap of the listings.
\<close>

definition mongo_InsertOne :: "'o ext \<Rightarrow> Signal \<Rightarrow> 'o world \<Rightarrow> go_error option \<times> 'o world" where
  "mongo_InsertOne E s w = (case x_mongo_insert E s (w_mongo w) (w_env w) of (e, docs, v) \<Rightarrow>
     (e, w\<lparr>w_mongo := docs, w_env := v\<rparr>))"

definition mongo_UpdateOne :: "'o ext \<Rightarrow> string \<Rightarrow> string \<Rightarrow> 'o world \<Rightarrow> go_error option \<times> 'o world" where
  "mongo_UpdateOne E i wid w = (case x_mongo_link E i wid (w_mongo w) (w_env w) of (e, docs, v) \<Rightarrow>
     (e, w\<lparr>w_mongo := docs, w_env := v\<rparr>))"

definition mongo_withRetry ::
  "'o ext \<Rightarrow> string \<Rightarrow> ('o world \<Rightarrow> go_error option \<times> 'o world) \<Rightarrow> 'o world \<Rightarrow> go_error option \<times> 'o world"
  where
  "mongo_withRetry E op fn w = withRetry ''mongodb'' (ctx_wait E) op fn w"

definition InsertSignal :: "'o ext \<Rightarrow> Signal \<Rightarrow> 'o world \<Rightarrow> go_error option \<times> 'o world" where
  "InsertSignal E s w = mongo_withRetry E ''InsertSignal'' (mongo_InsertOne E s) w"

definition LinkSignalToWorkItem ::
  "'o ext \<Rightarrow> string \<Rightarrow> string \<Rightarrow> 'o world \<Rightarrow> go_error option \<times> 'o world" where
  "LinkSignalToWorkItem E signalID workItemID w =
     mongo_withRetry E ''LinkSignalToWorkItem'' (mongo_UpdateOne E signalID workItemID) w"

definition GetSignalsByWorkItemID ::
  "'o ext \<Rightarrow> string \<Rightarrow> 'o world \<Rightarrow> (go_error + Signal list) \<times> 'o world" where
  "GetSignalsByWorkItemID E workItemID w =
     (case x_mongo_find E (Some workItemID) 500 (w_mongo w) (w_env w) of (res, v) \<Rightarrow>
        (case res of
           Inl e \<Rightarrow> Inl (Wrapped ''mongodb: GetSignalsByWorkItemID: '' e [])
         | Inr (Inl e) \<Rightarrow> Inl (Wrapped ''mongodb: decode signals: '' e [])
         | Inr (Inr signals) \<Rightarrow> Inr signals, w\<lparr>w_env := v\<rparr>))"

definition GetRecentSignals :: "'o ext \<Rightarrow> int \<Rightarrow> 'o world \<Rightarrow> (go_error + Signal list) \<times> 'o world" where
  "GetRecentSignals E limit w =
     (case x_mongo_find E None limit (w_mongo w) (w_env w) of (res, v) \<Rightarrow>
        (case res of
           Inl e \<Rightarrow> Inl (Wrapped ''mongodb: GetRecentSignals: '' e [])
         | Inr (Inl e) \<Rightarrow> Inl e
         | Inr (Inr signals) \<Rightarrow> Inr signals, w\<lparr>w_env := v\<rparr>))"

definition CountSignalsByComponentID ::
  "'o ext \<Rightarrow> string \<Rightarrow> 'o world \<Rightarrow> (go_error + int) \<times> 'o world" where
  "CountSignalsByComponentID E componentID w =
     (case x_mongo_count E componentID (w_mongo w) (w_env w) of (res, v) \<Rightarrow> (res, w\<lparr>w_env := v\<rparr>))"

subsection \<open>Exactly-once insertion\<close>

definition doc_effect :: "'o ext \<Rightarrow> Signal \<Rightarrow> 'o world \<Rightarrow> 'o world \<Rightarrow> bool" where
  "doc_effect E s w w' \<longleftrightarrow> \<not> has_row sig_ID (sig_ID s) (w_mongo w) \<and>
     w_mongo w' = w_mongo w @ [x_bson E s] \<and> w_pg w' = w_pg w \<and> w_redis w' = w_redis w"

context mongo_service
begin

lemma InsertOne_ok: "mongo_InsertOne E s w = (None, w') \<Longrightarrow> doc_effect E s w w'"
  by (auto simp: mongo_InsertOne_def doc_effect_def split: prod.splits dest!: insert_ok)

lemma InsertOne_err:
  assumes "mongo_InsertOne E s w = (Some e, w')"
  shows "external_error e \<and> (same_stores w w' \<or> doc_effect E s w w')"
proof -
  obtain docs v where "x_mongo_insert E s (w_mongo w) (w_env w) = (Some e, docs, v)"
      "w' = w\<lparr>w_mongo := docs, w_env := v\<rparr>"
    using assms by (auto simp: mongo_InsertOne_def split: prod.splits)
  with insert_err [of s "w_mongo w" "w_env w" e docs v] show ?thesis
    by (auto simp: doc_effect_def same_stores_def)
qed

lemma doc_wait_err: "ctx_wait E d w = (Some e, w') \<Longrightarrow> external_error e"
  by (auto simp: ctx_wait_def split: prod.splits dest: wait_err)

lemma doc_after_skip: "same_stores w u \<Longrightarrow> doc_effect E s u v \<Longrightarrow> doc_effect E s w v"
  by (simp add: same_stores_def doc_effect_def)

lemma doc_before_skip: "doc_effect E s w u \<Longrightarrow> same_stores u v \<Longrightarrow> doc_effect E s w v"
  by (simp add: same_stores_def doc_effect_def)

lemma doc_effect_not_twice: "doc_effect E s w u \<Longrightarrow> \<not> doc_effect E s u v"
  by (simp add: doc_effect_def has_row_iff bson_fields)

end

sublocale mongo_service \<subseteq> doc: retried_call "mongo_InsertOne E s" "ctx_wait E" "doc_effect E s" same_stores
  for s
  by unfold_locales
    (auto intro: InsertOne_ok dest: InsertOne_err intro: ctx_wait_frame doc_wait_err same_stores_trans
      doc_after_skip doc_before_skip)

context mongo_service
begin

lemma doc_happened:
  assumes "happened same_stores (doc_effect E s) n w w'"
  shows "n = 0 \<and> same_stores w w' \<or> n = 1 \<and> doc_effect E s w w'"
proof -
  consider "n = 0" | "n = 1" | m where "n = Suc (Suc m)"
    by (metis One_nat_def old.nat.exhaust)
  then show ?thesis
  proof cases
    case 1
    with assms show ?thesis by simp
  next
    case 2
    with assms show ?thesis by (auto simp: same_stores_def doc_effect_def)
  next
    case (3 m)
    with assms obtain u v where "doc_effect E s w u" "doc_effect E s u v" by auto
    then show ?thesis using doc_effect_not_twice by blast
  qed
qed

lemma InsertSignal_ok: "InsertSignal E s w = (None, w') \<Longrightarrow> doc_effect E s w w'"
  using doc.retry_success [of "''mongodb''" "''InsertSignal''" s w w'] doc_happened
  unfolding InsertSignal_def mongo_withRetry_def by force

lemma InsertSignal_any: "InsertSignal E s w = (r, w') \<Longrightarrow> same_stores w w' \<or> doc_effect E s w w'"
  using doc.retry_failure [of "''mongodb''" "''InsertSignal''" s w r w'] doc_happened
  unfolding InsertSignal_def mongo_withRetry_def by blast

lemma signals_of_item:
  assumes "GetSignalsByWorkItemID E i w = (Inr ss, w')"
  shows "length ss \<le> 500 \<and> newest_first ss \<and>
    set ss \<subseteq> {s \<in> set (w_mongo w). sig_WorkItemID s = i} \<and>
    (length (filter (\<lambda>s. sig_WorkItemID s = i) (w_mongo w)) \<le> 500 \<longrightarrow>
       mset ss = mset (filter (\<lambda>s. sig_WorkItemID s = i) (w_mongo w)))"
proof -
  from assms obtain v where "x_mongo_find E (Some i) 500 (w_mongo w) (w_env w) = (Inr (Inr ss), v)"
    by (auto simp: GetSignalsByWorkItemID_def split: prod.splits sum.splits)
  from find_ok [OF this] obtain ys where ys:
      "mset ys = mset (filter (\<lambda>s. sig_WorkItemID s = i) (w_mongo w))" "newest_first ys" "ss = take 500 ys"
    by (auto simp: mongo_match_def)
  have "length ys = length (filter (\<lambda>s. sig_WorkItemID s = i) (w_mongo w))"
    by (metis ys(1) size_mset)
  moreover have "set ss \<subseteq> {s \<in> set (w_mongo w). sig_WorkItemID s = i}"
    using mset_eq_setD [OF ys(1)] ys(3) set_take_subset by fastforce
  moreover have "newest_first ss"
    using ys(2,3) by (simp add: newest_first_def sorted_wrt_take flip: take_map)
  ultimately show ?thesis using ys by auto
qed

end

subsection \<open>Properties\<close>

text \<open>
  The log holds a signal once. Whatever \<open>InsertSignal\<close> returns after its retries, identifiers in
  the log stay distinct, the log has grown by nothing or by exactly that signal, and PostgreSQL and Redis
  are untouched; when it returns nil the signal is the last document.
\<close>

theorem InsertSignal_once:
  assumes "mongo_service E" and "distinct (map sig_ID (w_mongo w))" and "InsertSignal E s w = (r, w')"
  shows "distinct (map sig_ID (w_mongo w')) \<and> w_pg w' = w_pg w \<and> w_redis w' = w_redis w \<and>
    (w_mongo w' = w_mongo w @ [x_bson E s] \<or> r \<noteq> None \<and> w_mongo w' = w_mongo w)"
proof (cases r)
  case None
  with mongo_service.InsertSignal_ok [OF assms(1)] assms(2,3) mongo_service.bson_fields [OF assms(1)] show ?thesis
    by (auto simp: doc_effect_def has_row_iff)
next
  case (Some e)
  with mongo_service.InsertSignal_any [OF assms(1,3)] assms(2) mongo_service.bson_fields [OF assms(1)] show ?thesis
    by (auto simp: doc_effect_def same_stores_def has_row_iff)
qed

definition ex_doc :: "string \<Rightarrow> go_time \<Rightarrow> Signal" where
  "ex_doc i t = (NewSignal i t ''db-1'' ComponentRDBMS ''timeout'' SeverityP0 None)\<lparr>sig_WorkItemID := ''w1''\<rparr>"

theorem InsertSignal_once_witness:
  "\<exists>r w'. InsertSignal ref_env (ex_doc ''s1'' 5) (ref_world 5 [True, True]) = (r, w') \<and> distinct (map sig_ID (w_mongo w'))"
proof -
  obtain r w' where i: "InsertSignal ref_env (ex_doc ''s1'' 5) (ref_world 5 [True, True]) = (r, w')" by fastforce
  have "distinct (map sig_ID (w_mongo (ref_world 5 [True, True])))" by (simp add: ref_world_def)
  from InsertSignal_once [OF ref_mongo.mongo_service_axioms this i] i show ?thesis by blast
qed

text \<open>
  The signals of a work item. A successful listing has at most 500 signals, newest first, all of
  that work item; if the log holds no more than 500 of them, it holds exactly these.
\<close>

theorem signals_listing:
  assumes "mongo_service E" and "GetSignalsByWorkItemID E i w = (Inr ss, w')"
  shows "length ss \<le> 500 \<and> newest_first ss \<and> set ss \<subseteq> {s \<in> set (w_mongo w). sig_WorkItemID s = i} \<and>
    (length (filter (\<lambda>s. sig_WorkItemID s = i) (w_mongo w)) \<le> 500 \<longrightarrow>
       mset ss = mset (filter (\<lambda>s. sig_WorkItemID s = i) (w_mongo w)))"
  using mongo_service.signals_of_item [OF assms] .

theorem signals_listing_witness:
  "\<exists>ss w'. GetSignalsByWorkItemID ref_env ''w1'' ((ref_world 5 [])\<lparr>w_mongo := [ex_doc ''a'' 1, ex_doc ''b'' 2]\<rparr>) = (Inr ss, w') \<and>
     mset ss = {#ex_doc ''a'' 1, ex_doc ''b'' 2#}"
proof -
  let ?w = "(ref_world 5 [])\<lparr>w_mongo := [ex_doc ''a'' 1, ex_doc ''b'' 2]\<rparr>"
  have "case fst (GetSignalsByWorkItemID ref_env ''w1'' ?w) of Inr ss \<Rightarrow> True | Inl e \<Rightarrow> False" by code_simp
  then obtain ss w' where g: "GetSignalsByWorkItemID ref_env ''w1'' ?w = (Inr ss, w')"
    by (cases "GetSignalsByWorkItemID ref_env ''w1'' ?w") (auto split: sum.splits)
  from signals_listing [OF ref_mongo.mongo_service_axioms g] g show ?thesis
    by (auto simp: ex_doc_def)
qed

end
