(* ===== verification/WorkerPool.thy ===== *)
theory WorkerPool
  imports MongoStore Workflow SignalQueue
begin

text \<open>
  \<open>worker/pool.go\<close>: the workers that take signals from the queue and write them to the stores.
  \<open>processSignal\<close> starts three goroutines and waits for them; they write to different tables, so
  the model runs them one after another in an order that is an argument, and the lemmas hold for
  every order. An iteration of \<open>runWorker\<close> is one ready case of its \<open>select\<close>; the scheduler's
  choices are an argument too.
\<close>

definition DefaultWorkerCount :: int where
  "DefaultWorkerCount = 20"

definition throughputLogInterval :: duration where
  "throughputLogInterval = 5 * second"

record Pool =
  p_workers :: int
  p_processed :: int64
  p_errors :: int64

definition pool_New :: "int \<Rightarrow> Pool" where
  "pool_New workerCount =
     \<lparr>p_workers = (if workerCount \<le> 0 then DefaultWorkerCount else workerCount), p_processed = 0, p_errors = 0\<rparr>"

definition writeTimeseries :: "'o ext \<Rightarrow> Signal \<Rightarrow> 'o world \<Rightarrow> 'o world" where
  "writeTimeseries E signal w =
     (case time_Now E w of (now, w1) \<Rightarrow>
      let bucket = Truncate now minute in
      case pg_Exec E (UPSERT_timeseries bucket (sig_ComponentID signal) (sig_ComponentType signal)
          (sig_Severity signal)) w1 of (err, w2) \<Rightarrow> w2)"

subsection \<open>The fan-out\<close>

datatype write_job = Mongo_job | Count_job | Series_job

record write_errors =
  we_mongoErr :: "go_error option"
  we_pgErr :: "go_error option"

definition run_job :: "'o ext \<Rightarrow> Signal \<Rightarrow> write_job \<Rightarrow> write_errors \<Rightarrow> 'o world \<Rightarrow> write_errors \<times> 'o world" where
  "run_job E signal job errs w =
     (case job of
        Mongo_job \<Rightarrow>
          (case InsertSignal E signal w of
             (Some e, w1) \<Rightarrow> (errs\<lparr>we_mongoErr := Some e\<rparr>, w1)
           | (None, w1) \<Rightarrow> (errs, w1))
      | Count_job \<Rightarrow>
          if sig_WorkItemID signal \<noteq> [] then
            (case IncrementSignalCount E (sig_WorkItemID signal) w of
               (Some e, w1) \<Rightarrow> (errs\<lparr>we_pgErr := Some e\<rparr>, w1)
             | (None, w1) \<Rightarrow> (errs, w1))
          else (errs, w)
      | Series_job \<Rightarrow> (errs, writeTimeseries E signal w))"

fun run_jobs :: "'o ext \<Rightarrow> Signal \<Rightarrow> write_job list \<Rightarrow> write_errors \<Rightarrow> 'o world \<Rightarrow> write_errors \<times> 'o world" where
  "run_jobs E signal [] errs w = (errs, w)"
| "run_jobs E signal (job # jobs) errs w =
     (case run_job E signal job errs w of (errs1, w1) \<Rightarrow> run_jobs E signal jobs errs1 w1)"

definition processSignal :: "'o ext \<Rightarrow> write_job list \<Rightarrow> Signal \<Rightarrow> Pool \<Rightarrow> 'o world \<Rightarrow> Pool \<times> 'o world" where
  "processSignal E order signal p w =
     (case run_jobs E signal order \<lparr>we_mongoErr = None, we_pgErr = None\<rparr> w of (errs, w1) \<Rightarrow>
        if we_mongoErr errs \<noteq> None \<or> we_pgErr errs \<noteq> None
        then (p\<lparr>p_errors := p_errors p + 1\<rparr>, w1)
        else (p\<lparr>p_processed := p_processed p + 1\<rparr>, w1))"

subsection \<open>The loop of a worker\<close>

datatype select_case = Done | Receive "write_job list"

text \<open>A receive from an empty channel is not ready: the iteration waits and changes nothing.\<close>

fun runWorker ::
  "'o ext \<Rightarrow> select_case list \<Rightarrow> SignalQueue \<Rightarrow> Pool \<Rightarrow> 'o world \<Rightarrow> SignalQueue \<times> Pool \<times> 'o world" where
  "runWorker E [] q p w = (q, p, w)"
| "runWorker E (Done # cs) q p w = (q, p, w)"
| "runWorker E (Receive order # cs) q p w =
     (case Consume q of
        None \<Rightarrow> runWorker E cs q p w
      | Some (signal, q1) \<Rightarrow> (case processSignal E order signal p w of (p1, w1) \<Rightarrow> runWorker E cs q1 p1 w1))"

subsection \<open>Statistics\<close>

record pool_stats =
  st_workers :: int
  st_total_processed :: int64
  st_total_errors :: int64
  st_queue_len :: int
  st_queue_capacity :: int
  st_queue_fill_pct :: float64
  st_total_dropped :: int64

definition Stats :: "SignalQueue \<Rightarrow> Pool \<Rightarrow> pool_stats" where
  "Stats q p = \<lparr>st_workers = p_workers p, st_total_processed = p_processed p, st_total_errors = p_errors p,
     st_queue_len = Len q, st_queue_capacity = Cap q, st_queue_fill_pct = FillRatio q * 100,
     st_total_dropped = DroppedCount q\<rparr>"

text \<open>One tick of \<open>logThroughput\<close>: the variable \<open>lastProcessed\<close> and what is logged.\<close>

record throughput_log =
  tl_signals_last_5s :: int64
  tl_signals_per_sec :: float64
  tl_redis_signals_per_sec :: float64
  tl_total_processed :: int64
  tl_total_errors :: int64
  tl_queue_len :: int
  tl_queue_fill_pct :: float64
  tl_total_dropped :: int64

definition logThroughput ::
  "'o ext \<Rightarrow> SignalQueue \<Rightarrow> Pool \<Rightarrow> int64 \<Rightarrow> 'o world \<Rightarrow> throughput_log \<times> int64 \<times> 'o world" where
  "logThroughput E q p lastProcessed w =
     (let current = p_processed p; delta = current - lastProcessed in
      case GetSignalsPerSecond E w of ((sps, err), w1) \<Rightarrow>
      let sps = (if err \<noteq> None then 0 else sps) in
      (\<lparr>tl_signals_last_5s = delta,
        tl_signals_per_sec = of_int (sint delta) / dur_Seconds throughputLogInterval,
        tl_redis_signals_per_sec = sps, tl_total_processed = current, tl_total_errors = p_errors p,
        tl_queue_len = Len q, tl_queue_fill_pct = FillRatio q * 100, tl_total_dropped = DroppedCount q\<rparr>,
       current, w1))"

subsection \<open>What each job does\<close>

lemma executed_lifecycle:
  assumes "executed S n w w'" and "lifecycle_ok (w_pg w)"
    and "\<And>s db db'. s \<in> S \<Longrightarrow> lifecycle_ok db \<Longrightarrow> apply_stmt s db = Some db' \<Longrightarrow> lifecycle_ok db'"
  shows "lifecycle_ok (w_pg w')"
  using assms(1,2)
proof (induction n arbitrary: w)
  case 0
  then show ?case by (simp add: same_stores_def)
next
  case (Suc n)
  then obtain v where "pg_effect S w v" "executed S n v w'" by auto
  with Suc assms(3) show ?case by (metis pg_effect_def)
qed

definition series_total :: "pg_db \<Rightarrow> int" where
  "series_total db = (\<Sum>r \<leftarrow> t_timeseries db. ts_signal_count r)"

lemma sum_upd_where:
  assumes "distinct (map key rows)" and "k \<in> key ` set rows" and "\<And>r. f (g r) = f r + 1"
  shows "(\<Sum>r \<leftarrow> upd_where key k g rows. f r) = (\<Sum>r \<leftarrow> rows. f r) + (1 :: int)"
  using assms(1,2)
proof (induction rows)
  case (Cons r rows)
  show ?case
  proof (cases "key r = k")
    case True
    with Cons.prems(1) have "k \<notin> key ` set rows" by auto
    with True show ?thesis by (simp add: upd_where_absent assms(3))
  next
    case False
    with Cons show ?thesis by auto
  qed
qed simp

lemma series_total_upsert:
  assumes "schema_ok db"
  shows "series_total (run_stmt (UPSERT_timeseries b c ct sv) db) = series_total db + 1"
  using assms by (auto simp: series_total_def Let_def schema_ok_def has_row_iff intro!: sum_upd_where)

text \<open>The log of the signal, the count of its work item, the time series.\<close>

definition logged ::
  "'o ext \<Rightarrow> Signal \<Rightarrow> go_error option \<Rightarrow> go_error option \<Rightarrow> Signal list \<Rightarrow> Signal list \<Rightarrow> bool" where
  "logged E s e e' docs docs' \<longleftrightarrow>
     (let appended = (\<not> has_row sig_ID (sig_ID s) docs \<and> docs' = docs @ [x_bson E s])
      in e' = e \<and> appended \<or> e' \<noteq> None \<and> (docs' = docs \<or> appended))"

definition bumped :: "string \<Rightarrow> nat \<Rightarrow> WorkItem list \<Rightarrow> WorkItem list \<Rightarrow> bool" where
  "bumped i n rows rows' \<longleftrightarrow> (if n = 0 then rows' = rows
     else \<exists>t. rows' = upd_where wi_ID i
       (\<lambda>r. r\<lparr>wi_SignalCount := wi_SignalCount r + int n, wi_UpdatedAt := t\<rparr>) rows)"

definition counted ::
  "Signal \<Rightarrow> go_error option \<Rightarrow> go_error option \<Rightarrow> WorkItem list \<Rightarrow> WorkItem list \<Rightarrow> bool" where
  "counted s e e' rows rows' \<longleftrightarrow> (\<exists>n \<le> 3. bumped (sig_WorkItemID s) n rows rows' \<and>
     (e' = e \<and> (n = 0 \<longleftrightarrow> sig_WorkItemID s = []) \<or> e' \<noteq> None))"

context backend
begin

lemma mongo_job:
  assumes "run_job E s Mongo_job errs w = (errs', w')"
  shows "logged E s (we_mongoErr errs) (we_mongoErr errs') (w_mongo w) (w_mongo w') \<and>
    we_pgErr errs' = we_pgErr errs \<and> w_pg w' = w_pg w \<and> w_redis w' = w_redis w"
proof -
  obtain r w1 where i: "InsertSignal E s w = (r, w1)" by fastforce
  show ?thesis
  proof (cases r)
    case None
    with i assms mg.InsertSignal_ok [of s w w1] show ?thesis
      by (auto simp: run_job_def logged_def doc_effect_def)
  next
    case (Some e)
    with i assms mg.InsertSignal_any [OF i] show ?thesis
      by (auto simp: run_job_def logged_def doc_effect_def same_stores_def)
  qed
qed

lemma count_rows:
  assumes "IncrementSignalCount E i w = (r, w')"
  shows "\<exists>n \<le> 3. bumped i n (t_work_items (w_pg w)) (t_work_items (w_pg w')) \<and> (r = None \<longrightarrow> n \<noteq> 0) \<and>
    t_timeseries (w_pg w') = t_timeseries (w_pg w) \<and> t_rcas (w_pg w') = t_rcas (w_pg w)"
proof (cases r)
  case None
  with assms pg.IncrementSignalCount_ok [of i w w'] obtain n t where n: "1 \<le> n" "n \<le> 3"
      "w_pg w' = on_work_item i (\<lambda>r. r\<lparr>wi_SignalCount := wi_SignalCount r + int n, wi_UpdatedAt := pg_ts t\<rparr>) (w_pg w)"
    by blast
  then show ?thesis by (intro exI [of _ n]) (auto simp: bumped_def)
next
  case (Some e)
  from pg.IncrementSignalCount_any [OF assms] obtain n where n: "n \<le> 3"
      "executed (range (\<lambda>now. UPDATE_signal_count now i)) n w w'" by blast
  show ?thesis
  proof (cases n)
    case 0
    with n Some show ?thesis by (intro exI [of _ 0]) (auto simp: bumped_def same_stores_def)
  next
    case (Suc m)
    with executed_signal_count [of i m w w'] n(2) obtain t where
      "w_pg w' = on_work_item i (\<lambda>r. r\<lparr>wi_SignalCount := wi_SignalCount r + int n, wi_UpdatedAt := pg_ts t\<rparr>) (w_pg w)"
      by auto
    with n Suc Some show ?thesis by (intro exI [of _ n]) (auto simp: bumped_def)
  qed
qed

lemma count_lifecycle:
  assumes "IncrementSignalCount E i w = (r, w')" and "lifecycle_ok (w_pg w)"
  shows "lifecycle_ok (w_pg w') \<and> items_kept (w_pg w) (w_pg w') \<and> w_mongo w' = w_mongo w \<and> w_redis w' = w_redis w"
proof -
  from pg.IncrementSignalCount_any [OF assms(1)] obtain n where
      n: "executed (range (\<lambda>now. UPDATE_signal_count now i)) n w w'" by blast
  have "lifecycle_ok (w_pg w')"
    by (rule executed_lifecycle [OF n assms(2)]) (use lifecycle_signal_count in blast)
  with executed_frame [OF n] items_kept_executed [OF n] show ?thesis by simp
qed

lemma count_job:
  assumes "run_job E s Count_job errs w = (errs', w')" and "lifecycle_ok (w_pg w)"
  shows "counted s (we_pgErr errs) (we_pgErr errs') (t_work_items (w_pg w)) (t_work_items (w_pg w')) \<and>
    we_mongoErr errs' = we_mongoErr errs \<and> series_total (w_pg w') = series_total (w_pg w) \<and>
    lifecycle_ok (w_pg w') \<and> items_kept (w_pg w) (w_pg w') \<and> w_mongo w' = w_mongo w \<and> w_redis w' = w_redis w"
proof (cases "sig_WorkItemID s = []")
  case True
  with assms show ?thesis by (auto simp: run_job_def counted_def bumped_def intro!: exI [of _ 0])
next
  case False
  obtain r w1 where i: "IncrementSignalCount E (sig_WorkItemID s) w = (r, w1)" by fastforce
  from assms(1) False i have out: "w' = w1"
      "errs' = (case r of Some e \<Rightarrow> errs\<lparr>we_pgErr := Some e\<rparr> | None \<Rightarrow> errs)"
    by (auto simp: run_job_def split: option.splits)
  from count_rows [OF i] obtain n where n: "n \<le> 3"
      "bumped (sig_WorkItemID s) n (t_work_items (w_pg w)) (t_work_items (w_pg w1))" "r = None \<longrightarrow> n \<noteq> 0"
      "t_timeseries (w_pg w1) = t_timeseries (w_pg w)" by blast
  then have "counted s (we_pgErr errs) (we_pgErr errs') (t_work_items (w_pg w)) (t_work_items (w_pg w1))"
    using out False unfolding counted_def by (intro exI [of _ n]) (auto split: option.splits)
  with out n(4) count_lifecycle [OF i assms(2)] show ?thesis
    by (auto simp: series_total_def split: option.splits)
qed

lemma writeTimeseries_any:
  obtains b where "w_pg (writeTimeseries E s w) = w_pg w \<or>
      apply_stmt (UPSERT_timeseries b (sig_ComponentID s) (sig_ComponentType s) (sig_Severity s)) (w_pg w) =
        Some (w_pg (writeTimeseries E s w))"
    and "w_mongo (writeTimeseries E s w) = w_mongo w" and "w_redis (writeTimeseries E s w) = w_redis w"
proof -
  obtain now w1 where t: "time_Now E w = (now, w1)" by fastforce
  have s1: "same_stores w w1" by (rule time_Now_frame [OF t])
  let ?st = "UPSERT_timeseries (Truncate now minute) (sig_ComponentID s) (sig_ComponentType s) (sig_Severity s)"
  obtain r w2 where x: "pg_Exec E ?st w1 = (r, w2)" by fastforce
  have "same_stores w1 w2 \<or> pg_effect {?st} w1 w2"
    using x pg.pg_Exec_ok pg.pg_Exec_err by (cases r) auto
  with t x s1 pg_Exec_frame [OF x] that [of "Truncate now minute"] show thesis
    by (auto simp: writeTimeseries_def Let_def same_stores_def pg_effect_def)
qed

lemma series_job:
  assumes "run_job E s Series_job errs w = (errs', w')" and "lifecycle_ok (w_pg w)"
  shows "errs' = errs \<and> series_total (w_pg w') \<in> {series_total (w_pg w), series_total (w_pg w) + 1} \<and>
    t_work_items (w_pg w') = t_work_items (w_pg w) \<and> lifecycle_ok (w_pg w') \<and>
    w_mongo w' = w_mongo w \<and> w_redis w' = w_redis w"
proof -
  from assms(1) have out: "errs' = errs" "w' = writeTimeseries E s w" by (auto simp: run_job_def)
  obtain b where eff: "w_pg w' = w_pg w \<or>
        apply_stmt (UPSERT_timeseries b (sig_ComponentID s) (sig_ComponentType s) (sig_Severity s)) (w_pg w) = Some (w_pg w')"
      "w_mongo w' = w_mongo w" "w_redis w' = w_redis w"
    unfolding out(2) by (rule writeTimeseries_any)
  have "schema_ok (w_pg w)" by (rule lifecycle_schema [OF assms(2)])
  with eff assms(2) lifecycle_timeseries [OF assms(2)] series_total_upsert out(1) show ?thesis
    by (auto simp: apply_stmt_Some_iff Let_def)
qed

text \<open>
  Any list of different jobs: each of the three effects is there exactly if its job is in the list.
\<close>

lemma run_jobs_effect:
  assumes "run_jobs E s jobs errs w = (errs', w')" and "distinct jobs" and "lifecycle_ok (w_pg w)"
  shows "lifecycle_ok (w_pg w') \<and> items_kept (w_pg w) (w_pg w') \<and> w_redis w' = w_redis w \<and>
    (if Mongo_job \<in> set jobs then logged E s (we_mongoErr errs) (we_mongoErr errs') (w_mongo w) (w_mongo w')
     else we_mongoErr errs' = we_mongoErr errs \<and> w_mongo w' = w_mongo w) \<and>
    (if Count_job \<in> set jobs
     then counted s (we_pgErr errs) (we_pgErr errs') (t_work_items (w_pg w)) (t_work_items (w_pg w'))
     else we_pgErr errs' = we_pgErr errs \<and> t_work_items (w_pg w') = t_work_items (w_pg w)) \<and>
    (if Series_job \<in> set jobs then series_total (w_pg w') \<in> {series_total (w_pg w), series_total (w_pg w) + 1}
     else series_total (w_pg w') = series_total (w_pg w))"
  using assms
proof (induction jobs arbitrary: errs w)
  case (Cons job jobs)
  obtain errs1 w1 where j: "run_job E s job errs w = (errs1, w1)" by fastforce
  with Cons.prems(1) have rest: "run_jobs E s jobs errs1 w1 = (errs', w')" by simp
  have dist: "distinct jobs" "job \<notin> set jobs" using Cons.prems(2) by auto
  show ?case
  proof (cases job)
    case Mongo_job
    note J = mongo_job [OF j [unfolded Mongo_job]]
    with Cons.prems(3) have "lifecycle_ok (w_pg w1)" by simp
    from Cons.IH [OF rest dist(1) this] J dist(2) Mongo_job show ?thesis by (simp split: if_splits)
  next
    case Count_job
    note J = count_job [OF j [unfolded Count_job] Cons.prems(3)]
    then have "lifecycle_ok (w_pg w1)" by simp
    from Cons.IH [OF rest dist(1) this] J dist(2) Count_job show ?thesis
      by (auto intro: items_kept_trans split: if_splits)
  next
    case Series_job
    note J = series_job [OF j [unfolded Series_job] Cons.prems(3)]
    then have l: "lifecycle_ok (w_pg w1)" and k: "items_kept (w_pg w) (w_pg w1)"
      by (auto simp: items_kept_def item_of_def)
    from Cons.IH [OF rest dist(1) l] J k dist(2) Series_job show ?thesis
      by (auto intro: items_kept_trans split: if_splits)
  qed
qed simp

end

subsection \<open>The loop\<close>

definition all_jobs :: "write_job list \<Rightarrow> bool" where
  "all_jobs order \<longleftrightarrow> distinct order \<and> set order = {Mongo_job, Count_job, Series_job}"

fun receives :: "select_case list \<Rightarrow> nat" where
  "receives [] = 0"
| "receives (Done # cs) = 0"
| "receives (Receive order # cs) = Suc (receives cs)"

lemma processSignal_counters:
  "processSignal E order s p w = (p', w') \<Longrightarrow>
     p_processed p' + p_errors p' = p_processed p + p_errors p + 1 \<and> p_workers p' = p_workers p"
  by (auto simp: processSignal_def split: prod.splits if_splits)

lemma Consume_Some: "Consume q = Some (s, q') \<Longrightarrow> q_ch q = s # q_ch q' \<and> q' = q\<lparr>q_ch := q_ch q'\<rparr>"
  by (auto simp: Consume_def split: list.splits)

lemma Consume_None: "Consume q = None \<longleftrightarrow> q_ch q = []"
  by (auto simp: Consume_def split: list.splits)

lemma runWorker_idle: "q_ch q = [] \<Longrightarrow> runWorker E cs q p w = (q, p, w)"
  by (induction E cs q p w rule: runWorker.induct) (auto simp: Consume_def)

lemma runWorker_taken:
  "runWorker E cs q p w = (q', p', w') \<Longrightarrow>
     \<exists>taken. q_ch q = taken @ q_ch q' \<and> length taken = min (receives cs) (length (q_ch q)) \<and>
       q' = q\<lparr>q_ch := q_ch q'\<rparr> \<and>
       p_processed p' + p_errors p' = p_processed p + p_errors p + of_nat (length taken)"
proof (induction E cs q p w rule: runWorker.induct)
  case (3 E order cs q p w)
  show ?case
  proof (cases "Consume q")
    case None
    then have "q_ch q = []" by (simp add: Consume_None)
    with "3.prems" runWorker_idle [of q E] None show ?thesis by (simp add: runWorker_idle)
  next
    case (Some a)
    then obtain s q1 where c: "Consume q = Some (s, q1)" by (cases a) auto
    obtain p1 w1 where ps: "processSignal E order s p w = (p1, w1)" by fastforce
    with "3.prems" c have run: "runWorker E cs q1 p1 w1 = (q', p', w')" by simp
    from "3.IH"(2) [OF c refl ps [symmetric] run] obtain taken where t: "q_ch q1 = taken @ q_ch q'"
        "length taken = min (receives cs) (length (q_ch q1))" "q' = q1\<lparr>q_ch := q_ch q'\<rparr>"
        "p_processed p' + p_errors p' = p_processed p1 + p_errors p1 + of_nat (length taken)"
      by blast
    from t processSignal_counters [OF ps] Consume_Some [OF c] show ?thesis
      by (intro exI [of _ "s # taken"]) (auto simp: algebra_simps)
  qed
qed auto

subsection \<open>Properties\<close>

text \<open>
  C14. Processing of a signal, for every order in which the three goroutines finish. If the pool
  counts the signal as processed, the log has grown by exactly that signal, which it did not hold
  before, and the count of its work item has grown by one to three (an increment whose acknowledgement
  was lost is repeated); otherwise the pool counts one error and each write has happened or not. The
  time series grows by at most one, and the life-cycle invariant holds in every case.
\<close>

theorem processSignal_correct:
  assumes "backend E" and "lifecycle_ok (w_pg w)" and "all_jobs order"
    and "processSignal E order s p w = (p', w')"
  shows "lifecycle_ok (w_pg w') \<and> w_redis w' = w_redis w \<and>
    series_total (w_pg w') \<in> {series_total (w_pg w), series_total (w_pg w) + 1} \<and>
    (\<exists>n \<le> 3. bumped (sig_WorkItemID s) n (t_work_items (w_pg w)) (t_work_items (w_pg w')) \<and>
      (p' = p\<lparr>p_processed := p_processed p + 1\<rparr> \<and> (n = 0 \<longleftrightarrow> sig_WorkItemID s = []) \<and>
         \<not> has_row sig_ID (sig_ID s) (w_mongo w) \<and> w_mongo w' = w_mongo w @ [x_bson E s] \<or>
       p' = p\<lparr>p_errors := p_errors p + 1\<rparr> \<and>
         (w_mongo w' = w_mongo w \<or> w_mongo w' = w_mongo w @ [x_bson E s])))"
proof -
  let ?e0 = "\<lparr>we_mongoErr = None, we_pgErr = None\<rparr>"
  obtain errs w1 where r: "run_jobs E s order ?e0 w = (errs, w1)" by fastforce
  from assms(3) have jobs: "distinct order" "Mongo_job \<in> set order" "Count_job \<in> set order" "Series_job \<in> set order"
    by (auto simp: all_jobs_def)
  from backend.run_jobs_effect [OF assms(1) r jobs(1) assms(2)] jobs(2-)
  have R: "lifecycle_ok (w_pg w1)" "w_redis w1 = w_redis w"
      "logged E s None (we_mongoErr errs) (w_mongo w) (w_mongo w1)"
      "counted s None (we_pgErr errs) (t_work_items (w_pg w)) (t_work_items (w_pg w1))"
      "series_total (w_pg w1) \<in> {series_total (w_pg w), series_total (w_pg w) + 1}"
    by auto
  from R(4) obtain n where n: "n \<le> 3" "bumped (sig_WorkItemID s) n (t_work_items (w_pg w)) (t_work_items (w_pg w1))"
      "we_pgErr errs = None \<Longrightarrow> n = 0 \<longleftrightarrow> sig_WorkItemID s = []"
    by (auto simp: counted_def)
  show ?thesis
  proof (cases "we_mongoErr errs \<noteq> None \<or> we_pgErr errs \<noteq> None")
    case True
    with assms(4) r have out: "p' = p\<lparr>p_errors := p_errors p + 1\<rparr>" "w' = w1" by (auto simp: processSignal_def)
    with R n(1,2) show ?thesis by (auto simp: logged_def Let_def)
  next
    case False
    with assms(4) r have out: "p' = p\<lparr>p_processed := p_processed p + 1\<rparr>" "w' = w1" by (auto simp: processSignal_def)
    with False R n show ?thesis by (auto simp: logged_def Let_def)
  qed
qed

definition ex_queued :: Signal where
  "ex_queued = (NewSignal ''s1'' 5 ''db-1'' ComponentRDBMS ''timeout'' SeverityP0 None)\<lparr>sig_WorkItemID := ''w1''\<rparr>"

theorem processSignal_correct_witness:
  "\<exists>p' w'. processSignal ref_env [Count_job, Mongo_job, Series_job] ex_queued (pool_New 0)
       (ex_world StateOpen [] [True]) = (p', w') \<and> lifecycle_ok (w_pg w') \<and>
     series_total (w_pg w') \<in> {0, 1}"
proof -
  obtain p' w' where r: "processSignal ref_env [Count_job, Mongo_job, Series_job] ex_queued (pool_New 0)
       (ex_world StateOpen [] [True]) = (p', w')" by fastforce
  have "lifecycle_ok (w_pg (ex_world StateOpen [] [True]))" by code_simp
  moreover have "all_jobs [Count_job, Mongo_job, Series_job]" by code_simp
  moreover have "series_total (w_pg (ex_world StateOpen [] [True])) = 0" by code_simp
  ultimately show ?thesis using processSignal_correct [OF ref.backend_axioms _ _ r] r by simp
qed

text \<open>What a run of the loop leaves behind: the signals taken, those logged and the number of errors.\<close>

definition jobs_ok :: "select_case list \<Rightarrow> bool" where
  "jobs_ok cs = list_all (\<lambda>c. case c of Done \<Rightarrow> True | Receive order \<Rightarrow> all_jobs order) cs"

definition worker_effect ::
  "'o ext \<Rightarrow> nat \<Rightarrow> SignalQueue \<times> Pool \<times> 'o world \<Rightarrow> SignalQueue \<times> Pool \<times> 'o world \<Rightarrow> bool" where
  "worker_effect E n x y \<longleftrightarrow> (case (x, y) of ((q, p, w), (q', p', w')) \<Rightarrow>
     \<exists>taken stored k. q_ch q = taken @ q_ch q' \<and> length taken = min n (length (q_ch q)) \<and>
       k \<le> length taken \<and> p_errors p' = p_errors p + of_nat k \<and>
       p_processed p' = p_processed p + of_nat (length taken - k) \<and>
       subseq stored taken \<and> length taken \<le> length stored + k \<and>
       w_mongo w' = w_mongo w @ map (x_bson E) stored \<and> lifecycle_ok (w_pg w'))"

lemma worker_effectI:
  "q_ch q = taken @ q_ch q' \<Longrightarrow> length taken = min n (length (q_ch q)) \<Longrightarrow> k \<le> length taken \<Longrightarrow>
   p_errors p' = p_errors p + of_nat k \<Longrightarrow> p_processed p' = p_processed p + of_nat (length taken - k) \<Longrightarrow>
   subseq stored taken \<Longrightarrow> length taken \<le> length stored + k \<Longrightarrow>
   w_mongo w' = w_mongo w @ map (x_bson E) stored \<Longrightarrow> lifecycle_ok (w_pg w') \<Longrightarrow>
   worker_effect E n (q, p, w) (q', p', w')"
  unfolding worker_effect_def prod.case by blast

lemma worker_effect_idle:
  "lifecycle_ok (w_pg w) \<Longrightarrow> n = 0 \<or> q_ch q = [] \<Longrightarrow> worker_effect E n (q, p, w) (q, p, w)"
  by (auto simp: worker_effect_def)

context backend
begin

lemma processSignal_log:
  assumes "lifecycle_ok (w_pg w)" and "all_jobs order" and "processSignal E order s p w = (p', w')"
  obtains (stored) "lifecycle_ok (w_pg w')" "p' = p\<lparr>p_processed := p_processed p + 1\<rparr>" "w_mongo w' = w_mongo w @ [x_bson E s]"
  | (err) "lifecycle_ok (w_pg w')" "p' = p\<lparr>p_errors := p_errors p + 1\<rparr>"
      "w_mongo w' = w_mongo w \<or> w_mongo w' = w_mongo w @ [x_bson E s]"
proof -
  obtain errs w1 where r: "run_jobs E s order \<lparr>we_mongoErr = None, we_pgErr = None\<rparr> w = (errs, w1)" by fastforce
  from run_jobs_effect [OF r _ assms(1)] assms(2) have "lifecycle_ok (w_pg w1)"
      "logged E s None (we_mongoErr errs) (w_mongo w) (w_mongo w1)" by (auto simp: all_jobs_def)
  then show thesis using r assms(3) that by (auto simp: processSignal_def logged_def Let_def split: if_splits)
qed

lemma worker_effect_step:
  assumes "processSignal E order s p w = (p1, w1)" and "all_jobs order" and "lifecycle_ok (w_pg w)"
    and "worker_effect E n (q1, p1, w1) (q', p', w')" and "q_ch q = s # q_ch q1"
  shows "worker_effect E (Suc n) (q, p, w) (q', p', w')"
proof -
  from assms(4) obtain taken st k where t: "q_ch q1 = taken @ q_ch q'" "length taken = min n (length (q_ch q1))"
      "k \<le> length taken" "p_errors p' = p_errors p1 + of_nat k"
      "p_processed p' = p_processed p1 + of_nat (length taken - k)" "subseq st taken"
      "length taken \<le> length st + k" "w_mongo w' = w_mongo w1 @ map (x_bson E) st" "lifecycle_ok (w_pg w')"
    by (auto simp: worker_effect_def)
  have hd: "q_ch q = (s # taken) @ q_ch q'" "length (s # taken) = min (Suc n) (length (q_ch q))" using t assms(5) by auto
  from assms(3,2,1) show ?thesis
  proof (cases rule: processSignal_log)
    case stored
    have "of_nat (length (s # taken) - k) = (1 :: int64) + of_nat (length taken - k)"
      using t(3) by (simp add: Suc_diff_le)
    with t stored show ?thesis
      by (intro worker_effectI [OF hd, of k _ _ "s # st"]) auto
  next
    case err
    define st' where "st' = (if w_mongo w1 = w_mongo w then st else s # st)"
    have "subseq st' (s # taken)" "length st \<le> length st'" "w_mongo w' = w_mongo w @ map (x_bson E) st'"
      using t err by (auto simp: st'_def list_emb_Cons)
    with t err show ?thesis
      by (intro worker_effectI [OF hd, of "Suc k" _ _ st']) auto
  qed
qed

lemma runWorker_effect:
  assumes "jobs_ok cs" and "lifecycle_ok (w_pg w)" and "runWorker E cs q p w = (q', p', w')"
  shows "worker_effect E (receives cs) (q, p, w) (q', p', w')"
  using assms
proof (induction cs arbitrary: q p w)
  case Nil
  then show ?case by (auto intro: worker_effect_idle)
next
  case (Cons c cs)
  show ?case
  proof (cases c)
    case Done
    with Cons.prems show ?thesis by (auto intro: worker_effect_idle)
  next
    case (Receive order)
    show ?thesis
    proof (cases "Consume q")
      case None
      then have empty: "q_ch q = []" by (simp add: Consume_None)
      then have "(q', p', w') = (q, p, w)" using Cons.prems(3) runWorker_idle by metis
      with empty Cons.prems(2) show ?thesis by (auto intro: worker_effect_idle)
    next
      case (Some x)
      then obtain s q1 where c: "Consume q = Some (s, q1)" by (cases x) auto
      obtain p1 w1 where ps: "processSignal E order s p w = (p1, w1)" by fastforce
      have jobs: "all_jobs order" "jobs_ok cs" using Cons.prems(1) Receive by (auto simp: jobs_ok_def)
      have run: "runWorker E cs q1 p1 w1 = (q', p', w')" using Cons.prems(3) Receive c ps by simp
      have "lifecycle_ok (w_pg w1)" by (rule processSignal_log [OF Cons.prems(2) jobs(1) ps])
      from worker_effect_step [OF ps jobs(1) Cons.prems(2) Cons.IH [OF jobs(2) this run]] Consume_Some [OF c] Receive
      show ?thesis by simp
    qed
  qed
qed

end

text \<open>
  The workers empty the queue. A worker takes exactly the first signals of the queue, in order and
  as many as its \<open>select\<close> received before its context was done, so with enough receives the queue is
  empty at the end. Every signal taken is accounted for: with \<open>k\<close> errors counted, all but at most \<open>k\<close> of
  them have been appended to the log, in the order of the queue, and without an error all of them.
  What was not received stays in the queue.
\<close>

theorem worker_empties_queue:
  assumes "backend E" and "jobs_ok cs" and "lifecycle_ok (w_pg w)" and "runWorker E cs q p w = (q', p', w')"
  shows "\<exists>taken stored k. q_ch q = taken @ q_ch q' \<and> length taken = min (receives cs) (length (q_ch q)) \<and>
    (length (q_ch q) \<le> receives cs \<longrightarrow> q_ch q' = []) \<and>
    k \<le> length taken \<and> p_errors p' = p_errors p + of_nat k \<and>
    p_processed p' = p_processed p + of_nat (length taken - k) \<and>
    w_mongo w' = w_mongo w @ map (x_bson E) stored \<and> subseq stored taken \<and>
    length taken \<le> length stored + k \<and> (k = 0 \<longrightarrow> stored = taken)"
proof -
  from backend.runWorker_effect [OF assms] obtain taken stored k where t: "q_ch q = taken @ q_ch q'"
      "length taken = min (receives cs) (length (q_ch q))" "k \<le> length taken" "p_errors p' = p_errors p + of_nat k"
      "p_processed p' = p_processed p + of_nat (length taken - k)" "subseq stored taken"
      "length taken \<le> length stored + k" "w_mongo w' = w_mongo w @ map (x_bson E) stored"
    unfolding worker_effect_def prod.case by blast
  have "k = 0 \<Longrightarrow> stored = taken" using t(6,7) by (metis add_0_right list_emb_length subseq_same_length le_antisym)
  moreover have "q_ch q' = []" if "length (q_ch q) \<le> receives cs"
  proof -
    have "length taken = length (q_ch q)" using t(2) min_absorb2 [OF that] by (rule trans)
    also have "\<dots> = length taken + length (q_ch q')" by (subst t(1)) simp
    finally show ?thesis by simp
  qed
  ultimately show ?thesis using t by blast
qed

definition ex_order :: "write_job list" where
  "ex_order = [Count_job, Mongo_job, Series_job]"

theorem worker_empties_queue_witness:
  "\<exists>q' p' w'. runWorker ref_env [Receive ex_order, Receive ex_order] (queue_New 10\<lparr>q_ch := [ex_queued]\<rparr>) (pool_New 0)
       (ex_world StateOpen [] [True]) = (q', p', w') \<and> q_ch q' = [] \<and> p_errors p' \<in> {0, 1} \<and>
     (p_errors p' = 0 \<longrightarrow> w_mongo w' = [x_bson ref_env ex_queued])"
proof -
  let ?cs = "[Receive ex_order, Receive ex_order]" and ?q = "queue_New 10\<lparr>q_ch := [ex_queued]\<rparr>"
  obtain q' p' w' where r: "runWorker ref_env ?cs ?q (pool_New 0) (ex_world StateOpen [] [True]) = (q', p', w')"
    by (metis surj_pair)
  have "jobs_ok ?cs" by code_simp
  moreover have "lifecycle_ok (w_pg (ex_world StateOpen [] [True]))" by code_simp
  moreover have "w_mongo (ex_world StateOpen [] [True]) = []" by code_simp
  moreover have "receives ?cs = 2" "q_ch ?q = [ex_queued]" "p_errors (pool_New 0) = 0" by (simp_all add: pool_New_def)
  moreover note worker_empties_queue [OF ref.backend_axioms _ _ r]
  ultimately obtain taken stored k where t: "[ex_queued] = taken @ q_ch q'" "q_ch q' = []"
      "k \<le> length taken" "p_errors p' = of_nat k" "w_mongo w' = map (x_bson ref_env) stored" "k = 0 \<longrightarrow> stored = taken"
    by (metis append_Nil add_0 length_Cons one_le_numeral list.size(3) One_nat_def)
  from t(1-3) have "k = 0 \<or> k = 1" by auto
  with r t show ?thesis by auto
qed

end
