(* ===== verification/WorkItemApi.thy ===== *)
theory WorkItemApi
  imports Http MongoStore Workflow
begin

text \<open>
  \<open>api/workitems.go\<close>: the REST handlers for work items, RCAs, signals and the dashboard. The path
  parameter, the result of \<open>BodyParser\<close> and the value that the middleware left in
  \<open>c.Locals("user")\<close> are arguments. A handler that starts a goroutine returns it as a pending task.
  The lemmas relate status codes to what has happened in the stores.
\<close>

subsection \<open>Substrings\<close>

text \<open>The loop of \<open>containsAt\<close> from index \<open>i\<close>.\<close>

function containsAt_from :: "string \<Rightarrow> string \<Rightarrow> nat \<Rightarrow> bool" where
  "containsAt_from s sub i =
     (if i + length sub \<le> length s
      then (if take (length sub) (drop i s) = sub then True else containsAt_from s sub (i + 1))
      else False)"
  by pat_completeness auto
termination
  by (relation "measure (\<lambda>(s, sub, i). Suc (length s) - i)") auto

declare containsAt_from.simps [simp del]

definition containsAt :: "string \<Rightarrow> string \<Rightarrow> bool" where
  "containsAt s sub = containsAt_from s sub 0"

definition contains :: "string \<Rightarrow> string \<Rightarrow> bool" where
  "contains s sub \<longleftrightarrow> length sub \<le> length s \<and> (s = sub \<or> 0 < length s \<and> containsAt s sub)"

definition isInvalidTransition :: "go_error option \<Rightarrow> bool" where
  "isInvalidTransition err = (case err of None \<Rightarrow> False | Some e \<Rightarrow> contains (Error e) ''invalid state transition'')"

subsection \<open>Handlers\<close>

definition api_error :: "nat \<Rightarrow> string \<Rightarrow> response" where
  "api_error st e = reply st [] (ErrorBody e)"

definition api_ListWorkItems :: "'o ext \<Rightarrow> 'o world \<Rightarrow> response \<times> task list \<times> 'o world" where
  "api_ListWorkItems E w =
     (case ListWorkItems E w of
        ((items, Some e), w1) \<Rightarrow> (api_error StatusInternalServerError (''failed to fetch work items: '' @ Error e), [], w1)
      | ((items, None), w1) \<Rightarrow> (reply StatusOK [] (WorkItemsBody items), [RebuildDashboard items], w1))"

definition api_GetWorkItem :: "'o ext \<Rightarrow> string \<Rightarrow> 'o world \<Rightarrow> response outcome \<times> 'o world" where
  "api_GetWorkItem E i w =
     (if i = [] then (Returned (api_error StatusBadRequest ''id is required''), w)
      else (case GetWorkItem E i w of
          (Inl e, w1) \<Rightarrow>
            (Returned (api_error (if e = ErrWorkItemNotFound then StatusNotFound else StatusInternalServerError) (Error e)), w1)
        | (Inr wi, w1) \<Rightarrow>
            (case GetSignalsByWorkItemID E i w1 of (res, w2) \<Rightarrow>
             let signals = (case res of Inl e \<Rightarrow> [] | Inr ss \<Rightarrow> ss) in
             case GetRCAByWorkItemID E i w2 of ((rca, _), w3) \<Rightarrow>
             case GetValidTransitionsSync (wi_State wi) of
               Panicked p \<Rightarrow> (Panicked p, w3)
             | Returned ts \<Rightarrow>
                 (Returned (reply StatusOK [] (DetailBody wi signals (int (length signals)) rca ts)), w3))))"

definition TransitionWorkItem ::
  "'o ext \<Rightarrow> string \<Rightarrow> go_error + WorkItemState \<Rightarrow> 'o world \<Rightarrow> response outcome \<times> 'o world" where
  "TransitionWorkItem E i parsed w =
     (if i = [] then (Returned (api_error StatusBadRequest ''id is required''), w)
      else (case parsed of
          Inl e \<Rightarrow> (Returned (api_error StatusBadRequest (''invalid request body: '' @ Error e)), w)
        | Inr toState \<Rightarrow>
            if toState = [] then (Returned (api_error StatusBadRequest ''to_state is required''), w)
            else (case Transition E i toState w of
                (Panicked p, w1) \<Rightarrow> (Panicked p, w1)
              | (Returned (Inl err), w1) \<Rightarrow>
                  (Returned (api_error
                     (if err = ErrWorkItemNotFound then StatusNotFound
                      else if err = ErrRCARequiredForClose then StatusUnprocessableEntity
                      else if isInvalidTransition (Some err) then StatusConflict
                      else StatusInternalServerError) (Error err)), w1)
              | (Returned (Inr updated), w1) \<Rightarrow> (Returned (reply StatusOK [] (TransitionBody updated)), w1))))"

text \<open>What \<open>c.Locals("user")\<close> can hold: nothing, the token of the JWT middleware, or a \<open>fiber.Map\<close>.\<close>

datatype local_user = No_user | Jwt_token | Fiber_map "(string \<times> any) list"

definition submitter :: "local_user \<Rightarrow> string \<Rightarrow> string" where
  "submitter user dflt =
     (case user of
        Fiber_map claims \<Rightarrow> (case map_of claims ''sub'' of Some (AString sub) \<Rightarrow> sub | _ \<Rightarrow> dflt)
      | _ \<Rightarrow> dflt)"

definition api_SubmitRCA ::
  "'o ext \<Rightarrow> string \<Rightarrow> go_error + RCA \<Rightarrow> local_user \<Rightarrow> 'o world \<Rightarrow> response \<times> 'o world" where
  "api_SubmitRCA E i parsed user w =
     (if i = [] then (api_error StatusBadRequest ''id is required'', w)
      else (case parsed of
          Inl e \<Rightarrow> (api_error StatusBadRequest (''invalid RCA body: '' @ Error e), w)
        | Inr rca \<Rightarrow>
            (case uuid_New E w of (u, w1) \<Rightarrow> case time_Now E w1 of (now, w2) \<Rightarrow>
             let rca = rca\<lparr>rca_WorkItemID := i, rca_ID := u, rca_SubmittedAt := now,
                           rca_SubmittedBy := submitter user (rca_SubmittedBy rca)\<rparr>
             in case SubmitRCA E rca w2 of
                  ((Some e, rca1), w3) \<Rightarrow> (api_error StatusUnprocessableEntity (Error e), w3)
                | ((None, rca1), w3) \<Rightarrow> (reply StatusCreated [] (RCACreatedBody rca1), w3))))"

definition api_GetRCA :: "'o ext \<Rightarrow> string \<Rightarrow> 'o world \<Rightarrow> response \<times> 'o world" where
  "api_GetRCA E i w =
     (case GetRCAByWorkItemID E i w of
        ((rca, Some e), w1) \<Rightarrow> (api_error StatusInternalServerError (Error e), w1)
      | ((None, None), w1) \<Rightarrow> (api_error StatusNotFound ''no RCA submitted for this work item'', w1)
      | ((Some rca, None), w1) \<Rightarrow> (reply StatusOK [] (RCABody rca), w1))"

text \<open>The dashboard state as both \<open>GetDashboard\<close> and \<open>rebuildDashboardCache\<close> build it.\<close>

definition dashboard_state :: "counts \<Rightarrow> float64 \<Rightarrow> WorkItem list \<Rightarrow> go_time \<Rightarrow> DashboardState" where
  "dashboard_state c sps items now =
     \<lparr>ds_TotalOpen = c_open c, ds_TotalInvestigating = c_investigating c, ds_TotalResolved = c_resolved c,
      ds_TotalClosed = c_closed c, ds_SignalsPerSecond = sps, ds_ActiveIncidents = items, ds_UpdatedAt = now\<rparr>"

definition GetDashboard :: "'o ext \<Rightarrow> 'o world \<Rightarrow> response \<times> 'o world" where
  "GetDashboard E w =
     (case GetDashboardState E w of
        ((Some cached, None), w1) \<Rightarrow> (reply StatusOK [] (DashboardBody cached), w1)
      | ((_, _), w1) \<Rightarrow>
          (case ListActiveWorkItems E w1 of
             ((items, Some e), w2) \<Rightarrow> (api_error StatusInternalServerError (Error e), w2)
           | ((items, None), w2) \<Rightarrow>
               (case GetDashboardCounts E w2 of
                  ((c, Some e), w3) \<Rightarrow> (api_error StatusInternalServerError (Error e), w3)
                | ((c, None), w3) \<Rightarrow>
                    (case GetSignalsPerSecond E w3 of ((sps, _), w4) \<Rightarrow>
                     case time_Now E w4 of (now, w5) \<Rightarrow>
                     let state = dashboard_state c sps items now in
                     case SetDashboardState E state w5 of (_, w6) \<Rightarrow>
                       (reply StatusOK [] (DashboardBody state), w6)))))"

definition api_GetSignals :: "'o ext \<Rightarrow> string \<Rightarrow> 'o world \<Rightarrow> response \<times> 'o world" where
  "api_GetSignals E workItemID w =
     (case GetSignalsByWorkItemID E workItemID w of
        (Inl e, w1) \<Rightarrow> (api_error StatusInternalServerError (Error e), w1)
      | (Inr signals, w1) \<Rightarrow> (reply StatusOK [] (SignalsBody signals (int (length signals))), w1))"

definition rebuildDashboardCache :: "'o ext \<Rightarrow> WorkItem list \<Rightarrow> 'o world \<Rightarrow> 'o world" where
  "rebuildDashboardCache E items w =
     (case GetDashboardCounts E w of
        ((c, Some e), w1) \<Rightarrow> w1
      | ((c, None), w1) \<Rightarrow>
          (case GetSignalsPerSecond E w1 of ((sps, _), w2) \<Rightarrow>
           let active = filter (\<lambda>wi. wi_State wi = StateOpen \<or> wi_State wi = StateInvestigating) items in
           case time_Now E w2 of (now, w3) \<Rightarrow>
           case SetDashboardState E (dashboard_state c sps active now) w3 of (_, w4) \<Rightarrow> w4))"

subsection \<open>Substring search is the sublist relation\<close>

lemma containsAt_from_iff:
  "containsAt_from s sub i \<longleftrightarrow> (\<exists>j \<ge> i. j + length sub \<le> length s \<and> take (length sub) (drop j s) = sub)"
proof (induction s sub i rule: containsAt_from.induct)
  case (1 s sub i)
  show ?case
  proof (cases "i + length sub \<le> length s \<and> take (length sub) (drop i s) \<noteq> sub")
    case True
    with 1 have "containsAt_from s sub i \<longleftrightarrow>
        (\<exists>j \<ge> i + 1. j + length sub \<le> length s \<and> take (length sub) (drop j s) = sub)"
      by (subst containsAt_from.simps) simp
    also have "\<dots> \<longleftrightarrow> (\<exists>j \<ge> i. j + length sub \<le> length s \<and> take (length sub) (drop j s) = sub)"
      using True by (metis Suc_eq_plus1 Suc_le_eq le_eq_less_or_eq)
    finally show ?thesis .
  next
    case False
    then show ?thesis by (subst containsAt_from.simps) auto
  qed
qed

lemma contains_iff_sublist: "contains s sub \<longleftrightarrow> sublist sub s"
proof
  assume "contains s sub"
  then have "s = sub \<or> (\<exists>j. take (length sub) (drop j s) = sub)"
    by (auto simp: contains_def containsAt_def containsAt_from_iff)
  then show "sublist sub s" by (metis sublist_drop sublist_take sublist_order.order.trans sublist_order.order.refl)
next
  assume "sublist sub s"
  then obtain ps ss where s: "s = ps @ sub @ ss" by (auto simp: sublist_def)
  then have "containsAt s sub"
    by (auto simp: containsAt_def containsAt_from_iff intro!: exI [of _ "length ps"])
  with s show "contains s sub" by (auto simp: contains_def)
qed

lemma invalid_transition_detected: "isInvalidTransition (Some (invalid_transition a b vs))"
proof -
  have "sublist ''invalid state transition'' (''workflow: '' @ ''invalid state transition'' @ x)" for x
    by (rule sublist_appendI)
  then show ?thesis
    by (simp add: isInvalidTransition_def contains_iff_sublist invalid_transition_def)
qed

subsection \<open>The dashboard\<close>

lemma SetDashboard_value:
  assumes "redis_service E" and "SetDashboardState E st w = (r, w')"
  shows "w_redis w' dashboardKey = w_redis w dashboardKey \<or> (\<exists>x. w_redis w' dashboardKey = Some (RJson st, x))"
  using assms(2)
  by (cases r) (auto simp: SetDashboardState_def redis_Set_def split: prod.splits option.splits
      dest!: redis_service.set_ok [OF assms(1)] redis_service.set_err [OF assms(1)])

text \<open>The result set of the counts is read to its end: no error after the last row.\<close>

definition counts_not_broken :: "'o ext \<Rightarrow> bool" where
  "counts_not_broken E \<longleftrightarrow> (\<forall>db v rows e v'. x_pg_counts E db v = (Inr (rows, e), v') \<longrightarrow> e = None)"

definition shows_db :: "pg_db \<Rightarrow> DashboardState \<Rightarrow> bool" where
  "shows_db db st \<longleftrightarrow>
     ds_TotalOpen st = state_count StateOpen db \<and> ds_TotalInvestigating st = state_count StateInvestigating db \<and>
     ds_TotalResolved st = state_count StateResolved db \<and> ds_TotalClosed st = state_count StateClosed db \<and>
     mset (ds_ActiveIncidents st) = mset (filter (wi_selected Active_items) (t_work_items db)) \<and>
     sorted (map wi_order (ds_ActiveIncidents st))"

lemma counts_shown:
  assumes "postgres_service E" and "counts_not_broken E" and "GetDashboardCounts E w = ((c, None), w')"
  shows "c = \<lparr>c_open = state_count StateOpen (w_pg w), c_investigating = state_count StateInvestigating (w_pg w),
    c_resolved = state_count StateResolved (w_pg w), c_closed = state_count StateClosed (w_pg w)\<rparr>"
proof -
  obtain rows e v where "x_pg_counts E (w_pg w) (w_env w) = (Inr (rows, e), v)"
    using assms(3) by (auto simp: GetDashboardCounts_def split: prod.splits sum.splits)
  moreover from this assms(2) have "e = None" unfolding counts_not_broken_def by blast
  ultimately show ?thesis using postgres_service.counts_exact [OF assms(1,3)] by blast
qed

context backend
begin

lemma GetDashboard_miss:
  assumes "GetDashboard E w = (resp, w')" and "rsp_status resp = StatusOK"
    and "counts_not_broken E" and "w_redis w dashboardKey = None"
  shows "\<exists>st. rsp_body resp = DashboardBody st \<and> shows_db (w_pg w) st \<and> w_pg w' = w_pg w \<and> w_mongo w' = w_mongo w \<and>
    (w_redis w' dashboardKey = None \<or> (\<exists>x. w_redis w' dashboardKey = Some (RJson st, x)))"
proof -
  obtain cd ce w1 where g: "GetDashboardState E w = ((cd, ce), w1)" by (metis surj_pair)
  have cd: "cd = None" by (rule rd.GetDashboard_empty [OF g assms(4)])
  have s1: "same_stores w w1" by (rule GetDashboardState_frame [OF g])
  obtain items le w2 where l: "ListActiveWorkItems E w1 = ((items, le), w2)" by (metis surj_pair)
  have s2: "same_stores w w2"
    using s1 pg.query_items_frame [OF l [unfolded ListActiveWorkItems_def]] by (rule same_stores_trans)
  from assms(1,2) g cd l have le: "le = None" by (cases le) (auto simp: GetDashboard_def api_error_def)
  obtain c ce2 w3 where k: "GetDashboardCounts E w2 = ((c, ce2), w3)" by (metis surj_pair)
  have s3: "same_stores w w3" using s2 pg.counts_frame [OF k] by (rule same_stores_trans)
  from assms(1,2) g cd l le k have ce2: "ce2 = None" by (cases ce2) (auto simp: GetDashboard_def api_error_def)
  obtain sps e4 w4 where p: "GetSignalsPerSecond E w3 = ((sps, e4), w4)" by (metis surj_pair)
  have s4: "same_stores w w4" using s3 GetSignalsPerSecond_frame [OF p] by (rule same_stores_trans)
  obtain now w5 where n: "time_Now E w4 = (now, w5)" by fastforce
  have s5: "same_stores w w5" using s4 time_Now_frame [OF n] by (rule same_stores_trans)
  let ?st = "dashboard_state c sps items now"
  obtain r w6 where d: "SetDashboardState E ?st w5 = (r, w6)" by fastforce
  from assms(1) g cd l le k ce2 p n d have out: "resp = reply StatusOK [] (DashboardBody ?st)" "w' = w6"
    by (simp_all add: GetDashboard_def Let_def)
  have "mset items = mset (filter (wi_selected Active_items) (t_work_items (w_pg w))) \<and> sorted (map wi_order items)"
    using pg.query_items_ok [of Active_items w1 items w2] l le s1 by (simp add: ListActiveWorkItems_def same_stores_def)
  moreover have "c = \<lparr>c_open = state_count StateOpen (w_pg w), c_investigating = state_count StateInvestigating (w_pg w),
    c_resolved = state_count StateResolved (w_pg w), c_closed = state_count StateClosed (w_pg w)\<rparr>"
    using counts_shown [OF pg.postgres_service_axioms assms(3), of w2 c w3] k ce2 s2 by (simp add: same_stores_def)
  ultimately have "shows_db (w_pg w) ?st" by (simp add: shows_db_def dashboard_state_def)
  moreover have "w_pg w6 = w_pg w \<and> w_mongo w6 = w_mongo w"
    using SetDashboardState_frame [OF d] s5 by (simp add: same_stores_def)
  moreover have "w_redis w6 dashboardKey = None \<or> (\<exists>x. w_redis w6 dashboardKey = Some (RJson ?st, x))"
    using SetDashboard_value [OF rd.redis_service_axioms d] s5 assms(4) by (simp add: same_stores_def)
  ultimately show ?thesis using out by simp
qed

end

subsection \<open>Properties\<close>

lemma Transition_response:
  assumes "i \<noteq> []" and "to \<noteq> []" and "TransitionWorkItem E i (Inr to) w = (Returned resp, w')"
    and "Transition E i to w = (out, w1)"
  shows "w' = w1 \<and> (rsp_status resp = StatusOK \<longrightarrow> (\<exists>u. out = Returned (Inr u) \<and> rsp_body resp = TransitionBody u)) \<and>
    (\<forall>a b vs. out = Returned (Inl (invalid_transition a b vs)) \<longrightarrow> rsp_status resp = StatusConflict)"
proof (cases out)
  case (Panicked p)
  with assms show ?thesis by (simp add: TransitionWorkItem_def)
next
  case (Returned res)
  show ?thesis
  proof (cases res)
    case (Inl e)
    with Returned assms have "resp = api_error (if e = ErrWorkItemNotFound then StatusNotFound
        else if e = ErrRCARequiredForClose then StatusUnprocessableEntity
        else if isInvalidTransition (Some e) then StatusConflict else StatusInternalServerError) (Error e)" "w' = w1"
      by (simp_all add: TransitionWorkItem_def)
    with Returned Inl invalid_transition_detected show ?thesis by (auto simp: api_error_def invalid_transition_def)
  next
    case (Inr u)
    with Returned assms show ?thesis by (auto simp: TransitionWorkItem_def)
  qed
qed

lemma TransitionWorkItem_ok:
  assumes "postgres_service E" and "i \<noteq> []" and "to \<noteq> []" and "TransitionWorkItem E i (Inr to) w = (Returned resp, w')"
    and "rsp_status resp = StatusOK"
  shows "\<exists>u mttr. rsp_body resp = TransitionBody u \<and> wi_State u = to \<and>
    row_with wi_ID i (t_work_items (w_pg w')) = Some u \<and> sound_move (w_pg w) i to mttr"
proof -
  obtain out w1 where t: "Transition E i to w = (out, w1)" by fastforce
  note run = Transition_response [OF assms(2-4) t]
  with assms(5) obtain u where u: "out = Returned (Inr u)" "rsp_body resp = TransitionBody u" by blast
  with postgres_service.Transition_effect [OF assms(1) t] obtain st mttr where e: "sound_move (w_pg w) i to mttr"
      "apply_stmt (state_stmt to mttr i st) (w_pg w) = Some (w_pg w1)" "row_with wi_ID i (t_work_items (w_pg w1)) = Some u"
    by blast
  from e(1) obtain r where r: "row_with wi_ID i (t_work_items (w_pg w)) = Some r"
    by (auto simp: sound_move_def)
  have "wi_State u = to"
    using e(2,3) r by (auto simp: apply_stmt_Some_iff state_stmt_def row_with_upd_where_same split: if_splits)
  with u e run show ?thesis by auto
qed

lemma TransitionWorkItem_refused:
  assumes "postgres_service E" and "schema_ok (w_pg w)" and "i \<noteq> []" and "to \<noteq> []"
    and "row_with wi_ID i (t_work_items (w_pg w)) = Some r"
    and "TransitionWorkItem E i (Inr to) w = (Returned resp, w')" and "\<not> lifecycle_edge (wi_State r) to"
  shows "same_stores w w'" and "rsp_status resp = StatusConflict \<or> (\<exists>e. fst (GetWorkItem E i w) = Inl e)"
proof -
  obtain out w1 where t: "Transition E i to w = (out, w1)" by fastforce
  note run = Transition_response [OF assms(3,4,6) t]
  from postgres_service.Transition_refused [OF assms(1) t assms(5) known_state [OF assms(2,5)] assms(7)] run
  show "same_stores w w'" by simp
  show "rsp_status resp = StatusConflict \<or> (\<exists>e. fst (GetWorkItem E i w) = Inl e)"
  proof (cases "fst (GetWorkItem E i w)")
    case (Inr wi)
    then obtain w2 where g: "GetWorkItem E i w = (Inr wi, w2)" by (metis prod.collapse)
    with assms(5) have wi: "wi = r" using postgres_service.GetWorkItem_ok [OF assms(1) g] by simp
    obtain s where s: "stateRegistry (wi_State r) = Some s" using wf.registry_total known_state [OF assms(2,5)] by blast
    then have "\<not> CanTransitionTo s to" using assms(7) by (simp add: stateRegistry_iff can_iff_lifecycle)
    from Transition_blocked [OF g [unfolded wi] s this] t run show ?thesis by auto
  qed auto
qed



text \<open>
  C25. The work item of a submitted RCA comes from the path. If the endpoint answers 201, the RCA that was
  stored and returned is for the item named in the URL, whatever the body said, has a new identifier that
  is not empty and the other contents of the body, and it is the only row added.
\<close>

theorem submit_rca_bound_to_path:
  assumes "backend E" and "api_SubmitRCA E i (Inr rca) user w = (resp, w')" and "rsp_status resp = StatusCreated"
  shows "\<exists>stored. rsp_body resp = RCACreatedBody stored \<and> rca_WorkItemID stored = i \<and> rca_ID stored \<noteq> [] \<and>
    rca_IncidentStart stored = rca_IncidentStart rca \<and> rca_IncidentEnd stored = rca_IncidentEnd rca \<and>
    rca_RootCauseDetail stored = rca_RootCauseDetail rca \<and> rca_FixApplied stored = rca_FixApplied rca \<and>
    rca_PreventionSteps stored = rca_PreventionSteps rca \<and> complete_rca stored \<and>
    t_rcas (w_pg w') = t_rcas (w_pg w) @ [inserted_rca stored] \<and> t_work_items (w_pg w') = t_work_items (w_pg w)"
proof -
  obtain u w1 now w2 where f: "uuid_New E w = (u, w1)" "time_Now E w1 = (now, w2)" by (metis surj_pair)
  have u: "u \<noteq> []" and s2: "same_stores w w2"
    using f uuid_service.uuid_nonempty [OF backend.axioms(4) [OF assms(1)], of "w_env w" u]
    by (auto simp: same_stores_def uuid_New_def split: prod.splits dest!: time_Now_frame)
  let ?rca = "rca\<lparr>rca_WorkItemID := i, rca_ID := u, rca_SubmittedAt := now,
    rca_SubmittedBy := submitter user (rca_SubmittedBy rca)\<rparr>"
  obtain e rca1 w3 where sb: "SubmitRCA E ?rca w2 = ((e, rca1), w3)" by (metis surj_pair)
  from assms(2,3) f sb have out: "e = None" "resp = reply StatusCreated [] (RCACreatedBody rca1)" "w' = w3"
    by (cases "i = []"; cases e; simp add: api_SubmitRCA_def api_error_def Let_def; force)+
  from postgres_service.SubmitRCA_effect [OF backend.axioms(1) [OF assms(1)] sb [unfolded out(1)]]
  have "complete_rca ?rca" "\<exists>t. rca1 = ?rca\<lparr>rca_SubmittedAt := t\<rparr>" "apply_stmt (INSERT_rca rca1) (w_pg w2) = Some (w_pg w3)"
    by blast+
  with out u s2 show ?thesis by (auto simp: apply_stmt_Some_iff same_stores_def complete_rca_def)
qed

theorem submit_rca_bound_to_path_witness:
  "\<exists>stored w'. api_SubmitRCA ref_env ''w1'' (Inr (ex_rca\<lparr>rca_WorkItemID := ''other''\<rparr>)) Jwt_token (ex_world StateResolved [] []) =
      (reply StatusCreated [] (RCACreatedBody stored), w') \<and> rca_WorkItemID stored = ''w1''"
proof -
  let ?run = "api_SubmitRCA ref_env ''w1'' (Inr (ex_rca\<lparr>rca_WorkItemID := ''other''\<rparr>)) Jwt_token (ex_world StateResolved [] [])"
  obtain resp w' where r: "?run = (resp, w')" by fastforce
  have "rsp_status (fst ?run) = StatusCreated \<and> rsp_headers (fst ?run) = []" by code_simp
  with r have st: "rsp_status resp = StatusCreated" "rsp_headers resp = []" by simp_all
  from submit_rca_bound_to_path [OF ref.backend_axioms r st(1)] obtain stored where
      "rsp_body resp = RCACreatedBody stored" "rca_WorkItemID stored = ''w1''" by blast
  with r st show ?thesis by (intro exI [of _ stored] exI [of _ w']) (cases resp, simp add: reply_def)
qed



text \<open>
  \<open>contains\<close>, written by hand in the handler, is substring search: it holds exactly if the second
  text occurs in the first, the empty text included.
\<close>

theorem contains_correct: "contains s sub \<longleftrightarrow> (\<exists>ps ss. s = ps @ sub @ ss)"
  by (simp add: contains_iff_sublist sublist_def)

subsection \<open>A rebuild that comes late\<close>

text \<open>
  The list is fetched and its rebuild of the cache started; before that goroutine runs, a transition is
  carried out; then the dashboard is asked for.
\<close>

definition late_rebuild ::
  "'o ext \<Rightarrow> string \<Rightarrow> WorkItemState \<Rightarrow> 'o world \<Rightarrow> response outcome \<times> response \<times> 'o world" where
  "late_rebuild E i st w =
     (case api_ListWorkItems E w of (r, ts, w1) \<Rightarrow>
      case TransitionWorkItem E i (Inr st) w1 of (out, w2) \<Rightarrow>
      let w3 = foldl (\<lambda>v t. case t of RebuildDashboard items \<Rightarrow> rebuildDashboardCache E items v | _ \<Rightarrow> v) w2 ts in
      case GetDashboard E w3 of (resp, w4) \<Rightarrow> (out, resp, w4))"

text \<open>
  C38. The cache can go back in time. A rebuild started by a listing writes the list it was given, together
  with counts it reads when it runs: if a transition to RESOLVED, answered with 200 and its invalidation done, comes in
  between, the dashboard lists the item as INVESTIGATING although its row is RESOLVED, beside counts
  that say no item is investigated.
\<close>

theorem stale_dashboard:
  "\<exists>out resp w4 st r. late_rebuild ref_env ''w1'' StateResolved (ex_world StateInvestigating [] []) = (Returned out, resp, w4) \<and>
     rsp_status out = StatusOK \<and> rsp_body resp = DashboardBody st \<and> r \<in> set (ds_ActiveIncidents st) \<and>
     wi_ID r = ''w1'' \<and> wi_State r = StateInvestigating \<and> ds_TotalInvestigating st = 0 \<and>
     map (\<lambda>r. (wi_ID r, wi_State r)) (t_work_items (w_pg w4)) = [(''w1'', StateResolved)]"
proof -
  let ?run = "late_rebuild ref_env ''w1'' StateResolved (ex_world StateInvestigating [] [])"
  obtain out resp w4 where run: "?run = (out, resp, w4)" by (metis surj_pair)
  have "case fst ?run of Returned r \<Rightarrow> rsp_status r = StatusOK | Panicked p \<Rightarrow> False" by code_simp
  then obtain r1 where 1: "out = Returned r1" "rsp_status r1 = StatusOK" unfolding run by (auto split: outcome.splits)
  have "case rsp_body (fst (snd ?run)) of
      DashboardBody st \<Rightarrow> map (\<lambda>wi. (wi_ID wi, wi_State wi)) (ds_ActiveIncidents st) = [(''w1'', StateInvestigating)] \<and>
        ds_TotalInvestigating st = 0
    | _ \<Rightarrow> False" by code_simp
  then obtain st where 2: "rsp_body resp = DashboardBody st" "ds_TotalInvestigating st = 0"
      "map (\<lambda>wi. (wi_ID wi, wi_State wi)) (ds_ActiveIncidents st) = [(''w1'', StateInvestigating)]"
    unfolding run by (auto split: body.splits)
  have 3: "map (\<lambda>r. (wi_ID r, wi_State r)) (t_work_items (w_pg (snd (snd ?run)))) = [(''w1'', StateResolved)]" by code_simp
  from 2(3) obtain r where "r \<in> set (ds_ActiveIncidents st)" "wi_ID r = ''w1''" "wi_State r = StateInvestigating"
    by (cases "ds_ActiveIncidents st") auto
  with run 1 2 3 show ?thesis by auto
qed

end
