(* ===== verification/Auth.thy ===== *)
theory Auth
  imports Http RefEnv
begin

text \<open>
  \<open>api/auth.go\<close>: the in-memory user store, token creation, the two endpoints and the middleware that
  guards the other routes. bcrypt, the JWT libraries and the process environment are not part of the
  repository: they are the record \<open>auth_ext\<close>, and what the code relies on is the locale
  \<open>auth_service\<close>. Both \<open>create\<close> (under the lock) and \<open>verify\<close> are atomic.
\<close>

record user =
  u_ID :: string
  u_Username :: string
  u_PasswordHash :: string
  u_CreatedAt :: go_time

type_synonym userStore = "string \<Rightarrow> user option"

definition users :: userStore where
  "users = (\<lambda>_. None)"

record claims =
  cl_sub :: string
  cl_exp :: int
  cl_iat :: int

record 'o auth_ext =
  a_hash :: "string \<Rightarrow> 'o \<Rightarrow> (go_error + string) \<times> 'o"
  a_compare :: "string \<Rightarrow> string \<Rightarrow> go_error option"
  a_sign :: "claims \<Rightarrow> string \<Rightarrow> go_error + string"
  a_parse :: "string \<Rightarrow> int \<Rightarrow> string \<Rightarrow> go_error + claims"
  a_getenv :: "string \<Rightarrow> string"

subsection \<open>Operations\<close>

definition bcrypt_Generate :: "'o auth_ext \<Rightarrow> string \<Rightarrow> 'o world \<Rightarrow> (go_error + string) \<times> 'o world" where
  "bcrypt_Generate A pw w = (case a_hash A pw (w_env w) of (r, v) \<Rightarrow> (r, w\<lparr>w_env := v\<rparr>))"

definition user_create ::
  "'o ext \<Rightarrow> 'o auth_ext \<Rightarrow> string \<Rightarrow> string \<Rightarrow> userStore \<Rightarrow> 'o world \<Rightarrow> go_error option \<times> userStore \<times> 'o world" where
  "user_create E A username password s w =
     (if s username \<noteq> None then (Some (NewError ''username already taken''), s, w)
      else (case bcrypt_Generate A password w of
          (Inl e, w1) \<Rightarrow> (Some e, s, w1)
        | (Inr h, w1) \<Rightarrow>
            (case uuid_New E w1 of (u, w2) \<Rightarrow> case time_Now E w2 of (now, w3) \<Rightarrow>
               (None, s(username \<mapsto> \<lparr>u_ID = u, u_Username = username, u_PasswordHash = h, u_CreatedAt = now\<rparr>), w3))))"

definition user_verify :: "'o auth_ext \<Rightarrow> string \<Rightarrow> string \<Rightarrow> userStore \<Rightarrow> go_error + user" where
  "user_verify A username password s =
     (case s username of
        None \<Rightarrow> Inl ErrInvalidCredentials
      | Some u \<Rightarrow> if a_compare A (u_PasswordHash u) password \<noteq> None then Inl ErrInvalidCredentials else Inr u)"

definition jwtSecret :: "'o auth_ext \<Rightarrow> string" where
  "jwtSecret A = (let s = a_getenv A ''JWT_SECRET'' in
     if s = [] then ''ims-super-secret-change-in-production'' else s)"

definition makeToken :: "'o ext \<Rightarrow> 'o auth_ext \<Rightarrow> string \<Rightarrow> 'o world \<Rightarrow> (go_error + string) \<times> 'o world" where
  "makeToken E A username w =
     (case time_Now E w of (t1, w1) \<Rightarrow> case time_Now E w1 of (t2, w2) \<Rightarrow>
        (a_sign A \<lparr>cl_sub = username, cl_exp = Unix (t1 + 24 * 60 * minute), cl_iat = Unix t2\<rparr> (jwtSecret A), w2))"

text \<open>The middleware: a request without a valid token is answered, otherwise the handler runs.\<close>

definition JWTMiddleware :: "'o auth_ext \<Rightarrow> go_time \<Rightarrow> string \<Rightarrow> response + claims" where
  "JWTMiddleware A now token =
     (case a_parse A (jwtSecret A) (Unix now) token of
        Inl e \<Rightarrow> Inl (reply StatusUnauthorized [] (ErrorBody (Error ErrUnauthorized)))
      | Inr c \<Rightarrow> Inr c)"

definition Signup ::
  "'o ext \<Rightarrow> 'o auth_ext \<Rightarrow> go_error + string \<times> string \<Rightarrow> userStore \<Rightarrow> 'o world \<Rightarrow> response \<times> userStore \<times> 'o world" where
  "Signup E A parsed s w =
     (case parsed of
        Inl e \<Rightarrow> (reply StatusBadRequest [] (ErrorBody ''invalid request body''), s, w)
      | Inr (username, password) \<Rightarrow>
          if length username < 3
          then (reply StatusBadRequest [] (ErrorBody ''username must be at least 3 characters''), s, w)
          else if length password < 6
          then (reply StatusBadRequest [] (ErrorBody ''password must be at least 6 characters''), s, w)
          else (case user_create E A username password s w of
              (Some e, s1, w1) \<Rightarrow> (reply StatusConflict [] (ErrorBody (Error e)), s1, w1)
            | (None, s1, w1) \<Rightarrow>
                (case makeToken E A username w1 of
                   (Inl e, w2) \<Rightarrow> (reply StatusInternalServerError [] (ErrorBody ''failed to generate token''), s1, w2)
                 | (Inr token, w2) \<Rightarrow> (reply StatusCreated [] (TokenBody token), s1, w2))))"

definition Login ::
  "'o ext \<Rightarrow> 'o auth_ext \<Rightarrow> go_error + string \<times> string \<Rightarrow> userStore \<Rightarrow> 'o world \<Rightarrow> response \<times> 'o world" where
  "Login E A parsed s w =
     (case parsed of
        Inl e \<Rightarrow> (reply StatusBadRequest [] (ErrorBody ''invalid request body''), w)
      | Inr (username, password) \<Rightarrow>
          (case user_verify A username password s of
             Inl e \<Rightarrow> (reply StatusUnauthorized [] (ErrorBody (Error ErrInvalidCredentials)), w)
           | Inr u \<Rightarrow>
               (case makeToken E A (u_Username u) w of
                  (Inl e, w1) \<Rightarrow> (reply StatusInternalServerError [] (ErrorBody ''failed to generate token''), w1)
                | (Inr token, w1) \<Rightarrow> (reply StatusOK [] (TokenBody token), w1))))"

subsection \<open>What the code relies on\<close>

text \<open>
  A hash matches the password it was made from; a token signed with a secret is parsed with that secret
  to its claims as long as it has not expired.
\<close>

locale auth_service =
  fixes A :: "'o auth_ext"
  assumes compare_hash: "a_hash A pw v = (Inr h, v') \<Longrightarrow> a_compare A h pw = None"
    and parse_sign: "a_sign A c s = Inr token \<Longrightarrow> t < cl_exp c \<Longrightarrow> a_parse A s t token = Inr c"

definition users_ok :: "userStore \<Rightarrow> bool" where
  "users_ok s \<longleftrightarrow> (\<forall>n u. s n = Some u \<longrightarrow> u_Username u = n)"

lemma users_ok_start: "users_ok users"
  by (simp add: users_ok_def users_def)

lemma create_adds:
  assumes "user_create E A n pw s w = (r, s', w')"
  shows "(\<forall>m u. s m = Some u \<longrightarrow> s' m = Some u) \<and> (\<forall>m. m \<noteq> n \<longrightarrow> s' m = s m) \<and> (users_ok s \<longrightarrow> users_ok s') \<and>
    (r = None \<longrightarrow> s n = None \<and> (\<exists>u. s' n = Some u \<and> u_Username u = n)) \<and> (r \<noteq> None \<longrightarrow> s' = s)"
  using assms by (auto simp: user_create_def users_ok_def split: if_splits prod.splits sum.splits)

lemma Signup_adds:
  assumes "Signup E A parsed s w = (resp, s', w')"
  shows "(\<forall>m u. s m = Some u \<longrightarrow> s' m = Some u) \<and> (users_ok s \<longrightarrow> users_ok s')"
  using assms by (auto simp: Signup_def split: sum.splits prod.splits if_splits option.splits dest!: create_adds)

context auth_service
begin

lemma create_verifies:
  assumes "user_create E A n pw s w = (None, s', w')"
  shows "\<exists>u. user_verify A n pw s' = Inr u \<and> u_Username u = n"
proof -
  obtain h v where h: "a_hash A pw (w_env w) = (Inr h, v)" and u: "\<exists>u. s' n = Some u \<and> u_Username u = n \<and> u_PasswordHash u = h"
    using assms by (auto simp: user_create_def bcrypt_Generate_def split: if_splits prod.splits sum.splits)
  with compare_hash [OF h] show ?thesis by (auto simp: user_verify_def)
qed

end

text \<open>A sequence of signups by anybody.\<close>

fun signups ::
  "'o ext \<Rightarrow> 'o auth_ext \<Rightarrow> (go_error + string \<times> string) list \<Rightarrow> userStore \<Rightarrow> 'o world \<Rightarrow> userStore \<times> 'o world" where
  "signups E A [] s w = (s, w)"
| "signups E A (p # ps) s w = (case Signup E A p s w of (resp, s1, w1) \<Rightarrow> signups E A ps s1 w1)"

lemma signups_keep: "signups E A ps s w = (s', w') \<Longrightarrow> s n = Some u \<Longrightarrow> s' n = Some u"
proof (induction ps arbitrary: s w)
  case (Cons p ps)
  obtain resp s1 w1 where g: "Signup E A p s w = (resp, s1, w1)" by (metis surj_pair)
  with Cons Signup_adds [OF g] show ?case by simp
qed simp

subsection \<open>A concrete instance\<close>

definition ref_auth :: "ref_o auth_ext" where
  "ref_auth = \<lparr>a_hash = (\<lambda>pw v. (if 72 < length pw then Inl (ExtError ''password too long'') else Inr (''h:'' @ pw), v)),
     a_compare = (\<lambda>h pw. if h = ''h:'' @ pw then None else Some (ExtError ''mismatch'')),
     a_sign = (\<lambda>c s. Inr (itoa (cl_exp c) @ '' '' @ itoa (cl_iat c) @ '' '' @ cl_sub c)),
     a_parse = (\<lambda>s t token.
       let e = takeWhile (\<lambda>x. x \<noteq> CHR '' '') token; r1 = drop (Suc (length e)) token;
           i = takeWhile (\<lambda>x. x \<noteq> CHR '' '') r1; r2 = drop (Suc (length i)) r1
       in case (atoi e, atoi i) of
            (Some ex, Some ia) \<Rightarrow> if t < ex then Inr \<lparr>cl_sub = r2, cl_exp = ex, cl_iat = ia\<rparr> else Inl (ExtError ''expired'')
          | _ \<Rightarrow> Inl (ExtError ''malformed'')),
     a_getenv = (\<lambda>_. [])\<rparr>"

lemma show_nat_no_space: "CHR '' '' \<notin> set (show_nat n)"
proof
  assume "CHR '' '' \<in> set (show_nat n)"
  then have "is_digit (CHR '' '')" using show_nat_digits [of n] by (simp only: list_all_iff)
  then show False by (simp add: is_digit_def)
qed

lemma itoa_no_space: "CHR '' '' \<notin> set (itoa i)"
  by (simp add: itoa_def show_nat_no_space)

lemma takeWhile_field: "CHR '' '' \<notin> set xs \<Longrightarrow> takeWhile (\<lambda>x. x \<noteq> CHR '' '') (xs @ CHR '' '' # ys) = xs"
  by (subst takeWhile_append2) auto

interpretation ref_auth: auth_service ref_auth
proof
  fix c s token t
  assume "a_sign ref_auth c s = Inr token" "t < cl_exp c"
  then show "a_parse ref_auth s t token = Inr c"
    by (auto simp: ref_auth_def takeWhile_field itoa_no_space atoi_itoa Let_def)
qed (auto simp: ref_auth_def split: if_splits)

subsection \<open>Properties\<close>

text \<open>
  C27. Sign up, then log in. After a signup that was answered with 201 and any number of further
  signups by anybody, a login with the same name and password is answered with 200 and a token, unless
  signing fails; the token passes the middleware for 24 hours from the login, and carries the name.
\<close>

theorem signup_then_login:
  assumes "auth_service A" and "Signup E A (Inr (n, pw)) s w = (resp, s1, w1)" and "rsp_status resp = StatusCreated"
    and "signups E A ps s1 w1 = (s2, w2)" and "Login E A (Inr (n, pw)) s2 w3 = (resp', w4)"
    and "fst (time_Now E w3) = t0"
  shows "rsp_status resp' \<in> {StatusOK, StatusInternalServerError} \<and>
    (rsp_status resp' = StatusOK \<longrightarrow> (\<exists>token. rsp_body resp' = TokenBody token \<and>
       (\<forall>t. Unix t < Unix (t0 + 24 * 60 * minute) \<longrightarrow> (\<exists>c. JWTMiddleware A t token = Inr c \<and> cl_sub c = n))))"
proof -
  obtain r s0 w0 where c: "user_create E A n pw s w = (r, s0, w0)" by (metis surj_pair)
  from assms(2,3) c have r: "r = None" "s1 = s0"
    by (auto simp: Signup_def split: if_splits option.splits prod.splits sum.splits)
  from auth_service.create_verifies [OF assms(1) c [unfolded r]] obtain u where
      u: "user_verify A n pw s0 = Inr u" "u_Username u = n" by blast
  then have "s0 n = Some u" by (auto simp: user_verify_def split: option.splits if_splits)
  then have "s2 n = Some u" using signups_keep [OF assms(4)] r by simp
  with u have v: "user_verify A n pw s2 = Inr u" by (auto simp: user_verify_def split: option.splits if_splits)
  obtain t2 w' w'' where n: "time_Now E w3 = (t0, w')" "time_Now E w' = (t2, w'')"
    using assms(6) by (metis surj_pair fst_conv)
  let ?c = "\<lparr>cl_sub = n, cl_exp = Unix (t0 + 24 * 60 * minute), cl_iat = Unix t2\<rparr>"
  have m: "makeToken E A n w3 = (a_sign A ?c (jwtSecret A), w'')" using n by (simp add: makeToken_def)
  show ?thesis
  proof (cases "a_sign A ?c (jwtSecret A)")
    case (Inl e)
    with assms(5) v u m show ?thesis by (auto simp: Login_def)
  next
    case (Inr token)
    with assms(5) v u m have "resp' = reply StatusOK [] (TokenBody token)" by (auto simp: Login_def)
    moreover have "JWTMiddleware A t token = Inr ?c" if "Unix t < Unix (t0 + 24 * 60 * minute)" for t
      using auth_service.parse_sign [OF assms(1) Inr] that by (simp add: JWTMiddleware_def)
    ultimately show ?thesis by auto
  qed
qed

theorem signup_then_login_witness:
  "\<exists>resp' w4 token. Login ref_env ref_auth (Inr (''alice'', ''secret'')) (fst (snd (Signup ref_env ref_auth
       (Inr (''alice'', ''secret'')) users (ref_world 5 [])))) (ref_world 5 []) = (resp', w4) \<and>
     rsp_body resp' = TokenBody token \<and> (\<exists>c. JWTMiddleware ref_auth 7 token = Inr c \<and> cl_sub c = ''alice'')"
proof -
  let ?up = "Signup ref_env ref_auth (Inr (''alice'', ''secret'')) users (ref_world 5 [])"
  obtain resp s1 w1 where g: "?up = (resp, s1, w1)" by (metis surj_pair)
  have "rsp_status (fst ?up) = StatusCreated" by code_simp
  with g have st: "rsp_status resp = StatusCreated" by simp
  have none: "signups ref_env ref_auth [] s1 w1 = (s1, w1)" by simp
  obtain resp' w4 where l: "Login ref_env ref_auth (Inr (''alice'', ''secret'')) s1 (ref_world 5 []) = (resp', w4)" by fastforce
  have "rsp_status (fst (Login ref_env ref_auth (Inr (''alice'', ''secret'')) (fst (snd ?up)) (ref_world 5 []))) = StatusOK"
    by code_simp
  with g l have ok: "rsp_status resp' = StatusOK" by simp
  have t0: "fst (time_Now ref_env (ref_world 5 [])) = 5" by code_simp
  have "Unix 7 < Unix (5 + 24 * 60 * minute)" by code_simp
  with signup_then_login [OF ref_auth.auth_service_axioms g st none l t0] ok g l show ?thesis by auto
qed

text \<open>
  Accounts are not taken over. No signup, whatever its body, changes or removes an existing account;
  for a name that is taken it is answered with 400 or 409 and the store is as before.
\<close>

theorem signup_keeps_accounts:
  assumes "s n = Some u" and "Signup E A parsed s w = (resp, s', w')"
  shows "s' n = Some u \<and> ((\<exists>pw. parsed = Inr (n, pw)) \<longrightarrow>
    rsp_status resp \<in> {StatusBadRequest, StatusConflict} \<and> s' = s)"
  using assms Signup_adds [OF assms(2)] by (auto simp: Signup_def user_create_def split: if_splits)

theorem signup_keeps_accounts_witness:
  "rsp_status (fst (Signup ref_env ref_auth (Inr (''alice'', ''other-password'')) (fst (snd (Signup ref_env ref_auth
     (Inr (''alice'', ''secret'')) users (ref_world 5 [])))) (ref_world 5 []))) \<in> {StatusBadRequest, StatusConflict}"
proof -
  let ?s = "fst (snd (Signup ref_env ref_auth (Inr (''alice'', ''secret'')) users (ref_world 5 [])))"
  have "?s ''alice'' \<noteq> None" by code_simp
  then obtain u where u: "?s ''alice'' = Some u" by blast
  obtain resp s' w' where g: "Signup ref_env ref_auth (Inr (''alice'', ''other-password'')) ?s (ref_world 5 []) = (resp, s', w')"
    by (metis surj_pair)
  from signup_keeps_accounts [of ?s "''alice''" u, OF u g] g show ?thesis by simp
qed

end
