(* ===== verification/Hub.thy ===== *)
theory Hub
  imports RefEnv
begin

text \<open>
  \<open>api/websocket.go\<close>: the hub of the WebSocket connections. The three buffered channels are lists with
  the capacities of the source; each case of the \<open>select\<close> in \<open>run\<close> is one operation; a goroutine that
  waits to send on \<open>unregister\<close> is an element of \<open>hb_senders\<close>. The fields \<open>hb_handlers\<close> (connections
  whose \<open>HandleWS\<close> is reading), \<open>hb_seen\<close>, \<open>hb_closed\<close> (calls of \<open>conn.Close\<close>) and \<open>hb_sent\<close> (successful
  writes) record what happens outside the struct. Goroutines interleave as in the step relation. Every
  upgrade has a connection of its own: how the WebSocket library reuses its objects is not modelled.
\<close>

type_synonym conn = nat

record WSMessage =
  ws_Type :: string
  ws_Payload :: any
  ws_Timestamp :: go_time

record Hub =
  hb_clients :: "conn list"
  hb_broadcast :: "WSMessage list"
  hb_register :: "conn list"
  hb_unregister :: "conn list"
  hb_senders :: "conn list"
  hb_handlers :: "conn list"
  hb_seen :: "conn list"
  hb_closed :: "conn list"
  hb_sent :: "(conn \<times> WSMessage) list"

definition NewHub :: Hub where
  "NewHub = \<lparr>hb_clients = [], hb_broadcast = [], hb_register = [], hb_unregister = [], hb_senders = [],
     hb_handlers = [], hb_seen = [], hb_closed = [], hb_sent = []\<rparr>"

definition broadcast_cap :: nat where "broadcast_cap = 256"
definition conn_cap :: nat where "conn_cap = 32"

subsection \<open>Operations\<close>

text \<open>The non-blocking send of \<open>Broadcast\<close>; the flag tells whether the message was queued.\<close>

definition broadcast_send :: "WSMessage \<Rightarrow> Hub \<Rightarrow> bool \<times> Hub" where
  "broadcast_send msg h =
     (if length (hb_broadcast h) < broadcast_cap then (True, h\<lparr>hb_broadcast := hb_broadcast h @ [msg]\<rparr>)
      else (False, h))"

definition Broadcast :: "'o ext \<Rightarrow> string \<Rightarrow> any \<Rightarrow> Hub \<Rightarrow> 'o world \<Rightarrow> bool \<times> Hub \<times> 'o world" where
  "Broadcast E msgType payload h w =
     (case time_Now E w of (now, w1) \<Rightarrow>
      case broadcast_send \<lparr>ws_Type = msgType, ws_Payload = payload, ws_Timestamp = now\<rparr> h of (ok, h1) \<Rightarrow>
        (ok, h1, w1))"

definition heartbeat :: "'o ext \<Rightarrow> Hub \<Rightarrow> 'o world \<Rightarrow> bool \<times> Hub \<times> 'o world" where
  "heartbeat E h w = Broadcast E ''ping'' (AMap [(''status'', AString ''ok'')]) h w"

definition ClientCount :: "Hub \<Rightarrow> int" where
  "ClientCount h = int (length (hb_clients h))"

text \<open>The cases of \<open>run\<close>; \<open>None\<close>: the channel is empty and the case is not ready.\<close>

definition run_register :: "Hub \<Rightarrow> Hub option" where
  "run_register h = (case hb_register h of
       [] \<Rightarrow> None
     | c # cs \<Rightarrow> Some (h\<lparr>hb_register := cs, hb_clients := List.insert c (hb_clients h)\<rparr>))"

definition run_unregister :: "Hub \<Rightarrow> Hub option" where
  "run_unregister h = (case hb_unregister h of
       [] \<Rightarrow> None
     | c # cs \<Rightarrow>
         Some (if c \<in> set (hb_clients h)
           then h\<lparr>hb_unregister := cs, hb_clients := remove1 c (hb_clients h), hb_closed := hb_closed h @ [c]\<rparr>
           else h\<lparr>hb_unregister := cs\<rparr>))"

text \<open>\<open>marshal_ok\<close> and \<open>write_ok\<close> are the results of \<open>json.Marshal\<close> and of each \<open>WriteMessage\<close>.\<close>

definition run_broadcast :: "bool \<Rightarrow> (conn \<Rightarrow> bool) \<Rightarrow> Hub \<Rightarrow> Hub option" where
  "run_broadcast marshal_ok write_ok h = (case hb_broadcast h of
       [] \<Rightarrow> None
     | msg # msgs \<Rightarrow>
         Some (if \<not> marshal_ok then h\<lparr>hb_broadcast := msgs\<rparr>
           else h\<lparr>hb_broadcast := msgs,
                  hb_sent := hb_sent h @ map (\<lambda>c. (c, msg)) (filter write_ok (hb_clients h)),
                  hb_senders := hb_senders h @ filter (\<lambda>c. \<not> write_ok c) (hb_clients h)\<rparr>))"

text \<open>\<open>HandleWS\<close> for a new connection, and its deferred send when reading fails.\<close>

definition HandleWS_start :: "conn \<Rightarrow> Hub \<Rightarrow> Hub option" where
  "HandleWS_start c h =
     (if length (hb_register h) < conn_cap
      then Some (h\<lparr>hb_register := hb_register h @ [c], hb_handlers := c # hb_handlers h, hb_seen := c # hb_seen h\<rparr>)
      else None)"

definition HandleWS_end :: "conn \<Rightarrow> Hub \<Rightarrow> Hub option" where
  "HandleWS_end c h =
     (if c \<in> set (hb_handlers h) \<and> length (hb_unregister h) < conn_cap
      then Some (h\<lparr>hb_unregister := hb_unregister h @ [c], hb_handlers := remove1 c (hb_handlers h)\<rparr>)
      else None)"

definition sender_send :: "conn \<Rightarrow> Hub \<Rightarrow> Hub option" where
  "sender_send c h =
     (if c \<in> set (hb_senders h) \<and> length (hb_unregister h) < conn_cap
      then Some (h\<lparr>hb_unregister := hb_unregister h @ [c], hb_senders := remove1 c (hb_senders h)\<rparr>)
      else None)"

subsection \<open>Interleavings\<close>

inductive hub_step :: "Hub \<Rightarrow> Hub \<Rightarrow> bool" where
  connect: "c \<notin> set (hb_seen h) \<Longrightarrow> HandleWS_start c h = Some h' \<Longrightarrow> hub_step h h'"
| disconnect: "HandleWS_end c h = Some h' \<Longrightarrow> hub_step h h'"
| register: "run_register h = Some h' \<Longrightarrow> hub_step h h'"
| unregister: "run_unregister h = Some h' \<Longrightarrow> hub_step h h'"
| deliver: "run_broadcast marshal_ok write_ok h = Some h' \<Longrightarrow> hub_step h h'"
| send: "sender_send c h = Some h' \<Longrightarrow> hub_step h h'"
| publish: "broadcast_send msg h = (ok, h') \<Longrightarrow> hub_step h h'"

inductive hub_reach :: "Hub \<Rightarrow> bool" where
  start: "hub_reach NewHub"
| step: "hub_reach h \<Longrightarrow> hub_step h h' \<Longrightarrow> hub_reach h'"

inductive_cases hub_step_elims: "hub_step h h'"

definition hub_ok :: "Hub \<Rightarrow> bool" where
  "hub_ok h \<longleftrightarrow> distinct (hb_register h @ hb_clients h @ hb_closed h) \<and>
     set (hb_register h @ hb_clients h @ hb_closed h) \<subseteq> set (hb_seen h) \<and>
     length (hb_register h) \<le> conn_cap \<and> length (hb_unregister h) \<le> conn_cap \<and>
     length (hb_broadcast h) \<le> broadcast_cap"

lemma hub_ok_start: "hub_ok NewHub"
  by (simp add: hub_ok_def NewHub_def)

lemma hub_ok_step: "hub_step h h' \<Longrightarrow> hub_ok h \<Longrightarrow> hub_ok h'"
proof (induction rule: hub_step.induct)
  case (connect c h h')
  then show ?case by (auto simp: HandleWS_start_def hub_ok_def split: if_splits)
next
  case (disconnect c h h')
  then show ?case by (auto simp: HandleWS_end_def hub_ok_def split: if_splits)
next
  case (register h h')
  then show ?case by (auto simp: run_register_def hub_ok_def split: list.splits)
next
  case (unregister h h')
  then show ?case by (auto simp: run_unregister_def hub_ok_def split: list.splits if_splits dest: notin_set_remove1)
next
  case (deliver marshal_ok write_ok h h')
  then show ?case by (auto simp: run_broadcast_def hub_ok_def split: list.splits if_splits)
next
  case (send c h h')
  then show ?case by (auto simp: sender_send_def hub_ok_def split: if_splits)
next
  case (publish msg h ok h')
  then show ?case by (auto simp: broadcast_send_def hub_ok_def split: if_splits)
qed

lemma hub_reach_ok: "hub_reach h \<Longrightarrow> hub_ok h"
  by (induction rule: hub_reach.induct) (auto intro: hub_ok_start hub_ok_step)

subsection \<open>Eviction\<close>

text \<open>Processing the whole of the unregister queue.\<close>

fun drain_unregister :: "nat \<Rightarrow> Hub \<Rightarrow> Hub" where
  "drain_unregister 0 h = h"
| "drain_unregister (Suc n) h = (case run_unregister h of None \<Rightarrow> h | Some h' \<Rightarrow> drain_unregister n h')"

lemma drain_unregister_removes:
  "distinct (hb_clients h) \<Longrightarrow> length (hb_unregister h) \<le> n \<Longrightarrow>
     set (hb_clients (drain_unregister n h)) = set (hb_clients h) - set (hb_unregister h) \<and>
     set (hb_closed (drain_unregister n h)) = set (hb_closed h) \<union> (set (hb_unregister h) \<inter> set (hb_clients h))"
proof (induction n arbitrary: h)
  case (Suc n)
  show ?case
  proof (cases "hb_unregister h")
    case Nil
    then show ?thesis by (simp add: run_unregister_def)
  next
    case (Cons c cs)
    let ?h' = "if c \<in> set (hb_clients h)
      then h\<lparr>hb_unregister := cs, hb_clients := remove1 c (hb_clients h), hb_closed := hb_closed h @ [c]\<rparr>
      else h\<lparr>hb_unregister := cs\<rparr>"
    have "run_unregister h = Some ?h'" using Cons by (simp add: run_unregister_def)
    then have "drain_unregister (Suc n) h = drain_unregister n ?h'" by simp
    moreover have "distinct (hb_clients ?h')" "length (hb_unregister ?h') \<le> n" using Suc.prems Cons by auto
    ultimately show ?thesis using Suc.IH [of ?h'] Suc.prems(1) Cons by auto
  qed
qed simp

subsection \<open>Properties\<close>


definition ex_message :: WSMessage where
  "ex_message = \<lparr>ws_Type = ''ping'', ws_Payload = ANil, ws_Timestamp = 5\<rparr>"

definition ex_hub :: Hub where
  "ex_hub = snd (broadcast_send ex_message (the (run_register (the (HandleWS_start 7 NewHub)))))"

lemma ex_hub_reach: "hub_reach ex_hub"
proof -
  have 1: "HandleWS_start 7 NewHub = Some (the (HandleWS_start 7 NewHub))" by code_simp
  have "7 \<notin> set (hb_seen NewHub)" by code_simp
  with 1 have "hub_reach (the (HandleWS_start 7 NewHub))" by (meson hub_reach.intros hub_step.connect)
  moreover have "run_register (the (HandleWS_start 7 NewHub)) = Some (the (run_register (the (HandleWS_start 7 NewHub))))"
    by code_simp
  ultimately have "hub_reach (the (run_register (the (HandleWS_start 7 NewHub))))" by (meson hub_reach.step hub_step.register)
  then show ?thesis unfolding ex_hub_def by (rule hub_reach.step [OF _ hub_step.publish [OF surjective_pairing]])
qed


text \<open>
  A stale client is evicted after a failed write. If a write of a broadcast to a client fails, a
  goroutine for it is pending; once that goroutine has sent and the main loop has worked off its
  unregister queue, the client is gone and its connection is closed.
\<close>

theorem failed_write_evicts:
  assumes "hub_reach h" and "run_broadcast True write_ok h = Some h1" and "c \<in> set (hb_clients h)" and "\<not> write_ok c"
    and "length (hb_unregister h) < 32"
  shows "\<exists>h2. sender_send c h1 = Some h2 \<and>
    c \<notin> set (hb_clients (drain_unregister (length (hb_unregister h2)) h2)) \<and>
    c \<in> set (hb_closed (drain_unregister (length (hb_unregister h2)) h2))"
proof -
  from assms(2-4) have h1: "c \<in> set (hb_senders h1)" "hb_unregister h1 = hb_unregister h" "hb_clients h1 = hb_clients h"
    by (auto simp: run_broadcast_def split: list.splits)
  define h2 where "h2 = h1\<lparr>hb_unregister := hb_unregister h1 @ [c], hb_senders := remove1 c (hb_senders h1)\<rparr>"
  have "sender_send c h1 = Some h2" using h1 assms(5) by (simp add: sender_send_def conn_cap_def h2_def)
  moreover have "distinct (hb_clients h2)" using hub_reach_ok [OF assms(1)] h1 by (simp add: hub_ok_def h2_def)
  ultimately show ?thesis using drain_unregister_removes [of h2 "length (hb_unregister h2)"] h1 assms(3)
    by (auto simp: h2_def)
qed

theorem failed_write_evicts_witness:
  "\<exists>h1 h2. run_broadcast True (\<lambda>_. False) ex_hub = Some h1 \<and> sender_send 7 h1 = Some h2 \<and>
     7 \<in> set (hb_closed (drain_unregister (length (hb_unregister h2)) h2))"
proof -
  have "run_broadcast True (\<lambda>_. False) ex_hub \<noteq> None" by code_simp
  then obtain h1 where h1: "run_broadcast True (\<lambda>_. False) ex_hub = Some h1" by blast
  have "7 \<in> set (hb_clients ex_hub)" "length (hb_unregister ex_hub) < 32" by code_simp+
  with failed_write_evicts [OF ex_hub_reach h1, of 7] h1 show ?thesis by blast
qed

text \<open>
  A disconnected client can stay registered. Registration and unregistration travel on two channels
  and the \<open>select\<close> of the main loop may serve the second first: a state is reachable in which a
  connection whose handler has ended is a client, and no unregistration for it is queued or pending.
\<close>

theorem hub_stale_client:
  "\<exists>h. hub_reach h \<and> 7 \<in> set (hb_clients h) \<and> hb_handlers h = [] \<and> hb_unregister h = [] \<and> hb_senders h = [] \<and>
     hb_closed h = []"
proof -
  define h1 where "h1 = the (HandleWS_start 7 NewHub)"
  define h2 where "h2 = the (HandleWS_end 7 h1)"
  define h3 where "h3 = the (run_unregister h2)"
  define h4 where "h4 = the (run_register h3)"
  note defs = h1_def h2_def h3_def h4_def
  have "HandleWS_start 7 NewHub = Some h1" "HandleWS_end 7 h1 = Some h2" "run_unregister h2 = Some h3"
      "run_register h3 = Some h4" unfolding defs by code_simp+
  moreover have "7 \<notin> set (hb_seen NewHub)" by code_simp
  ultimately have "hub_reach h4" by (meson hub_reach.intros hub_step.intros)
  moreover have "7 \<in> set (hb_clients h4) \<and> hb_handlers h4 = [] \<and> hb_unregister h4 = [] \<and> hb_senders h4 = [] \<and> hb_closed h4 = []"
    unfolding defs by code_simp
  ultimately show ?thesis by blast
qed

end
