(* ===== verification/System.thy ===== *)
theory System
  imports Concurrency Escalator WorkerPool WorkItemApi Auth Server
begin

text \<open>
  The backend as a whole: the state that \<open>main\<close> and \<open>SetupRoutes\<close> put together, the routes with the
  JWT guard and the recovery of panics, and a step relation in which requests, workers, the
  goroutines started by handlers, the escalator, the hub, the two monitoring loops and the clean-up of
  the rate limiter alternate. A request is one step here (\<open>Overlap\<close> lets them overlap).
\<close>

subsection \<open>Assembly\<close>

record app =
  ap_handler :: Handler
  ap_pool :: Pool
  ap_users :: userStore
  ap_hub :: Hub
  ap_gauges :: gauges
  ap_lastProcessed :: int64
  ap_alerts :: "Alert list"
  ap_health :: HealthHandler

text \<open>The gauges and the counter of Prometheus start at zero.\<close>

definition zero_gauges :: gauges where
  "zero_gauges = \<lparr>g_SignalsIngested = 0, g_QueueFillRatio = 0, g_SignalsDropped = 0, g_WSClients = 0, g_SignalsPerSecond = 0,
     g_WorkItemsByState = (\<lambda>_. 0), g_ActiveIncidents = 0\<rparr>"

definition main_app :: "(string \<Rightarrow> string) \<Rightarrow> go_time \<Rightarrow> app" where
  "main_app env started =
     (let queueCapacity = sint (envInt env ''QUEUE_CAPACITY'' 50000);
          workerCount = sint (envInt env ''WORKER_COUNT'' 20)
      in \<lparr>ap_handler = NewHandler (queue_New queueCapacity), ap_pool = pool_New workerCount,
          ap_users = users, ap_hub = NewHub, ap_gauges = zero_gauges, ap_lastProcessed = 0, ap_alerts = [],
          ap_health = NewHealthHandler started\<rparr>)"

abbreviation app_queue :: "app \<Rightarrow> SignalQueue" where
  "app_queue a \<equiv> h_queue (ap_handler a)"

subsection \<open>Routes\<close>

text \<open>The routes of \<open>SetupRoutes\<close>, with what Fiber has parsed. What the health check finds out is given.\<close>

datatype request =
    Get_health probe
  | Get_metrics
  | Post_signup "go_error + string \<times> string"
  | Post_login "go_error + string \<times> string"
  | Get_ws bool
  | Post_signals string "go_error + IngestRequest"
  | Post_signals_batch string "go_error + IngestRequest list"
  | Get_signals string
  | Get_workitems
  | Get_workitem string
  | Patch_transition string "go_error + WorkItemState"
  | Post_rca string "go_error + RCA"
  | Get_rca string
  | Get_dashboard

datatype answer =
    Answer response
  | Health_answer nat health_report
  | Metrics_answer gauges
  | Ws_upgraded

text \<open>The group \<open>/api/v1\<close>, registered after the two auth routes, carries the middleware.\<close>

primrec protected :: "request \<Rightarrow> bool" where
  "protected (Get_health p) = False"
| "protected Get_metrics = False"
| "protected (Post_signup p) = False"
| "protected (Post_login p) = False"
| "protected (Get_ws u) = False"
| "protected (Post_signals ip p) = True"
| "protected (Post_signals_batch ip p) = True"
| "protected (Get_signals i) = True"
| "protected Get_workitems = True"
| "protected (Get_workitem i) = True"
| "protected (Patch_transition i p) = True"
| "protected (Post_rca i p) = True"
| "protected (Get_rca i) = True"
| "protected Get_dashboard = True"

text \<open>
  Errors that reach Fiber: its own, with a status code, and others. The recovery middleware turns a
  panic into an error of the second kind.
\<close>

datatype handler_error = Fiber_error nat string | Plain_error go_error

definition ErrorHandler :: "handler_error \<Rightarrow> response" where
  "ErrorHandler err =
     (case err of
        Fiber_error code msg \<Rightarrow> reply code [] (ErrorBody msg)
      | Plain_error e \<Rightarrow> reply StatusInternalServerError [] (ErrorBody (Error e)))"

definition ErrUpgradeRequired :: handler_error where
  "ErrUpgradeRequired = Fiber_error 426 ''Upgrade Required''"

definition recovered :: "response outcome \<Rightarrow> response" where
  "recovered out = (case out of Returned r \<Rightarrow> r | Panicked p \<Rightarrow> ErrorHandler (Plain_error (NewError p)))"

definition add_tasks :: "task list \<Rightarrow> app \<Rightarrow> app" where
  "add_tasks ts a = a\<lparr>ap_handler := (ap_handler a)\<lparr>h_tasks := h_tasks (ap_handler a) @ ts\<rparr>\<rparr>"

primrec route :: "'o ext \<Rightarrow> 'o auth_ext \<Rightarrow> request \<Rightarrow> app \<Rightarrow> 'o world \<Rightarrow> answer \<times> app \<times> 'o world" where
  "route E A (Get_health pr) a w =
     (case Health E pr (ap_health a) (app_queue a) (ap_pool a) w of (st, rep, w1) \<Rightarrow> (Health_answer st rep, a, w1))"
| "route E A Get_metrics a w = (Metrics_answer (ap_gauges a), a, w)"
| "route E A (Post_signup p) a w =
     (case Signup E A p (ap_users a) w of (r, us, w1) \<Rightarrow> (Answer r, a\<lparr>ap_users := us\<rparr>, w1))"
| "route E A (Post_login p) a w = (case Login E A p (ap_users a) w of (r, w1) \<Rightarrow> (Answer r, a, w1))"
| "route E A (Get_ws upgrade) a w = (if upgrade then Ws_upgraded else Answer (ErrorHandler ErrUpgradeRequired), a, w)"
| "route E A (Post_signals ip p) a w =
     (case IngestSignal E ip p (ap_handler a) w of (r, h, w1) \<Rightarrow> (Answer r, a\<lparr>ap_handler := h\<rparr>, w1))"
| "route E A (Post_signals_batch ip p) a w =
     (case IngestBatch E ip p (ap_handler a) w of (r, h, w1) \<Rightarrow> (Answer r, a\<lparr>ap_handler := h\<rparr>, w1))"
| "route E A (Get_signals i) a w = (case api_GetSignals E i w of (r, w1) \<Rightarrow> (Answer r, a, w1))"
| "route E A Get_workitems a w = (case api_ListWorkItems E w of (r, ts, w1) \<Rightarrow> (Answer r, add_tasks ts a, w1))"
| "route E A (Get_workitem i) a w = (case api_GetWorkItem E i w of (out, w1) \<Rightarrow> (Answer (recovered out), a, w1))"
| "route E A (Patch_transition i p) a w =
     (case TransitionWorkItem E i p w of (out, w1) \<Rightarrow> (Answer (recovered out), a, w1))"
| "route E A (Post_rca i p) a w = (case api_SubmitRCA E i p Jwt_token w of (r, w1) \<Rightarrow> (Answer r, a, w1))"
| "route E A (Get_rca i) a w = (case api_GetRCA E i w of (r, w1) \<Rightarrow> (Answer r, a, w1))"
| "route E A Get_dashboard a w = (case GetDashboard E w of (r, w1) \<Rightarrow> (Answer r, a, w1))"

definition serve ::
  "'o ext \<Rightarrow> 'o auth_ext \<Rightarrow> go_time \<Rightarrow> string \<Rightarrow> request \<Rightarrow> app \<Rightarrow> 'o world \<Rightarrow> answer \<times> app \<times> 'o world" where
  "serve E A now token req a w =
     (if protected req
      then (case JWTMiddleware A now token of Inl r \<Rightarrow> (Answer r, a, w) | Inr c \<Rightarrow> route E A req a w)
      else route E A req a w)"

subsection \<open>Goroutines\<close>

definition run_task :: "'o ext \<Rightarrow> task \<Rightarrow> app \<Rightarrow> 'o world \<Rightarrow> app \<times> 'o world" where
  "run_task E t a w =
     (case t of
        DispatchAlert wi \<Rightarrow>
          (case uuid_New E w of (u, w1) \<Rightarrow> case time_Now E w1 of (now, w2) \<Rightarrow>
             (a\<lparr>ap_alerts := ap_alerts a @ (case Dispatch u now wi of None \<Rightarrow> [] | Some al \<Rightarrow> [al])\<rparr>, w2))
      | IncrementCounter \<Rightarrow> (a, snd (IncrementSignalCounter E w))
      | RebuildDashboard items \<Rightarrow> (a, rebuildDashboardCache E items w))"

inductive sys_step :: "'o ext \<Rightarrow> 'o auth_ext \<Rightarrow> app \<times> 'o world \<Rightarrow> app \<times> 'o world \<Rightarrow> bool"
  for E :: "'o ext" and A :: "'o auth_ext" where
  request: "serve E A now token req a w = (ans, a', w') \<Longrightarrow> sys_step E A (a, w) (a', w')"
| work: "Consume (app_queue a) = Some (s, q) \<Longrightarrow> all_jobs order \<Longrightarrow> processSignal E order s (ap_pool a) w = (p, w') \<Longrightarrow>
    sys_step E A (a, w) (a\<lparr>ap_handler := (ap_handler a)\<lparr>h_queue := q\<rparr>, ap_pool := p\<rparr>, w')"
| task: "h_tasks (ap_handler a) = pre @ t # post \<Longrightarrow>
    run_task E t (a\<lparr>ap_handler := (ap_handler a)\<lparr>h_tasks := pre @ post\<rparr>\<rparr>) w = (a', w') \<Longrightarrow> sys_step E A (a, w) (a', w')"
| escalate: "runEscalationCheck E w = (n, w') \<Longrightarrow> sys_step E A (a, w) (a, w')"
| collect_metrics: "collect E (app_queue a) (ap_hub a) (ap_gauges a) w = (g, w') \<Longrightarrow> sys_step E A (a, w) (a\<lparr>ap_gauges := g\<rparr>, w')"
| log_throughput: "logThroughput E (app_queue a) (ap_pool a) (ap_lastProcessed a) w = (l, n, w') \<Longrightarrow>
    sys_step E A (a, w) (a\<lparr>ap_lastProcessed := n\<rparr>, w')"
| sockets: "hub_step (ap_hub a) h \<Longrightarrow> sys_step E A (a, w) (a\<lparr>ap_hub := h\<rparr>, w)"
| clean_up: "sys_step E A (a, w) (a\<lparr>ap_handler := (ap_handler a)\<lparr>h_rateLimiter := rl_cleanup t (h_rateLimiter (ap_handler a))\<rparr>\<rparr>, w)"
| time_passes: "sys_step E A (a, w) (a, w\<lparr>w_env := v\<rparr>)"

inductive sys_reach :: "'o ext \<Rightarrow> 'o auth_ext \<Rightarrow> (string \<Rightarrow> string) \<Rightarrow> app \<times> 'o world \<Rightarrow> bool"
  for E :: "'o ext" and A :: "'o auth_ext" and env :: "string \<Rightarrow> string" where
  start: "w_pg w = empty_db \<Longrightarrow> w_mongo w = [] \<Longrightarrow> w_redis w = (\<lambda>_. None) \<Longrightarrow> sys_reach E A env (main_app env started, w)"
| step: "sys_reach E A env x \<Longrightarrow> sys_step E A x y \<Longrightarrow> sys_reach E A env y"

subsection \<open>The invariant of the system\<close>

definition task_ok :: "pg_db \<Rightarrow> task \<Rightarrow> bool" where
  "task_ok db t \<longleftrightarrow> (case t of DispatchAlert wi \<Rightarrow> item_of db (wi_ID wi) (wi_ComponentID wi) | _ \<Rightarrow> True)"

definition alert_ok :: "pg_db \<Rightarrow> Alert \<Rightarrow> bool" where
  "alert_ok db al \<longleftrightarrow> (\<exists>c. item_of db (al_WorkItemID al) c)"

text \<open>\<open>P\<close> is what is required of the tables themselves.\<close>

definition parts_ok :: "(pg_db \<Rightarrow> bool) \<Rightarrow> app \<times> 'o world \<Rightarrow> bool" where
  "parts_ok P x \<longleftrightarrow> (case x of (a, w) \<Rightarrow>
     handler_ok (ap_handler a) w \<and> P (w_pg w) \<and> list_all (linked_signal (w_pg w)) (w_mongo w) \<and>
     distinct (map sig_ID (w_mongo w)) \<and> list_all (task_ok (w_pg w)) (h_tasks (ap_handler a)) \<and>
     list_all (alert_ok (w_pg w)) (ap_alerts a) \<and> users_ok (ap_users a) \<and> hub_ok (ap_hub a))"

abbreviation sys_ok :: "app \<times> 'o world \<Rightarrow> bool" where
  "sys_ok \<equiv> parts_ok lifecycle_ok"

text \<open>
  A change that keeps all work items, the requirement on the tables, the log and the debounce keys keeps the
  invariant; most steps are of this kind.
\<close>

definition mild :: "(pg_db \<Rightarrow> bool) \<Rightarrow> 'o world \<Rightarrow> 'o world \<Rightarrow> bool" where
  "mild P w w' \<longleftrightarrow> items_kept (w_pg w) (w_pg w') \<and> (P (w_pg w) \<longrightarrow> P (w_pg w')) \<and>
     w_mongo w' = w_mongo w \<and> (\<forall>c. w_redis w' (debounceKey c) = w_redis w (debounceKey c))"

lemma mild_refl [simp]: "mild P w w"
  by (simp add: mild_def)

lemma mild_trans [trans]: "mild P u v \<Longrightarrow> mild P v w \<Longrightarrow> mild P u w"
  by (auto simp: mild_def intro: items_kept_trans)

lemma same_stores_mild: "same_stores w w' \<Longrightarrow> mild P w w'"
  by (simp add: mild_def same_stores_def)

lemma task_ok_kept: "task_ok db t \<Longrightarrow> items_kept db db' \<Longrightarrow> task_ok db' t"
  unfolding task_ok_def items_kept_def by (cases t) simp_all

lemma alert_ok_kept: "alert_ok db t \<Longrightarrow> items_kept db db' \<Longrightarrow> alert_ok db' t"
  unfolding alert_ok_def items_kept_def by blast

lemma parts_ok_mild:
  assumes "parts_ok P (a, w)" and "mild P w w'"
    and "h_debouncer (ap_handler a') = h_debouncer (ap_handler a)" "h_queue (ap_handler a') = h_queue (ap_handler a)"
    and "set (h_tasks (ap_handler a')) \<subseteq> set (h_tasks (ap_handler a)) \<union> range RebuildDashboard"
    and "set (ap_alerts a') \<subseteq> set (ap_alerts a) \<union> Collect (alert_ok (w_pg w'))"
    and "users_ok (ap_users a')" "hub_ok (ap_hub a')"
  shows "parts_ok P (a', w')"
proof -
  have kept: "items_kept (w_pg w) (w_pg w')" using assms(2) by (simp add: mild_def)
  have "handler_ok (ap_handler a') w'"
  proof (rule handler_ok_mono)
    show "handler_ok (ap_handler a) w" using assms(1) by (simp add: parts_ok_def)
    show "w_redis w' (debounceKey c) = w_redis w (debounceKey c)" for c using assms(2) by (simp add: mild_def)
  qed (use assms(3,4) kept in auto)
  moreover have "list_all (task_ok (w_pg w')) (h_tasks (ap_handler a'))"
  proof -
    have "task_ok (w_pg w') (RebuildDashboard items)" for items by (simp add: task_ok_def)
    then show ?thesis using assms(1,5) task_ok_kept [OF _ kept] by (force simp: parts_ok_def list_all_iff)
  qed
  moreover have "list_all (alert_ok (w_pg w')) (ap_alerts a')"
    using assms(1,6) kept by (auto simp: parts_ok_def list_all_iff intro: alert_ok_kept)
  moreover have "list_all (linked_signal (w_pg w')) (w_mongo w')"
    using assms(1,2) kept by (auto simp: parts_ok_def mild_def list_all_iff intro: linked_signal_kept)
  ultimately show ?thesis using assms(1,2,7,8) by (auto simp: parts_ok_def mild_def)
qed

lemma sint_int64_less: "sint (x :: int64) < 2 ^ 63"
  using sint_lt [of x] by simp

lemma parts_ok_start:
  assumes "w_pg w = empty_db" "w_mongo w = []" "w_redis w = (\<lambda>_. None)" "P empty_db"
  shows "parts_ok P (main_app env started, w)"
proof -
  let ?c = "sint (envInt env ''QUEUE_CAPACITY'' 50000)"
  from queue_New_cap [OF sint_int64_less, of "envInt env ''QUEUE_CAPACITY'' 50000"]
  have "Len (queue_New ?c) \<le> Cap (queue_New ?c)" by (simp add: queue_New_def Len_def Let_def)
  moreover have "refs_ok (h_debouncer (NewHandler (queue_New ?c))) w"
    using assms by (simp add: refs_ok_def NewHandler_def)
  ultimately show ?thesis
    using assms users_ok_start hub_ok_start
    by (simp add: parts_ok_def handler_ok_def main_app_def NewHandler_def queue_New_def Let_def)
qed

text \<open>The requests that change neither work items nor the debouncer nor the queue.\<close>

primrec brief :: "request \<Rightarrow> bool" where
  "brief (Get_health p) = True"
| "brief Get_metrics = True"
| "brief (Post_signup p) = True"
| "brief (Post_login p) = True"
| "brief (Get_ws u) = True"
| "brief (Post_signals ip p) = False"
| "brief (Post_signals_batch ip p) = False"
| "brief (Get_signals i) = True"
| "brief Get_workitems = True"
| "brief (Get_workitem i) = True"
| "brief (Patch_transition i p) = False"
| "brief (Post_rca i p) = False"
| "brief (Get_rca i) = True"
| "brief Get_dashboard = True"

subsection \<open>Every operation is mild or handled\<close>

lemma Transition_debounce_keys:
  assumes "backend E" and "Transition E i st w = (out, w')"
  shows "w_redis w' (debounceKey c) = w_redis w (debounceKey c)"
proof -
  have pg: "postgres_service E" and rd: "redis_service E" using backend.axioms [OF assms(1)] by auto
  have step: "w_redis v' (debounceKey c) = w_redis v (debounceKey c)" if "transition_step E i st pc v = (pc', v')" for pc v pc' v'
  proof (cases pc)
    case T_read
    then show ?thesis using that postgres_service.GetWorkItem_ok [OF pg] postgres_service.GetWorkItem_err [OF pg]
      by (fastforce simp: same_stores_def split: prod.splits sum.splits outcome.splits if_splits)
  next
    case T_precondition
    then show ?thesis using that postgres_service.close_precondition_frame [OF pg]
      by (fastforce simp: same_stores_def split: prod.splits sum.splits)
  next
    case (T_update mttr)
    then show ?thesis using that postgres_service.UpdateState_any [OF pg]
      by (fastforce split: prod.splits option.splits)
  next
    case T_invalidate
    then show ?thesis using that redis_service.Invalidate_any [OF rd] by (fastforce split: prod.splits)
  next
    case T_reread
    then show ?thesis using that postgres_service.GetWorkItem_ok [OF pg] postgres_service.GetWorkItem_err [OF pg]
      by (fastforce simp: same_stores_def split: prod.splits sum.splits)
  qed (use that in auto)
  have "transition_steps E i st n (pc, v) = (pc', v') \<Longrightarrow> w_redis v' (debounceKey c) = w_redis v (debounceKey c)"
    for n pc v pc' v'
  proof (induction n arbitrary: pc v)
    case (Suc n)
    obtain pc1 v1 where "transition_step E i st pc v = (pc1, v1)" by fastforce
    with Suc step show ?case by auto
  qed simp
  with transition_refines [OF assms(2)] show ?thesis by blast
qed

lemma Signup_frame: "Signup E A p us w = (r, us', w') \<Longrightarrow> same_stores w w'"
  by (auto simp: Signup_def user_create_def bcrypt_Generate_def makeToken_def same_stores_def
      split: sum.splits prod.splits if_splits option.splits dest!: uuid_New_frame time_Now_frame)

lemma Health_frame: "Health E pr h q p w = (st, rep, w') \<Longrightarrow> same_stores w w'"
  by (auto simp: Health_def Let_def split: prod.splits dest!: time_Now_frame intro: same_stores_trans)

lemma Login_frame: "Login E A p us w = (r, w') \<Longrightarrow> same_stores w w'"
  by (auto simp: Login_def makeToken_def same_stores_def split: sum.splits prod.splits dest!: time_Now_frame)

context backend
begin

lemma Transition_mild: "Transition E i st w = (out, w') \<Longrightarrow> mild lifecycle_ok w w'"
  using pg.Transition_effect [of i st w out w'] Transition_debounce_keys [OF backend_axioms]
    pg.Transition_lifecycle [of w i st out w']
  by (auto simp: mild_def intro: items_kept_apply)

lemma SubmitRCA_mild: "SubmitRCA E rca w = (r, w') \<Longrightarrow> mild lifecycle_ok w w'"
  using pg.SubmitRCA_effect [of rca w "fst r" "snd r" w'] pg.SubmitRCA_lifecycle [of w rca "fst r" "snd r" w']
  by (auto simp: mild_def intro: items_kept_apply)

lemma GetWorkItem_mild: "GetWorkItem E i w = (r, w') \<Longrightarrow> mild P w w'"
  using pg.GetWorkItem_ok pg.GetWorkItem_err by (cases r) (auto intro: same_stores_mild)

lemma GetSignals_mild: "GetSignalsByWorkItemID E i w = (r, w') \<Longrightarrow> mild P w w'"
  by (auto simp: GetSignalsByWorkItemID_def mild_def split: prod.splits)

lemma SetDashboard_mild: "SetDashboardState E st w = (r, w') \<Longrightarrow> mild P w w'"
  by (cases r) (auto simp: SetDashboardState_def redis_Set_def mild_def split: prod.splits option.splits
      dest!: rd.set_ok rd.set_err)

lemma IncrementCounter_mild: "IncrementSignalCounter E w = (r, w') \<Longrightarrow> mild P w w'"
  by (auto simp: IncrementSignalCounter_def mild_def same_stores_def split: prod.splits
      dest!: time_Now_frame intro: rd.incr_frame)

lemma rebuild_mild: "mild P w (rebuildDashboardCache E items w)"
proof -
  obtain c e w1 where k: "GetDashboardCounts E w = ((c, e), w1)" by (metis surj_pair)
  obtain sps e2 w2 where p: "GetSignalsPerSecond E w1 = ((sps, e2), w2)" by (metis surj_pair)
  obtain now w3 where n: "time_Now E w2 = (now, w3)" by fastforce
  let ?st = "dashboard_state c sps (filter (\<lambda>wi. wi_State wi = StateOpen \<or> wi_State wi = StateInvestigating) items) now"
  obtain r w4 where d: "SetDashboardState E ?st w3 = (r, w4)" by fastforce
  have 1: "mild P w w1" by (rule same_stores_mild [OF pg.counts_frame [OF k]])
  have "mild P w1 w2" by (rule same_stores_mild [OF GetSignalsPerSecond_frame [OF p]])
  also have "mild P w2 w3" by (rule same_stores_mild [OF time_Now_frame [OF n]])
  also have "mild P w3 w4" by (rule SetDashboard_mild [OF d])
  finally have "mild P w w4" using 1 mild_trans by blast
  with 1 k p n d show ?thesis by (cases e) (simp_all add: rebuildDashboardCache_def Let_def)
qed

lemma GetDashboard_mild:
  assumes "GetDashboard E w = (resp, w')"
  shows "mild P w w'"
proof -
  obtain cd ce w1 where g: "GetDashboardState E w = ((cd, ce), w1)" by (metis surj_pair)
  have m1: "mild P w w1" by (rule same_stores_mild [OF GetDashboardState_frame [OF g]])
  obtain items le w2 where l: "ListActiveWorkItems E w1 = ((items, le), w2)" by (metis surj_pair)
  have m2: "mild P w w2"
    using m1 same_stores_mild [OF pg.query_items_frame [OF l [unfolded ListActiveWorkItems_def]]] by (rule mild_trans)
  obtain c ce2 w3 where k: "GetDashboardCounts E w2 = ((c, ce2), w3)" by (metis surj_pair)
  have m3: "mild P w w3" using m2 same_stores_mild [OF pg.counts_frame [OF k]] by (rule mild_trans)
  obtain sps e4 w4 where p: "GetSignalsPerSecond E w3 = ((sps, e4), w4)" by (metis surj_pair)
  have m4: "mild P w w4" using m3 same_stores_mild [OF GetSignalsPerSecond_frame [OF p]] by (rule mild_trans)
  obtain now w5 where n: "time_Now E w4 = (now, w5)" by fastforce
  have m5: "mild P w w5" using m4 same_stores_mild [OF time_Now_frame [OF n]] by (rule mild_trans)
  obtain r w6 where d: "SetDashboardState E (dashboard_state c sps items now) w5 = (r, w6)" by fastforce
  have m6: "mild P w w6" using m5 SetDashboard_mild [OF d] by (rule mild_trans)
  have "w' \<in> {w1, w2, w3, w6}"
    using assms g l k p n d
    by (cases cd; cases ce; cases le; cases ce2) (simp_all add: GetDashboard_def Let_def)
  with m1 m2 m3 m6 show ?thesis by auto
qed

lemma escalated_item_of:
  assumes "list_all2 (escalated_row now) (t_work_items db) (t_work_items db')" and "item_of db i c"
  shows "item_of db' i c"
proof -
  have "list_all2 (escalated_row now) rows rows' \<Longrightarrow> row_with wi_ID i rows = Some r \<Longrightarrow>
      \<exists>r'. row_with wi_ID i rows' = Some r' \<and> wi_ComponentID r' = wi_ComponentID r" for rows rows' r
  proof (induction rule: list_all2_induct)
    case (Cons x xs y ys)
    have "wi_ID y = wi_ID x \<and> wi_ComponentID y = wi_ComponentID x" using Cons.hyps(1) by (auto simp: escalated_row_def)
    with Cons show ?case by (auto split: if_splits)
  qed simp
  with assms show ?thesis unfolding item_of_def by blast
qed

lemma escalation_mild:
  assumes "runEscalationCheck E w = (n, w')" and "lifecycle_ok (w_pg w)"
  shows "mild lifecycle_ok w w'"
  using runEscalationCheck_rows [OF assms] escalated_item_of
  by (auto simp: mild_def items_kept_def)

lemma collect_frame: "collect E q h g w = (g', w') \<Longrightarrow> same_stores w w'"
  by (auto simp: collect_def Let_def split: prod.splits
      dest!: GetSignalsPerSecond_frame pg.counts_frame intro: same_stores_trans)

lemma logThroughput_frame: "logThroughput E q p l w = (t, n, w') \<Longrightarrow> same_stores w w'"
  by (auto simp: logThroughput_def Let_def split: prod.splits dest!: GetSignalsPerSecond_frame)

lemma api_GetWorkItem_mild: "api_GetWorkItem E i w = (out, w') \<Longrightarrow> mild P w w'"
  by (auto simp: api_GetWorkItem_def Let_def split: if_splits prod.splits sum.splits outcome.splits
      dest!: GetWorkItem_mild GetSignals_mild same_stores_mild [OF pg.GetRCA_frame] intro: mild_trans)

lemma TransitionWorkItem_mild: "TransitionWorkItem E i p w = (out, w') \<Longrightarrow> mild lifecycle_ok w w'"
  by (auto simp: TransitionWorkItem_def split: if_splits prod.splits sum.splits outcome.splits dest!: Transition_mild)

lemma api_SubmitRCA_mild: "api_SubmitRCA E i p u w = (r, w') \<Longrightarrow> mild lifecycle_ok w w'"
  by (auto simp: api_SubmitRCA_def Let_def split: if_splits prod.splits sum.splits option.splits
      dest!: SubmitRCA_mild same_stores_mild [OF uuid_New_frame] same_stores_mild [OF time_Now_frame] intro: mild_trans)

lemma api_reads_mild:
  "api_GetRCA E i w = (r, w') \<Longrightarrow> mild P w w'"
  "api_GetSignals E i w = (r, w') \<Longrightarrow> mild P w w'"
  "api_ListWorkItems E w = (r, ts, w') \<Longrightarrow> mild P w w' \<and> set ts \<subseteq> range RebuildDashboard"
  by (auto simp: api_GetRCA_def api_GetSignals_def api_ListWorkItems_def ListWorkItems_def
      split: prod.splits sum.splits option.splits
      dest!: same_stores_mild [OF pg.GetRCA_frame] GetSignals_mild same_stores_mild [OF pg.query_items_frame])

subsection \<open>Ingestion and the workers\<close>

lemma created_task_ok:
  "apply_stmt (INSERT_work_item wi) db = Some db' \<Longrightarrow> task_ok db' (DispatchAlert wi)"
  using item_of_inserted [of wi db] by (auto simp: task_ok_def apply_stmt_Some_iff)

lemma ingest_valid_tasks:
  assumes "ingest_valid E hs req h w = (resp, h', w')"
  shows "\<exists>ts. h_tasks h' = h_tasks h @ ts \<and> list_all (task_ok (w_pg w')) ts"
  using assms
proof (cases rule: ingest_valid_cases)
  case (failed e)
  then show ?thesis by simp
next
  case (full s created)
  then show ?thesis by (auto simp: alerts_for_def created_task_ok split: option.splits)
next
  case (accepted s created)
  then show ?thesis by (auto simp: alerts_for_def created_task_ok task_ok_def [of _ IncrementCounter] split: option.splits)
qed

lemma IngestSignal_tasks:
  assumes "IngestSignal E ip parsed h w = (resp, h', w')"
  shows "\<exists>ts. h_tasks h' = h_tasks h @ ts \<and> list_all (task_ok (w_pg w')) ts"
proof -
  obtain ok hs rl w1 where rl: "rate_limit E ip (h_rateLimiter h) w = ((ok, hs), rl, w1)" by (metis surj_pair)
  consider "h' = h\<lparr>h_rateLimiter := rl\<rparr>"
    | req1 w2 where "ingest_valid E hs req1 (h\<lparr>h_rateLimiter := rl\<rparr>) w2 = (resp, h', w')"
    using assms rl by (auto simp: IngestSignal_def Let_def split: if_splits sum.splits prod.splits option.splits)
  then show ?thesis
  proof cases
    case (2 req1 w2)
    from ingest_valid_tasks [OF this] show ?thesis by simp
  qed simp
qed

lemma batch_loop_tasks:
  "batch_loop E reqs rs h w = (rs', h', w') \<Longrightarrow> \<exists>ts. h_tasks h' = h_tasks h @ ts \<and> set ts \<subseteq> {IncrementCounter}"
proof (induction reqs arbitrary: rs h w)
  case (Cons req reqs)
  obtain r h1 w1 where b: "batch_one E req h w = (r, h1, w1)" by (metis surj_pair)
  have "\<exists>ts. h_tasks h1 = h_tasks h @ ts \<and> set ts \<subseteq> {IncrementCounter}"
    using b by (cases rule: batch_one_cases) auto
  moreover have "batch_loop E reqs (rs @ [r]) h1 w1 = (rs', h', w')" using Cons.prems b by simp
  ultimately show ?case using Cons.IH by fastforce
qed simp

lemma IngestBatch_tasks:
  assumes "IngestBatch E ip parsed h w = (resp, h', w')"
  shows "\<exists>ts. h_tasks h' = h_tasks h @ ts \<and> list_all (task_ok (w_pg w')) ts"
proof -
  obtain ok hs rl w1 where rl: "rate_limit E ip (h_rateLimiter h) w = ((ok, hs), rl, w1)" by (metis surj_pair)
  consider "h' = h\<lparr>h_rateLimiter := rl\<rparr>"
    | reqs rs where "batch_loop E reqs [] (h\<lparr>h_rateLimiter := rl\<rparr>) w1 = (rs, h', w')"
    using assms rl by (auto simp: IngestBatch_def Let_def split: if_splits sum.splits prod.splits)
  then show ?thesis
  proof cases
    case (2 reqs rs)
    from batch_loop_tasks [OF this] show ?thesis by (fastforce simp: list_all_iff task_ok_def)
  qed simp
qed

lemma sys_ok_ingest:
  assumes "sys_ok (a, w)" and "ingest_inv h' w' \<and> items_kept (w_pg w) (w_pg w') \<and> w_mongo w' = w_mongo w"
    and "\<exists>ts. h_tasks h' = h_tasks (ap_handler a) @ ts \<and> list_all (task_ok (w_pg w')) ts"
  shows "sys_ok (a\<lparr>ap_handler := h'\<rparr>, w')"
  using assms by (auto simp: parts_ok_def ingest_inv_def list_all_iff intro: linked_signal_kept task_ok_kept alert_ok_kept)

lemma sys_ok_work:
  assumes "sys_ok (a, w)" and "Consume (app_queue a) = Some (s, q)" and "all_jobs order"
    and "processSignal E order s (ap_pool a) w = (p, w')"
  shows "sys_ok (a\<lparr>ap_handler := (ap_handler a)\<lparr>h_queue := q\<rparr>, ap_pool := p\<rparr>, w')"
proof -
  let ?h = "ap_handler a"
  obtain errs w1 where r: "run_jobs E s order \<lparr>we_mongoErr = None, we_pgErr = None\<rparr> w = (errs, w1)" by fastforce
  have w1: "w' = w1" using assms(4) r by (auto simp: processSignal_def split: if_splits)
  have inv: "handler_ok ?h w" "lifecycle_ok (w_pg w)" using assms(1) by (auto simp: parts_ok_def ingest_inv_def)
  from run_jobs_effect [OF r _ inv(2)] assms(3) have eff: "lifecycle_ok (w_pg w1)" "items_kept (w_pg w) (w_pg w1)"
      "w_redis w1 = w_redis w" "logged E s None (we_mongoErr errs) (w_mongo w) (w_mongo w1)"
    by (auto simp: all_jobs_def)
  from Consume_Some [OF assms(2)] have q: "q_ch (h_queue ?h) = s # q_ch q" "q = (h_queue ?h)\<lparr>q_ch := q_ch q\<rparr>" by auto
  have cap: "q_capacity q = q_capacity (h_queue ?h)" using arg_cong [OF q(2), of q_capacity] by simp
  have refs: "refs_ok (h_debouncer ?h) w1"
  proof (rule refs_ok_mono [OF _ eff(2)])
    show "refs_ok (h_debouncer ?h) w" using inv(1) by (simp add: handler_ok_def)
  qed (simp add: eff(3))
  have queue: "list_all (linked_signal (w_pg w1)) (s # q_ch q)"
    using inv(1) q(1) linked_signal_kept [OF _ eff(2)] by (auto simp: handler_ok_def list_all_iff)
  have hok: "handler_ok (?h\<lparr>h_queue := q\<rparr>) w1"
    using inv(1) q(1) cap refs queue by (auto simp: handler_ok_def Len_def Cap_def)
  have docs: "w_mongo w1 = w_mongo w \<or> \<not> has_row sig_ID (sig_ID s) (w_mongo w) \<and> w_mongo w1 = w_mongo w @ [x_bson E s]"
    using eff(4) by (auto simp: logged_def Let_def)
  have "linked_signal (w_pg w1) (x_bson E s)" using queue mg.bson_fields by (simp add: linked_signal_def)
  then have "list_all (linked_signal (w_pg w1)) (w_mongo w1) \<and> distinct (map sig_ID (w_mongo w1))"
    using docs assms(1) linked_signal_kept [OF _ eff(2)] mg.bson_fields
    by (auto simp: parts_ok_def list_all_iff has_row_iff)
  moreover have "list_all (task_ok (w_pg w1)) (h_tasks ?h)" "list_all (alert_ok (w_pg w1)) (ap_alerts a)"
    using assms(1) task_ok_kept [OF _ eff(2)] alert_ok_kept [OF _ eff(2)] by (auto simp: parts_ok_def list_all_iff)
  ultimately show ?thesis using assms(1) hok eff(1) w1 by (simp add: parts_ok_def ingest_inv_def)
qed

lemma parts_ok_read:
  assumes "parts_ok P (a, w)" and "mild P w w'"
  shows "parts_ok P (a, w')"
  using assms by (rule parts_ok_mild) (use assms(1) in \<open>auto simp: parts_ok_def\<close>)

lemma parts_ok_brief:
  assumes ok: "parts_ok P (a, w)" and R: "route E A req a w = (ans, a', w')" and b: "brief req"
  shows "parts_ok P (a', w') \<and> mild P w w'"
proof -
  have us: "users_ok (ap_users a)" "hub_ok (ap_hub a)" using ok by (auto simp: parts_ok_def)
  show ?thesis
  proof (cases req)
    case (Post_signup p)
    obtain r us w1 where g: "Signup E A p (ap_users a) w = (r, us, w1)" by (metis surj_pair)
    have m: "mild P w w1" by (rule same_stores_mild [OF Signup_frame [OF g]])
    have "users_ok us" using Signup_adds [OF g] us(1) by blast
    with us have "parts_ok P (a\<lparr>ap_users := us\<rparr>, w1)" by (intro parts_ok_mild [OF ok m]) auto
    with R Post_signup g m show ?thesis by simp
  next
    case Get_workitems
    obtain r ts w1 where g: "api_ListWorkItems E w = (r, ts, w1)" by (metis surj_pair)
    from api_reads_mild(3) [OF g] have m: "mild P w w1" and "parts_ok P (add_tasks ts a, w1)"
      using us by (blast, intro parts_ok_mild [OF ok]) (auto simp: add_tasks_def)
    with R Get_workitems g show ?thesis by simp
  qed (use R b parts_ok_read [OF ok] in \<open>auto split: prod.splits if_splits dest!: same_stores_mild [OF Login_frame]
      same_stores_mild [OF Health_frame] api_reads_mild api_GetWorkItem_mild GetDashboard_mild\<close>)
qed

lemma sys_ok_route:
  assumes ok: "sys_ok (a, w)" and R: "route E A req a w = (ans, a', w')"
  shows "sys_ok (a', w')"
proof (cases "brief req")
  case True
  with parts_ok_brief [OF ok R] show ?thesis by simp
next
  case False
  have inv: "ingest_inv (ap_handler a) w" using ok by (auto simp: parts_ok_def ingest_inv_def)
  show ?thesis
  proof (cases req)
    case (Post_signals ip p)
    obtain r h w1 where g: "IngestSignal E ip p (ap_handler a) w = (r, h, w1)" by (metis surj_pair)
    from sys_ok_ingest [OF ok IngestSignal_inv [OF inv g] IngestSignal_tasks [OF g]] R Post_signals g
    show ?thesis by simp
  next
    case (Post_signals_batch ip p)
    obtain r h w1 where g: "IngestBatch E ip p (ap_handler a) w = (r, h, w1)" by (metis surj_pair)
    from sys_ok_ingest [OF ok IngestBatch_inv [OF inv g] IngestBatch_tasks [OF g]] R Post_signals_batch g
    show ?thesis by simp
  qed (use R False parts_ok_read [OF ok] in \<open>auto split: prod.splits dest!: TransitionWorkItem_mild api_SubmitRCA_mild\<close>)
qed

lemma sys_ok_serve:
  "sys_ok (a, w) \<Longrightarrow> serve E A now token req a w = (ans, a', w') \<Longrightarrow> sys_ok (a', w')"
  by (auto simp: serve_def split: if_splits sum.splits dest: sys_ok_route)

lemma parts_ok_task:
  assumes ok: "parts_ok P (a, w)" and t: "h_tasks (ap_handler a) = pre @ t # post"
    and "run_task E t (a\<lparr>ap_handler := (ap_handler a)\<lparr>h_tasks := pre @ post\<rparr>\<rparr>) w = (a', w')"
  shows "parts_ok P (a', w') \<and> mild P w w'"
proof -
  note R = assms(3)
  let ?a = "a\<lparr>ap_handler := (ap_handler a)\<lparr>h_tasks := pre @ post\<rparr>\<rparr>"
  have us: "users_ok (ap_users a)" "hub_ok (ap_hub a)" using ok by (simp_all add: parts_ok_def)
  have quiet: "parts_ok P (?a, v) \<and> mild P w v" if "mild P w v" for v
    using that by (intro conjI parts_ok_mild [OF ok that]) (use t us in auto)
  show ?thesis
  proof (cases t)
    case (DispatchAlert wi)
    obtain u w1 where u: "uuid_New E w = (u, w1)" by fastforce
    obtain now w2 where n: "time_Now E w1 = (now, w2)" by fastforce
    have m: "mild P w w2"
      by (rule mild_trans [OF same_stores_mild [OF uuid_New_frame [OF u]] same_stores_mild [OF time_Now_frame [OF n]]])
    then have kept: "items_kept (w_pg w) (w_pg w2)" by (simp add: mild_def)
    have "task_ok (w_pg w) t" using ok t by (simp add: parts_ok_def list_all_iff)
    from task_ok_kept [OF this kept] have "al_WorkItemID al = wi_ID wi \<Longrightarrow> alert_ok (w_pg w2) al" for al
      using DispatchAlert by (auto simp: task_ok_def alert_ok_def)
    moreover have "al_WorkItemID al = wi_ID wi" if "Dispatch u now wi = Some al" for al
      using that Execute_addressed by (auto simp: Dispatch_def)
    ultimately have "parts_ok P (?a\<lparr>ap_alerts := ap_alerts a @ (case Dispatch u now wi of None \<Rightarrow> [] | Some al \<Rightarrow> [al])\<rparr>, w2)"
      using t us by (intro parts_ok_mild [OF ok m]) (auto split: option.splits)
    with R u n m DispatchAlert show ?thesis by (simp add: run_task_def)
  next
    case IncrementCounter
    obtain r w1 where i: "IncrementSignalCounter E w = (r, w1)" by fastforce
    with quiet [OF IncrementCounter_mild [OF i]] R IncrementCounter show ?thesis by (simp add: run_task_def)
  next
    case (RebuildDashboard items)
    with quiet [OF rebuild_mild [of P w items]] R show ?thesis by (simp add: run_task_def)
  qed
qed

lemma sys_ok_step:
  assumes "sys_step E A x y" and "sys_ok x"
  shows "sys_ok y"
  using assms
proof cases
  case (request now token req a w ans a' w')
  with assms(2) show ?thesis by (simp add: sys_ok_serve)
next
  case (work a s q order w p w')
  with assms(2) sys_ok_work show ?thesis by simp
next
  case (task a pre t post w a' w')
  with assms(2) parts_ok_task show ?thesis by simp
next
  case (escalate w n w' a)
  from assms(2) escalate have "lifecycle_ok (w_pg w)" by (simp add: parts_ok_def ingest_inv_def)
  from parts_ok_read [OF _ escalation_mild [OF escalate(3) this]] assms(2) escalate show ?thesis by simp
next
  case (collect_metrics a w g w')
  from parts_ok_read [of lifecycle_ok a, OF _ same_stores_mild [OF collect_frame [OF collect_metrics(3)]]] assms(2) collect_metrics
  show ?thesis by (simp add: parts_ok_def)
next
  case (log_throughput a w l n w')
  from parts_ok_read [of lifecycle_ok a, OF _ same_stores_mild [OF logThroughput_frame [OF log_throughput(3)]]] assms(2) log_throughput
  show ?thesis by (simp add: parts_ok_def)
next
  case (sockets a h w)
  with assms(2) show ?thesis by (auto simp: parts_ok_def dest: hub_ok_step)
next
  case (clean_up a w t)
  with assms(2) show ?thesis by (auto simp: parts_ok_def ingest_inv_def handler_ok_def)
next
  case (time_passes a w v)
  have "mild lifecycle_ok w (w\<lparr>w_env := v\<rparr>)" by (simp add: mild_def)
  with assms(2) time_passes parts_ok_read show ?thesis by simp
qed

lemma sys_ok_reach: "sys_reach E A env x \<Longrightarrow> sys_ok x"
proof (induction rule: sys_reach.induct)
  case (start w)
  then show ?case by (intro parts_ok_start lifecycle_empty)
next
  case (step x y)
  then show ?case by (blast intro: sys_ok_step)
qed

end

subsection \<open>End to end\<close>

context backend
begin

lemma IngestSignal_queued:
  assumes "IngestSignal E ip (Inr req) h w = (resp, h', w')" and "rsp_status resp = StatusAccepted"
  obtains s where "signal_of req s" "q_ch (h_queue h') = q_ch (h_queue h) @ [s]"
proof -
  obtain ok hs rl w1 where rl: "rate_limit E ip (h_rateLimiter h) w = ((ok, hs), rl, w1)" by (metis surj_pair)
  obtain e rq w2 where v: "validateIngestRequest E req w1 = ((e, rq), w2)" by (metis surj_pair)
  from assms rl v have run: "ingest_valid E hs rq (h\<lparr>h_rateLimiter := rl\<rparr>) w2 = (resp, h', w')"
    by (auto simp: IngestSignal_def Let_def split: if_splits option.splits)
  then show thesis
  proof (cases rule: ingest_valid_cases)
    case (accepted s created)
    have "signal_of req s" using accepted(1) validate_keeps [OF v] by (simp add: signal_of_def)
    moreover have "q_ch (h_queue h') = q_ch (h_queue h) @ [s]" using sq.put_cases [OF accepted(3)] by simp
    ultimately show ?thesis by (rule that)
  qed (use assms(2) in auto)
qed

end

subsection \<open>Requests without a token\<close>

fun serve_all ::
  "'o ext \<Rightarrow> 'o auth_ext \<Rightarrow> (go_time \<times> string \<times> request) list \<Rightarrow> app \<Rightarrow> 'o world \<Rightarrow> answer list \<times> app \<times> 'o world" where
  "serve_all E A [] a w = ([], a, w)"
| "serve_all E A ((now, token, req) # rs) a w =
     (case serve E A now token req a w of (ans, a1, w1) \<Rightarrow>
        case serve_all E A rs a1 w1 of (as, a2, w2) \<Rightarrow> (ans # as, a2, w2))"

definition without_token :: "'o auth_ext \<Rightarrow> go_time \<times> string \<times> request \<Rightarrow> bool" where
  "without_token A x \<longleftrightarrow> (case x of (now, token, req) \<Rightarrow> protected req \<longrightarrow> isl (a_parse A (jwtSecret A) (Unix now) token))"

lemma serve_rejected:
  assumes "without_token A (now, token, req)" and "serve E A now token req a w = (ans, a', w')"
  shows "same_stores w w' \<and> a' = a\<lparr>ap_users := ap_users a'\<rparr> \<and> (\<forall>n u. ap_users a n = Some u \<longrightarrow> ap_users a' n = Some u) \<and>
    (protected req \<longrightarrow> ans = Answer (reply StatusUnauthorized [] (ErrorBody (Error ErrUnauthorized))))"
proof (cases "protected req")
  case True
  with assms show ?thesis
    by (cases "a_parse A (jwtSecret A) (Unix now) token") (auto simp: serve_def without_token_def JWTMiddleware_def)
next
  case False
  then have R: "route E A req a w = (ans, a', w')" using assms(2) by (simp add: serve_def)
  show ?thesis
  proof (cases req)
    case (Post_signup p)
    obtain r us w1 where g: "Signup E A p (ap_users a) w = (r, us, w1)" by (metis surj_pair)
    from R Post_signup g Signup_frame [OF g] Signup_adds [OF g] show ?thesis by auto
  qed (use R False in \<open>auto split: prod.splits if_splits dest: Login_frame Health_frame\<close>)
qed

lemma only_users_trans: "b = a\<lparr>ap_users := u\<rparr> \<Longrightarrow> c = b\<lparr>ap_users := v\<rparr> \<Longrightarrow> c = a\<lparr>ap_users := v\<rparr>"
  by simp

lemma serve_all_rejected:
  "list_all (without_token A) rs \<Longrightarrow> serve_all E A rs a w = (as, a', w') \<Longrightarrow>
     same_stores w w' \<and> a' = a\<lparr>ap_users := ap_users a'\<rparr> \<and> (\<forall>n u. ap_users a n = Some u \<longrightarrow> ap_users a' n = Some u)"
proof (induction rs arbitrary: a w as)
  case (Cons x rs)
  obtain now token req where x: "x = (now, token, req)" by (cases x)
  obtain ans a1 w1 where s: "serve E A now token req a w = (ans, a1, w1)" by (metis surj_pair)
  from Cons.prems x s obtain as' where r: "serve_all E A rs a1 w1 = (as', a', w')" by (auto split: prod.splits)
  have "without_token A (now, token, req)" using Cons.prems x by simp
  from serve_rejected [OF this s] have f: "same_stores w w1" "a1 = a\<lparr>ap_users := ap_users a1\<rparr>"
      "\<forall>n u. ap_users a n = Some u \<longrightarrow> ap_users a1 n = Some u" by auto
  from Cons.IH [OF _ r] Cons.prems(1) have g: "same_stores w1 w'" "a' = a1\<lparr>ap_users := ap_users a'\<rparr>"
      "\<forall>n u. ap_users a1 n = Some u \<longrightarrow> ap_users a' n = Some u" by auto
  have "a' = a\<lparr>ap_users := ap_users a'\<rparr>" by (rule only_users_trans [OF f(2) g(2)])
  with f g show ?case by (auto intro: same_stores_trans)
qed simp

subsection \<open>Examples\<close>

text \<open>A run: a signal is posted with a valid token, a worker takes it, its alert is sent.\<close>

definition ex_token :: string where
  "ex_token = itoa 1000 @ '' '' @ itoa 5 @ '' bob''"

definition ex_env :: "string \<Rightarrow> string" where
  "ex_env = (\<lambda>k. if k = ''QUEUE_CAPACITY'' then ''8'' else [])"

definition ex_posted :: "answer \<times> app \<times> ref_o world" where
  "ex_posted = serve ref_env ref_auth 0 ex_token (Post_signals ''ip'' (Inr ex_request)) (main_app ex_env 0) (ref_world 5 [])"

definition ex_worked :: "app \<times> ref_o world" where
  "ex_worked = (case ex_posted of (ans, a, w) \<Rightarrow>
     (case Consume (app_queue a) of
        None \<Rightarrow> (a, w)
      | Some (s, q) \<Rightarrow> (case processSignal ref_env ex_order s (ap_pool a) w of (p, w') \<Rightarrow>
          (a\<lparr>ap_handler := (ap_handler a)\<lparr>h_queue := q\<rparr>, ap_pool := p\<rparr>, w'))))"

lemma ex_start: "sys_reach ref_env ref_auth ex_env (main_app ex_env 0, ref_world 5 [])"
  by (rule sys_reach.start) (simp_all add: ref_world_def)

lemma ex_posted_reach: "sys_reach ref_env ref_auth ex_env (snd ex_posted)"
proof -
  obtain ans a w where p: "ex_posted = (ans, a, w)" by (metis surj_pair)
  then have "sys_step ref_env ref_auth (main_app ex_env 0, ref_world 5 []) (a, w)"
    unfolding ex_posted_def by (rule sys_step.request)
  from sys_reach.step [OF ex_start this] show ?thesis by (simp only: p snd_conv)
qed

lemma ex_worked_reach: "sys_reach ref_env ref_auth ex_env ex_worked"
proof -
  obtain ans a w where p: "ex_posted = (ans, a, w)" by (metis surj_pair)
  have r: "sys_reach ref_env ref_auth ex_env (a, w)" using ex_posted_reach by (simp only: p snd_conv)
  show ?thesis
  proof (cases "Consume (app_queue a)")
    case None
    with r show ?thesis unfolding ex_worked_def p by simp
  next
    case (Some x)
    then obtain s q where c: "Consume (app_queue a) = Some (s, q)" by (cases x) auto
    obtain pl w' where ps: "processSignal ref_env ex_order s (ap_pool a) w = (pl, w')" by fastforce
    have "all_jobs ex_order" by code_simp
    from sys_reach.step [OF r sys_step.work [OF c this ps]] c ps show ?thesis unfolding ex_worked_def p by simp
  qed
qed

subsection \<open>Properties\<close>







text \<open>
  C5. From the request to the log. Take a reachable state of the system, and a signal posted in it that
  was answered with 202. A worker that then receives everything in the queue, and reports no error,
  leaves the queue empty and the signal as the last one of the log, with the component and the message of
  the request and linked to a work item of that component.
\<close>

theorem accepted_signal_logged:
  assumes "backend E" and "sys_reach E A env (a, w)"
    and "serve E A now token (Post_signals ip (Inr req)) a w = (Answer resp, a1, w1)"
    and "rsp_status resp = StatusAccepted"
    and "jobs_ok cs" and "length (q_ch (app_queue a1)) \<le> receives cs"
    and "runWorker E cs (app_queue a1) (ap_pool a1) w1 = (q', p', w')" and "p_errors p' = p_errors (ap_pool a1)"
  shows "q_ch q' = [] \<and> (\<exists>s docs. w_mongo w' = docs @ [x_bson E s] \<and> signal_of req s \<and>
    item_of (w_pg w1) (sig_WorkItemID s) (ir_ComponentID req))"
proof -
  have ok1: "sys_ok (a1, w1)"
    using backend.sys_ok_serve [OF assms(1) backend.sys_ok_reach [OF assms(1,2)] assms(3)] .
  have "route E A (Post_signals ip (Inr req)) a w = (Answer resp, a1, w1)"
    using assms(3,4) by (auto simp: serve_def JWTMiddleware_def split: sum.splits)
  then obtain h where i: "IngestSignal E ip (Inr req) (ap_handler a) w = (resp, h, w1)" "a1 = a\<lparr>ap_handler := h\<rparr>"
    by (auto split: prod.splits)
  obtain s where s: "signal_of req s" "q_ch (app_queue a1) = q_ch (app_queue a) @ [s]"
    by (rule backend.IngestSignal_queued [OF assms(1) i(1) assms(4)]) (simp add: i(2))
  have life: "lifecycle_ok (w_pg w1)" and link: "linked_signal (w_pg w1) s"
    and cap: "Len (app_queue a1) \<le> Cap (app_queue a1)"
    using ok1 s by (auto simp: parts_ok_def ingest_inv_def handler_ok_def)
  from backend.runWorker_effect [OF assms(1,5) life assms(7)] obtain taken stored k where t:
      "q_ch (app_queue a1) = taken @ q_ch q'" "length taken = min (receives cs) (length (q_ch (app_queue a1)))"
      "k \<le> length taken" "p_errors p' = p_errors (ap_pool a1) + of_nat k" "subseq stored taken"
      "length taken \<le> length stored + k" "w_mongo w' = w_mongo w1 @ map (x_bson E) stored"
    unfolding worker_effect_def prod.case by blast
  have taken: "taken = q_ch (app_queue a1)" "q_ch q' = []"
    using t(1) t(2) [unfolded min_absorb2 [OF assms(6)]] by auto
  have "int (length taken) \<le> sint (q_capacity (app_queue a1))" using cap taken by (simp add: Len_def Cap_def)
  with t(3) sint_int64_less [of "q_capacity (app_queue a1)"] have "int k < 2 ^ 63" by linarith
  moreover have "(of_nat k :: int64) = 0" using t(4) assms(8) by simp
  ultimately have "k = 0" using dvd_imp_le [of "2 ^ 64" k] by (cases "k = 0") (auto simp: word_of_nat_eq_0_iff)
  with t(5,6) have "stored = taken" by (metis add_0_right list_emb_length subseq_same_length le_antisym)
  with t(7) s taken link show ?thesis by (auto simp: linked_signal_def signal_of_def)
qed

theorem accepted_signal_logged_witness:
  "\<exists>ans a1 w1 q' p' w' s docs. ex_posted = (ans, a1, w1) \<and>
     runWorker ref_env [Receive ex_order, Done] (app_queue a1) (ap_pool a1) w1 = (q', p', w') \<and>
     q_ch q' = [] \<and> w_mongo w' = docs @ [x_bson ref_env s] \<and> signal_of ex_request s"
proof -
  let ?run = "\<lambda>x. runWorker ref_env [Receive ex_order, Done] (app_queue (fst (snd x))) (ap_pool (fst (snd x))) (snd (snd x))"
  have "case fst ex_posted of Answer resp \<Rightarrow> rsp_status resp = StatusAccepted | _ \<Rightarrow> False" by code_simp
  then have "\<exists>resp. fst ex_posted = Answer resp \<and> rsp_status resp = StatusAccepted" by (auto split: answer.splits)
  then obtain resp a1 w1 where x: "ex_posted = (Answer resp, a1, w1)" and st: "rsp_status resp = StatusAccepted"
    by (metis prod.collapse)
  obtain q' p' w' where r: "runWorker ref_env [Receive ex_order, Done] (app_queue a1) (ap_pool a1) w1 = (q', p', w')"
    by (metis surj_pair)
  have "length (q_ch (app_queue (fst (snd ex_posted)))) \<le> receives [Receive ex_order, Done]" by code_simp
  then have len: "length (q_ch (app_queue a1)) \<le> receives [Receive ex_order, Done]" unfolding x by simp
  have "p_errors (fst (snd (?run ex_posted))) = p_errors (ap_pool (fst (snd ex_posted)))" by code_simp
  then have err: "p_errors p' = p_errors (ap_pool a1)" unfolding x using r by simp
  have jobs: "jobs_ok [Receive ex_order, Done]" by code_simp
  from accepted_signal_logged [OF ref.backend_axioms ex_start x [unfolded ex_posted_def] st jobs len r err] x r
  show ?thesis by blast
qed

end
