(* ===== verification/PoolRun.thy ===== *)
theory PoolRun
  imports WorkerPool
begin

text \<open>
  The worker pool as it runs (\<open>Start\<close>, the goroutines of \<open>runWorker\<close> and \<open>processSignal\<close>, and \<open>Wait\<close> of
  \<open>worker/pool.go\<close>): any number of workers, each waiting in its \<open>select\<close>, writing a signal, or stopped.
  The three writes of a signal are separate moves, so the writes of different workers interleave, and
  handlers put signals on the queue at any time. The fields \<open>pr_accepted\<close> and \<open>pr_received\<close> record what was
  sent to and received from the channel.
\<close>

datatype worker = Waiting | Writing Signal "write_job list" write_errors | Stopped

record 'o pool_run =
  pr_workers :: "worker list"
  pr_queue :: SignalQueue
  pr_pool :: Pool
  pr_world :: "'o world"
  pr_accepted :: "Signal list"
  pr_received :: "Signal list"

definition pool_Start :: "SignalQueue \<Rightarrow> Pool \<Rightarrow> 'o world \<Rightarrow> 'o pool_run" where
  "pool_Start q p w = \<lparr>pr_workers = replicate (nat (p_workers p)) Waiting, pr_queue = q, pr_pool = p, pr_world = w,
     pr_accepted = q_ch q, pr_received = []\<rparr>"

text \<open>\<open>Wait\<close> returns when every worker has called \<open>wg.Done\<close>.\<close>

definition pool_Wait :: "'o pool_run \<Rightarrow> bool" where
  "pool_Wait s = list_all (\<lambda>x. case x of Stopped \<Rightarrow> True | _ \<Rightarrow> False) (pr_workers s)"

datatype pool_event = Stop nat | Take nat | Write nat write_job | Finish nat | Offer Signal

definition worker_at :: "nat \<Rightarrow> 'o pool_run \<Rightarrow> worker" where
  "worker_at i s = (if i < length (pr_workers s) then pr_workers s ! i else Stopped)"

definition set_worker :: "nat \<Rightarrow> worker \<Rightarrow> 'o pool_run \<Rightarrow> 'o pool_run" where
  "set_worker i x s = s\<lparr>pr_workers := (pr_workers s)[i := x]\<rparr>"

text \<open>One move; \<open>None\<close>: it is not possible in this state.\<close>

primrec pool_move :: "'o ext \<Rightarrow> pool_event \<Rightarrow> 'o pool_run \<Rightarrow> 'o pool_run option" where
  "pool_move E (Stop i) s =
     (case worker_at i s of Waiting \<Rightarrow> Some (set_worker i Stopped s) | _ \<Rightarrow> None)"
| "pool_move E (Take i) s =
     (case worker_at i s of
        Waiting \<Rightarrow>
          (case Consume (pr_queue s) of
             None \<Rightarrow> None
           | Some (signal, q) \<Rightarrow>
               Some (set_worker i (Writing signal [Mongo_job, Count_job, Series_job] \<lparr>we_mongoErr = None, we_pgErr = None\<rparr>)
                 (s\<lparr>pr_queue := q, pr_received := pr_received s @ [signal]\<rparr>)))
      | _ \<Rightarrow> None)"
| "pool_move E (Write i job) s =
     (case worker_at i s of
        Writing signal jobs errs \<Rightarrow>
          if job \<in> set jobs
          then (case run_job E signal job errs (pr_world s) of (errs1, w1) \<Rightarrow>
                  Some (set_worker i (Writing signal (remove1 job jobs) errs1) (s\<lparr>pr_world := w1\<rparr>)))
          else None
      | _ \<Rightarrow> None)"
| "pool_move E (Finish i) s =
     (case worker_at i s of
        Writing signal [] errs \<Rightarrow>
          Some (set_worker i Waiting (s\<lparr>pr_pool :=
            (if we_mongoErr errs \<noteq> None \<or> we_pgErr errs \<noteq> None
             then (pr_pool s)\<lparr>p_errors := p_errors (pr_pool s) + 1\<rparr>
             else (pr_pool s)\<lparr>p_processed := p_processed (pr_pool s) + 1\<rparr>)\<rparr>))
      | _ \<Rightarrow> None)"
| "pool_move E (Offer signal) s =
     (case TryEnqueue signal (pr_queue s) of (ok, q) \<Rightarrow>
        Some (s\<lparr>pr_queue := q, pr_accepted := (if ok then pr_accepted s @ [signal] else pr_accepted s)\<rparr>))"

fun pool_moves :: "'o ext \<Rightarrow> pool_event list \<Rightarrow> 'o pool_run \<Rightarrow> 'o pool_run option" where
  "pool_moves E [] s = Some s"
| "pool_moves E (e # es) s = (case pool_move E e s of None \<Rightarrow> None | Some s1 \<Rightarrow> pool_moves E es s1)"

subsection \<open>What the workers hold\<close>

primrec busy :: "worker \<Rightarrow> nat" where
  "busy Waiting = 0" | "busy (Writing sg jobs errs) = 1" | "busy Stopped = 0"

primrec failing :: "worker \<Rightarrow> nat" where
  "failing Waiting = 0" | "failing (Writing sg jobs errs) = (if we_mongoErr errs = None then 0 else 1)" | "failing Stopped = 0"

primrec unlogged :: "worker \<Rightarrow> Signal multiset" where
  "unlogged Waiting = {#}" | "unlogged (Writing sg jobs errs) = (if Mongo_job \<in> set jobs then {#sg#} else {#})"
| "unlogged Stopped = {#}"

primrec worker_ok :: "worker \<Rightarrow> bool" where
  "worker_ok Waiting = True" | "worker_ok Stopped = True"
| "worker_ok (Writing sg jobs errs) = (distinct jobs \<and> (Mongo_job \<in> set jobs \<longrightarrow> we_mongoErr errs = None))"

primrec work_left :: "worker \<Rightarrow> nat" where
  "work_left Waiting = 1" | "work_left (Writing sg jobs errs) = length jobs + 2" | "work_left Stopped = 0"

abbreviation tally :: "(worker \<Rightarrow> 'a::comm_monoid_add) \<Rightarrow> 'o pool_run \<Rightarrow> 'a" where
  "tally f s \<equiv> sum_list (map f (pr_workers s))"

lemma sum_list_map_update:
  fixes f :: "'a \<Rightarrow> 'b::comm_monoid_add"
  shows "i < length xs \<Longrightarrow> sum_list (map f (xs[i := x])) + f (xs ! i) = sum_list (map f xs) + f x"
proof (induction xs arbitrary: i)
  case (Cons y ys)
  show ?case
  proof (cases i)
    case (Suc j)
    then have "sum_list (map f (ys[j := x])) + f (ys ! j) = sum_list (map f ys) + f x" using Cons by simp
    with Suc show ?thesis by (simp add: add.assoc)
  qed (simp add: ac_simps)
qed simp

lemma total_set:
  "worker_at i s \<noteq> Stopped \<Longrightarrow> tally f (set_worker i x s) + f (worker_at i s) = tally f s + f x"
  by (simp add: worker_at_def set_worker_def sum_list_map_update split: if_splits)

lemma total_upd [simp]:
  "tally f (s\<lparr>pr_queue := q\<rparr>) = tally f s" "tally f (s\<lparr>pr_world := w\<rparr>) = tally f s" "tally f (s\<lparr>pr_pool := p\<rparr>) = tally f s"
  "tally f (s\<lparr>pr_received := r\<rparr>) = tally f s" "tally f (s\<lparr>pr_accepted := r\<rparr>) = tally f s"
  by simp_all

lemma set_worker_frame [simp]:
  "pr_queue (set_worker i x s) = pr_queue s" "pr_pool (set_worker i x s) = pr_pool s"
  "pr_world (set_worker i x s) = pr_world s" "pr_accepted (set_worker i x s) = pr_accepted s"
  "pr_received (set_worker i x s) = pr_received s" "length (pr_workers (set_worker i x s)) = length (pr_workers s)"
  by (simp_all add: set_worker_def)

lemma worker_at_frame [simp]:
  "worker_at i (s\<lparr>pr_queue := q\<rparr>) = worker_at i s" "worker_at i (s\<lparr>pr_world := w\<rparr>) = worker_at i s"
  "worker_at i (s\<lparr>pr_pool := p\<rparr>) = worker_at i s" "worker_at i (s\<lparr>pr_received := r\<rparr>) = worker_at i s"
  by (simp_all add: worker_at_def)

subsection \<open>Accounting\<close>

text \<open>
  Relative to the counters \<open>p0\<close> and the log \<open>docs0\<close> at the start: \<open>k\<close> errors have been counted, \<open>lg\<close> are the
  signals received that are in the log, \<open>lost\<close> those whose write to the log failed.
\<close>

definition accounts ::
  "'o ext \<Rightarrow> Pool \<Rightarrow> Signal list \<Rightarrow> nat \<Rightarrow> Signal multiset \<Rightarrow> Signal multiset \<Rightarrow> 'o pool_run \<Rightarrow> bool" where
  "accounts E p0 docs0 k lg lost s \<longleftrightarrow>
     p_errors (pr_pool s) = p_errors p0 + of_nat k \<and>
     (\<exists>j. p_processed (pr_pool s) = p_processed p0 + of_nat j \<and> j + k + tally busy s = length (pr_received s)) \<and>
     mset (pr_received s) = lg + lost + tally unlogged s \<and> size lost \<le> k + tally failing s \<and>
     mset (w_mongo (pr_world s)) = mset docs0 + image_mset (x_bson E) lg"

definition run_ok :: "'o pool_run \<Rightarrow> bool" where
  "run_ok s \<longleftrightarrow> pr_accepted s = pr_received s @ q_ch (pr_queue s) \<and> list_all worker_ok (pr_workers s) \<and>
     lifecycle_ok (w_pg (pr_world s))"

lemma worker_ok_at: "list_all worker_ok (pr_workers s) \<Longrightarrow> worker_ok (worker_at i s)"
  by (simp add: worker_at_def list_all_length)

lemma workers_ok_set:
  "list_all worker_ok (pr_workers s) \<Longrightarrow> worker_ok x \<Longrightarrow> list_all worker_ok (pr_workers (set_worker i x s))"
  by (auto simp: set_worker_def list_all_iff dest: set_update_subset_insert [THEN subsetD])

lemma total_start: "f Waiting = 0 \<Longrightarrow> tally f (pool_Start q p w) = 0"
proof -
  assume f: "f Waiting = 0"
  have "sum_list (map f (replicate n Waiting)) = 0" for n by (induction n) (simp_all add: f)
  then show ?thesis by (simp add: pool_Start_def)
qed

lemma accounts_start: "accounts E p (w_mongo w) 0 {#} {#} (pool_Start q p w)"
  using total_start [of busy q p w] total_start [of unlogged q p w] total_start [of failing q p w]
  by (auto simp only: accounts_def) (auto simp: pool_Start_def)

lemma run_ok_start: "lifecycle_ok (w_pg w) \<Longrightarrow> run_ok (pool_Start q p w)"
  by (simp add: run_ok_def pool_Start_def list_all_length)

context backend
begin

lemma accounts_take:
  assumes "accounts E p0 docs0 k lg lost s" and "run_ok s" and "pool_move E (Take i) s = Some s'"
  shows "accounts E p0 docs0 k lg lost s' \<and> run_ok s'"
proof -
  from assms(3) obtain sg q where at: "worker_at i s = Waiting" and c: "Consume (pr_queue s) = Some (sg, q)"
    and s': "s' = set_worker i (Writing sg [Mongo_job, Count_job, Series_job] \<lparr>we_mongoErr = None, we_pgErr = None\<rparr>)
      (s\<lparr>pr_queue := q, pr_received := pr_received s @ [sg]\<rparr>)"
    by (auto split: worker.splits option.splits)
  let ?s1 = "s\<lparr>pr_queue := q, pr_received := pr_received s @ [sg]\<rparr>"
  have at1: "worker_at i ?s1 \<noteq> Stopped" using at by simp
  have "tally busy s' = tally busy s + 1" "tally failing s' = tally failing s" "tally unlogged s' = tally unlogged s + {#sg#}"
    using total_set [OF at1, of busy] total_set [OF at1, of failing] total_set [OF at1, of unlogged] at s' by simp_all
  with assms(1) have "accounts E p0 docs0 k lg lost s'"
    unfolding accounts_def using s' by fastforce
  moreover have "run_ok s'"
    using assms(2) Consume_Some [OF c] s' workers_ok_set [of ?s1] by (simp add: run_ok_def)
  ultimately show ?thesis by simp
qed

lemma accounts_stop:
  assumes "accounts E p0 docs0 k lg lost s" and "run_ok s" and "pool_move E (Stop i) s = Some s'"
  shows "accounts E p0 docs0 k lg lost s' \<and> run_ok s'"
proof -
  from assms(3) have at: "worker_at i s = Waiting" and s': "s' = set_worker i Stopped s"
    by (auto split: worker.splits)
  have at1: "worker_at i s \<noteq> Stopped" using at by simp
  have "tally busy s' = tally busy s" "tally failing s' = tally failing s" "tally unlogged s' = tally unlogged s"
    using total_set [OF at1, of busy] total_set [OF at1, of failing] total_set [OF at1, of unlogged] at s' by simp_all
  with assms(1,2) s' workers_ok_set [of s Stopped i] show ?thesis by (simp add: accounts_def run_ok_def)
qed

lemma accounts_offer:
  assumes "accounts E p0 docs0 k lg lost s" and "run_ok s" and "pool_move E (Offer sg) s = Some s'"
  shows "accounts E p0 docs0 k lg lost s' \<and> run_ok s'"
  using assms by (auto simp: accounts_def run_ok_def TryEnqueue_def split: if_splits)

lemma accounts_finish:
  assumes "accounts E p0 docs0 k lg lost s" and "run_ok s" and "pool_move E (Finish i) s = Some s'"
  shows "\<exists>k'. accounts E p0 docs0 k' lg lost s' \<and> run_ok s'"
proof -
  from assms(3) obtain sg errs where at: "worker_at i s = Writing sg [] errs"
    and s': "s' = set_worker i Waiting (s\<lparr>pr_pool :=
        (if we_mongoErr errs \<noteq> None \<or> we_pgErr errs \<noteq> None
         then (pr_pool s)\<lparr>p_errors := p_errors (pr_pool s) + 1\<rparr>
         else (pr_pool s)\<lparr>p_processed := p_processed (pr_pool s) + 1\<rparr>)\<rparr>)" (is "_ = set_worker i Waiting ?s1")
    by (auto split: worker.splits list.splits)
  have at1: "worker_at i ?s1 \<noteq> Stopped" using at by simp
  have t: "tally busy s' + 1 = tally busy s" "tally failing s' + failing (worker_at i s) = tally failing s"
      "tally unlogged s' = tally unlogged s"
    using total_set [OF at1, of busy] total_set [OF at1, of failing] total_set [OF at1, of unlogged] at s' by simp_all
  have ok: "run_ok s'" using assms(2) s' workers_ok_set [of ?s1 Waiting i] by (simp add: run_ok_def)
  from assms(1) obtain j where a: "p_errors (pr_pool s) = p_errors p0 + of_nat k"
      "p_processed (pr_pool s) = p_processed p0 + of_nat j" "j + k + tally busy s = length (pr_received s)"
      "mset (pr_received s) = lg + lost + tally unlogged s" "size lost \<le> k + tally failing s"
      "mset (w_mongo (pr_world s)) = mset docs0 + image_mset (x_bson E) lg"
    by (auto simp: accounts_def)
  show ?thesis
  proof (cases "we_mongoErr errs \<noteq> None \<or> we_pgErr errs \<noteq> None")
    case True
    have "failing (worker_at i s) \<le> 1" using at by simp
    then have "size lost \<le> k + 1 + tally failing s'" using t(2) a(5) by linarith
    moreover have "j + (k + 1) + tally busy s' = length (pr_received s)" using t(1) a(3) by linarith
    ultimately have "accounts E p0 docs0 (k + 1) lg lost s'"
      using True a t(3) s' unfolding accounts_def by (intro conjI exI [of _ j]) simp_all
    with ok show ?thesis by blast
  next
    case False
    then have "tally failing s' = tally failing s" using t(2) at by simp
    moreover have "(j + 1) + k + tally busy s' = length (pr_received s)" using t(1) a(3) by linarith
    ultimately have "accounts E p0 docs0 k lg lost s'"
      using False a t(3) s' unfolding accounts_def by (intro conjI exI [of _ "j + 1"]) simp_all
    with ok show ?thesis by blast
  qed
qed

lemma run_job_stores:
  assumes "run_job E sg job errs w = (errs', w')" and "lifecycle_ok (w_pg w)"
  shows "lifecycle_ok (w_pg w') \<and>
    (if job = Mongo_job then logged E sg (we_mongoErr errs) (we_mongoErr errs') (w_mongo w) (w_mongo w')
     else we_mongoErr errs' = we_mongoErr errs \<and> w_mongo w' = w_mongo w)"
proof (cases job)
  case Mongo_job
  with assms mongo_job [of sg errs w errs' w'] show ?thesis by simp
next
  case Count_job
  with assms count_job [of sg errs w errs' w'] show ?thesis by simp
next
  case Series_job
  with assms series_job [of sg errs w errs' w'] show ?thesis by simp
qed

lemma accounts_write:
  assumes "accounts E p0 docs0 k lg lost s" and "run_ok s" and "pool_move E (Write i job) s = Some s'"
  shows "\<exists>lg' lost'. accounts E p0 docs0 k lg' lost' s' \<and> run_ok s'"
proof -
  from assms(3) obtain sg jobs errs errs1 w1 where at: "worker_at i s = Writing sg jobs errs" "job \<in> set jobs"
    and j: "run_job E sg job errs (pr_world s) = (errs1, w1)"
    and s': "s' = set_worker i (Writing sg (remove1 job jobs) errs1) (s\<lparr>pr_world := w1\<rparr>)" (is "_ = set_worker i ?x ?s1")
    by (auto split: worker.splits if_splits prod.splits)
  have life: "lifecycle_ok (w_pg (pr_world s))" and wok: "worker_ok (Writing sg jobs errs)"
    using assms(2) worker_ok_at [of s i] at by (simp_all add: run_ok_def)
  note J = run_job_stores [OF j life]
  have ok1: "worker_ok (Writing sg (remove1 job jobs) errs1)" using wok J by (auto simp: set_remove1_eq)
  have ok: "run_ok s'" using assms(2) s' J workers_ok_set [OF _ ok1, of ?s1 i] by (simp add: run_ok_def)
  have at1: "worker_at i ?s1 \<noteq> Stopped" using at by simp
  have t: "tally busy s' = tally busy s" "tally failing s' + failing (Writing sg jobs errs) = tally failing s + failing (Writing sg (remove1 job jobs) errs1)"
      "tally unlogged s' + unlogged (Writing sg jobs errs) = tally unlogged s + unlogged (Writing sg (remove1 job jobs) errs1)"
    using total_set [OF at1, of busy ?x] total_set [OF at1, of failing ?x] total_set [OF at1, of unlogged ?x] at s' by simp_all
  show ?thesis
  proof (cases "job = Mongo_job")
    case False
    then have "tally failing s' = tally failing s" "tally unlogged s' = tally unlogged s" "w_mongo w1 = w_mongo (pr_world s)"
      using t(2,3) J by auto
    then have "accounts E p0 docs0 k lg lost s'" using assms(1) t(1) s' by (simp add: accounts_def)
    with ok show ?thesis by blast
  next
    case True
    have u: "tally unlogged s = tally unlogged s' + {#sg#}" using t(3) True wok at(2) by (simp add: set_remove1_eq)
    have e: "we_mongoErr errs = None" using wok True at(2) by simp
    have f: "tally failing s' = tally failing s + (if we_mongoErr errs1 = None then 0 else 1)" using t(2) e by simp
    from J True e have L: "w_mongo w1 = w_mongo (pr_world s) @ [x_bson E sg] \<or>
        we_mongoErr errs1 \<noteq> None \<and> w_mongo w1 = w_mongo (pr_world s)"
      by (auto simp: logged_def Let_def)
    show ?thesis
    proof (cases "w_mongo w1 = w_mongo (pr_world s) @ [x_bson E sg]")
      case True
      then have "accounts E p0 docs0 k (lg + {#sg#}) lost s'" using assms(1) t(1) u f s' by (simp add: accounts_def)
      with ok show ?thesis by blast
    next
      case False
      with L have "we_mongoErr errs1 \<noteq> None" "w_mongo w1 = w_mongo (pr_world s)" by auto
      then have "accounts E p0 docs0 k lg (lost + {#sg#}) s'" using assms(1) t(1) u f s' by (auto simp: accounts_def)
      with ok show ?thesis by blast
    qed
  qed
qed

lemma accounts_moves:
  "accounts E p0 docs0 k lg lost s \<Longrightarrow> run_ok s \<Longrightarrow> pool_moves E es s = Some s' \<Longrightarrow>
     \<exists>k' lg' lost'. accounts E p0 docs0 k' lg' lost' s' \<and> run_ok s'"
proof (induction es arbitrary: k lg lost s)
  case (Cons e es)
  obtain s1 where m: "pool_move E e s = Some s1" and rest: "pool_moves E es s1 = Some s'"
    using Cons.prems(3) by (auto split: option.splits)
  have "\<exists>k' lg' lost'. accounts E p0 docs0 k' lg' lost' s1 \<and> run_ok s1"
  proof (cases e)
    case (Stop i)
    from accounts_stop [OF Cons.prems(1,2) m [unfolded Stop]] show ?thesis by blast
  next
    case (Take i)
    from accounts_take [OF Cons.prems(1,2) m [unfolded Take]] show ?thesis by blast
  next
    case (Write i job)
    from accounts_write [OF Cons.prems(1,2) m [unfolded Write]] show ?thesis by blast
  next
    case (Finish i)
    from accounts_finish [OF Cons.prems(1,2) m [unfolded Finish]] show ?thesis by blast
  next
    case (Offer sg)
    from accounts_offer [OF Cons.prems(1,2) m [unfolded Offer]] show ?thesis by blast
  qed
  with Cons.IH rest show ?case by blast
qed auto

end

subsection \<open>Shutdown\<close>

primrec shutdown_event :: "pool_event \<Rightarrow> bool" where
  "shutdown_event (Stop i) = True" | "shutdown_event (Take i) = False" | "shutdown_event (Write i j) = True"
| "shutdown_event (Finish i) = True" | "shutdown_event (Offer sg) = False"

lemma shutdown_move:
  assumes "pool_move E e s = Some s'" and "shutdown_event e"
  shows "tally work_left s' + 1 = tally work_left s"
proof -
  have less: "work_left x + 1 = work_left (worker_at i t) \<Longrightarrow> worker_at i t \<noteq> Stopped \<Longrightarrow> pr_workers t = pr_workers s \<Longrightarrow>
      s' = set_worker i x t \<Longrightarrow> ?thesis" for x i t
    using total_set [of i t work_left x] by simp
  show ?thesis
  proof (cases e)
    case (Stop i)
    with assms show ?thesis by (intro less [of Stopped i s]) (auto split: worker.splits)
  next
    case (Write i job)
    with assms(1) obtain sg jobs errs errs1 w1 where at: "worker_at i s = Writing sg jobs errs" "job \<in> set jobs"
      and s': "s' = set_worker i (Writing sg (remove1 job jobs) errs1) (s\<lparr>pr_world := w1\<rparr>)"
      by (auto split: worker.splits if_splits prod.splits)
    have "length (remove1 job jobs) + 1 = length jobs" using at(2) length_pos_if_in_set [OF at(2)] by (simp add: length_remove1)
    then show ?thesis using at s' by (intro less [of "Writing sg (remove1 job jobs) errs1" i "s\<lparr>pr_world := w1\<rparr>"]) auto
  next
    case (Finish i)
    with assms show ?thesis
      by (intro less [of Waiting i "s\<lparr>pr_pool := pr_pool s'\<rparr>"]) (auto split: worker.splits list.splits)
  qed (use assms(2) in auto)
qed

lemma shutdown_moves:
  "pool_moves E es s = Some s' \<Longrightarrow> list_all shutdown_event es \<Longrightarrow> length es + tally work_left s' = tally work_left s"
proof (induction es arbitrary: s)
  case (Cons e es)
  obtain s1 where "pool_move E e s = Some s1" "pool_moves E es s1 = Some s'" using Cons.prems(1) by (auto split: option.splits)
  with Cons shutdown_move [of E e s s1] show ?case by auto
qed simp

lemma shutdown_possible:
  assumes "\<not> pool_Wait s"
  shows "\<exists>e s'. shutdown_event e \<and> pool_move E e s = Some s'"
proof -
  from assms obtain i where i: "i < length (pr_workers s)" "\<not> (case pr_workers s ! i of Stopped \<Rightarrow> True | _ \<Rightarrow> False)"
    by (auto simp: pool_Wait_def list_all_length)
  then consider "worker_at i s = Waiting" | sg jobs errs where "worker_at i s = Writing sg jobs errs"
    by (cases "pr_workers s ! i") (auto simp: worker_at_def)
  then show ?thesis
  proof cases
    case 1
    then show ?thesis by (intro exI [of _ "Stop i"]) simp
  next
    case (2 sg jobs errs)
    show ?thesis
    proof (cases jobs)
      case Nil
      with 2 show ?thesis by (intro exI [of _ "Finish i"]) simp
    next
      case (Cons job jobs')
      with 2 show ?thesis by (intro exI [of _ "Write i job"]) (auto split: prod.splits)
    qed
  qed
qed

lemma work_left_bound: "list_all worker_ok (pr_workers s) \<Longrightarrow> tally work_left s \<le> 5 * length (pr_workers s)"
proof -
  have "worker_ok x \<Longrightarrow> work_left x \<le> 5" for x
  proof (cases x)
    case (Writing sg jobs errs)
    assume "worker_ok x"
    then have "distinct jobs" using Writing by simp
    then have "length jobs = card (set jobs)" by (simp add: distinct_card)
    also have "\<dots> \<le> card {Mongo_job, Count_job, Series_job}" by (rule card_mono) (auto intro: write_job.exhaust)
    finally show ?thesis using Writing by simp
  qed simp_all
  then have "list_all worker_ok ws \<Longrightarrow> sum_list (map work_left ws) \<le> 5 * length ws" for ws
    by (induction ws) (auto intro: add_mono)
  then show "list_all worker_ok (pr_workers s) \<Longrightarrow> tally work_left s \<le> 5 * length (pr_workers s)" by simp
qed

lemma workers_kept: "pool_moves E es s = Some s' \<Longrightarrow> length (pr_workers s') = length (pr_workers s)"
proof (induction es arbitrary: s)
  case (Cons e es)
  obtain s1 where m: "pool_move E e s = Some s1" "pool_moves E es s1 = Some s'" using Cons.prems(1) by (auto split: option.splits)
  have "length (pr_workers s1) = length (pr_workers s)"
    using m(1) by (cases e) (auto split: worker.splits option.splits prod.splits if_splits list.splits)
  with Cons.IH [OF m(2)] show ?case by simp
qed simp

lemma shutdown_queue:
  "pool_moves E es s = Some s' \<Longrightarrow> list_all shutdown_event es \<Longrightarrow> pr_queue s' = pr_queue s"
proof (induction es arbitrary: s)
  case (Cons e es)
  obtain s1 where m: "pool_move E e s = Some s1" "pool_moves E es s1 = Some s'" using Cons.prems(1) by (auto split: option.splits)
  have "pr_queue s1 = pr_queue s"
    using m(1) Cons.prems(2) by (cases e) (auto split: worker.splits prod.splits if_splits list.splits)
  with Cons m(2) show ?case by auto
qed simp

subsection \<open>Properties\<close>

text \<open>
  C12. No signal is lost or written twice, however the workers interleave. For any number of workers and
  any interleaving of their writes with new signals: what was accepted is, in order, what was received
  followed by what is in the queue; every signal received is in the log once, or still to be written, or
  its write failed; \<open>k\<close> errors have been counted, and when no worker is writing, processed signals and
  errors add up to those received and at most \<open>k\<close> are missing from the log. Without an error the log has grown
  by exactly the signals received.
\<close>

theorem pool_accounts:
  assumes "backend E" and "lifecycle_ok (w_pg w)" and "pool_moves E es (pool_Start q p w) = Some s"
  shows "pr_accepted s = pr_received s @ q_ch (pr_queue s) \<and> lifecycle_ok (w_pg (pr_world s)) \<and>
    (\<exists>j k lg lost. p_processed (pr_pool s) = p_processed p + of_nat j \<and> p_errors (pr_pool s) = p_errors p + of_nat k \<and>
      mset (w_mongo (pr_world s)) = mset (w_mongo w) + image_mset (x_bson E) lg \<and>
      mset (pr_received s) = lg + lost + tally unlogged s \<and> j + k + tally busy s = length (pr_received s) \<and>
      (tally busy s = 0 \<longrightarrow> mset (pr_received s) = lg + lost \<and> size lost \<le> k))"
proof -
  from backend.accounts_moves [OF assms(1) accounts_start run_ok_start [OF assms(2)] assms(3)]
  obtain k lg lost where a: "accounts E p (w_mongo w) k lg lost s" "run_ok s" by blast
  then obtain j where j: "p_processed (pr_pool s) = p_processed p + of_nat j" "j + k + tally busy s = length (pr_received s)"
    by (auto simp: accounts_def)
  have idle: "tally failing s = 0 \<and> tally unlogged s = {#}" if "tally busy s = 0"
  proof -
    have "sum_list (map busy ws) = 0 \<Longrightarrow> sum_list (map failing ws) = 0 \<and> sum_list (map unlogged ws) = {#}" for ws
    proof (induction ws)
      case (Cons x ws)
      then show ?case by (cases x) auto
    qed simp
    with that show ?thesis by blast
  qed
  have fifo: "pr_accepted s = pr_received s @ q_ch (pr_queue s)" "lifecycle_ok (w_pg (pr_world s))"
    using a(2) by (simp_all add: run_ok_def)
  have rest: "p_errors (pr_pool s) = p_errors p + of_nat k" "mset (w_mongo (pr_world s)) = mset (w_mongo w) + image_mset (x_bson E) lg"
      "mset (pr_received s) = lg + lost + tally unlogged s" "size lost \<le> k + tally failing s"
    using a(1) by (simp_all add: accounts_def)
  have "tally busy s = 0 \<longrightarrow> mset (pr_received s) = lg + lost \<and> size lost \<le> k"
  proof
    assume "tally busy s = 0"
    from idle [OF this] have z: "tally failing s = 0" "tally unlogged s = {#}" by blast+
    show "mset (pr_received s) = lg + lost \<and> size lost \<le> k" using rest(3,4) unfolding z by simp
  qed
  with fifo rest j show ?thesis
    by (intro conjI exI [of _ j] exI [of _ k] exI [of _ lg] exI [of _ lost])
qed

definition ex_run :: "pool_event list" where
  "ex_run = [Take 1, Offer (ex_queued\<lparr>sig_ID := ''s2''\<rparr>), Write 1 Count_job, Take 0, Write 0 Mongo_job, Write 1 Mongo_job,
     Write 0 Series_job, Write 1 Series_job, Finish 1, Stop 1, Write 0 Count_job, Finish 0]"

definition ex_pool_run :: "ref_o pool_run option" where
  "ex_pool_run = pool_moves ref_env ex_run (pool_Start (queue_New 10\<lparr>q_ch := [ex_queued]\<rparr>) (pool_New 2) (ex_world StateOpen [] []))"

theorem pool_accounts_witness:
  "\<exists>s. ex_pool_run = Some s \<and> map sig_ID (pr_received s) = [''s1'', ''s2''] \<and>
     (\<exists>lg lost. mset (pr_received s) = lg + lost \<and> size lost = 0 \<and> size (w_mongo (pr_world s)) = size lg)"
proof -
  have c: "(case ex_pool_run of None \<Rightarrow> False | Some s \<Rightarrow> map sig_ID (pr_received s) = [''s1'', ''s2''] \<and> tally busy s = 0 \<and>
      p_errors (pr_pool s) = 0 \<and> p_processed (pr_pool s) = 2)" by code_simp
  then obtain s where s: "ex_pool_run = Some s" "map sig_ID (pr_received s) = [''s1'', ''s2'']" "tally busy s = 0"
      "p_errors (pr_pool s) = 0" "p_processed (pr_pool s) = 2"
    by (auto simp only: split: option.splits)
  have life: "lifecycle_ok (w_pg (ex_world StateOpen [] []))" and docs: "w_mongo (ex_world StateOpen [] []) = []" by code_simp+
  from s(2) have len: "length (pr_received s) = 2" by (metis length_map length_Cons list.size(3) numeral_2_eq_2)
  from pool_accounts [OF ref.backend_axioms life s(1) [unfolded ex_pool_run_def]] s(3,4) docs
  obtain j k lg lost where a: "of_nat k = (0 :: int64)" "mset (w_mongo (pr_world s)) = image_mset (x_bson ref_env) lg"
      "j + k = length (pr_received s)" "mset (pr_received s) = lg + lost" "size lost \<le> k"
    by (auto simp: pool_New_def)
  from a(1,3) len have "k = 0" using dvd_imp_le [of "2 ^ 64" k] by (cases "k = 0") (auto simp: word_of_nat_eq_0_iff)
  moreover have "size (w_mongo (pr_world s)) = size lg" using arg_cong [OF a(2), of size] by simp
  ultimately show ?thesis using s a by auto
qed



end
