(* ===== verification/Program.thy ===== *)
theory Program
  imports System PoolRun
begin

text \<open>
  \<open>main\<close> of \<open>cmd/server/main.go\<close>: connecting, migrating, assembling, serving, and the two ways to end.
  \<open>log.Fatal\<close> ends the process at once, so the deferred \<open>stores.Close\<close> does not run then.
\<close>

record 'o os =
  os_env :: "string \<Rightarrow> string"
  os_Now :: "'o \<Rightarrow> go_time \<times> 'o"
  os_ReadFile :: "string \<Rightarrow> go_error + string"
  os_pg_Exec :: "string \<Rightarrow> 'o driver_call"
  os_drivers :: "'o drivers"

datatype main_start = Start_fatal string go_error | Serving app string

definition main_begin :: "'o os \<Rightarrow> 'o host \<Rightarrow> main_start \<times> 'o host" where
  "main_begin S s =
     (case InitAll (os_drivers S) (ConfigFromEnv (os_env S)) s of
        (Some e, s1) \<Rightarrow> (Start_fatal ''failed to initialise stores'' e, s1)
      | (None, s1) \<Rightarrow>
          (case runMigrations (os_ReadFile S) (os_pg_Exec S) s1 of
             (Some e, s2) \<Rightarrow> (Start_fatal ''failed to run migrations'' e, s2)
           | (None, s2) \<Rightarrow>
               let port = os_env S ''PORT'';
                   port = (if port = [] then ''8080'' else port)
               in case os_Now S (ho_env s2) of (now, v) \<Rightarrow>
                    (Serving (main_app (os_env S) now) port, s2\<lparr>ho_env := v\<rparr>)))"

datatype main_event = Context_done | Server_error go_error

datatype main_exit = Exit_fatal string go_error | Exit_normal

text \<open>
  After the \<open>select\<close>. \<open>Shutdown\<close> of the server and \<open>Wait\<close> of the pool (\<open>PoolRun\<close>) come before the deferred
  \<open>Close\<close>; an error of the former is logged only.
\<close>

definition main_finish :: "'o os \<Rightarrow> main_event \<Rightarrow> 'o host \<Rightarrow> main_exit \<times> 'o host" where
  "main_finish S ev s =
     (case ev of
        Context_done \<Rightarrow> (Exit_normal, Stores_Close (os_drivers S) s)
      | Server_error e \<Rightarrow> (Exit_fatal ''server error'' e, s))"

subsection \<open>Configured sizes\<close>

definition configured :: "(string \<Rightarrow> string) \<Rightarrow> string \<Rightarrow> int \<Rightarrow> int" where
  "configured env key fallback =
     (let v = env key; n = sint (of_nat (digits_val 0 v) :: int64)
      in if v \<noteq> [] \<and> list_all is_digit v \<and> 0 < n then n else fallback)"

lemma envInt_configured:
  assumes "0 < sint d"
  shows "(if sint (envInt env key d) \<le> 0 then sint d else sint (envInt env key d)) = configured env key (sint d)"
  using assms parse_loop_digits [of "env key" "env key" 0] parse_loop_error [of "env key" "env key" 0]
  by (cases "list_all is_digit (env key)") (auto simp: envInt_def configured_def parseIntFast_def Let_def)

lemma main_app_sizes:
  "Cap (app_queue (main_app env t)) = configured env ''QUEUE_CAPACITY'' 50000"
  "p_workers (ap_pool (main_app env t)) = configured env ''WORKER_COUNT'' 20"
  using queue_New_cap [OF sint_int64_less, of "envInt env ''QUEUE_CAPACITY'' 50000"]
    envInt_configured [of 50000 env "''QUEUE_CAPACITY''"] envInt_configured [of 20 env "''WORKER_COUNT''"]
  by (auto simp: main_app_def Let_def NewHandler_def pool_New_def DefaultWorkerCount_def split: if_splits)

subsection \<open>Waits\<close>

abbreviation slept :: "'o host \<Rightarrow> duration" where
  "slept s \<equiv> sum_list (ho_slept s)"

lemma waits_le: "n \<le> 6 \<Longrightarrow> sum_list (waits n) \<le> 62 * second \<and> (n \<le> 5 \<longrightarrow> sum_list (waits n) \<le> 30 * second)"
proof -
  have "n \<in> {0, 1, 2, 3, 4, 5, 6}" if "n \<le> 6" using that by auto
  then show "n \<le> 6 \<Longrightarrow> ?thesis" by (auto simp: waits_def backoff_def second_def upt_rec [of _ "Suc _"] upt_rec)
qed

lemma connect_loop_slept:
  assumes "connect_loop opn ping 1 None s = (r, s')"
  shows "slept s' \<le> slept s + 62 * second \<and> (isl r \<or> slept s' \<le> slept s + 30 * second)"
proof -
  have "(case r of Inl _ \<Rightarrow> ho_slept s' = ho_slept s @ waits 6 | Inr _ \<Rightarrow> \<exists>n \<le> 5. ho_slept s' = ho_slept s @ waits n)"
    using connect_loop_waits [OF assms, of 5 "ho_slept s"] by (simp add: waits_def)
  then show ?thesis using waits_le by (cases r) (fastforce simp: second_def)+
qed

lemma on_env_slept: "on_env f s = (r, s') \<Longrightarrow> ho_slept s' = ho_slept s"
  by (auto simp: on_env_def split: prod.splits)

lemma store_slept:
  "NewPostgresStore pc opn ping dsn s = (r, s') \<Longrightarrow>
     slept s' \<le> slept s + 62 * second \<and> (r = None \<longrightarrow> slept s' \<le> slept s + 30 * second)"
  "NewMongoStore opn ping ix s = (r, s') \<Longrightarrow>
     slept s' \<le> slept s + 62 * second \<and> (r = None \<longrightarrow> slept s' \<le> slept s + 30 * second)"
  "NewRedisStore ping s = (r, s') \<Longrightarrow>
     slept s' \<le> slept s + 62 * second \<and> (r = None \<longrightarrow> slept s' \<le> slept s + 30 * second)"
  by (auto simp: NewPostgresStore_def NewMongoStore_def NewRedisStore_def ensureIndexes_def second_def
      split: option.splits prod.splits sum.splits dest!: connect_loop_slept on_env_slept simp del: One_nat_def)

lemma InitAll_slept:
  assumes "InitAll D cfg s = (r, s')"
  shows "slept s' \<le> slept s + 122 * second \<and> (r = None \<longrightarrow> slept s' \<le> slept s + 90 * second)"
proof -
  obtain r1 s1 where p: "NewPostgresStore (d_pg_parse D) (d_pg_open D) (d_pg_ping D) (cfg_PostgresDSN cfg) s = (r1, s1)"
    by fastforce
  obtain r2 s2 where m: "NewMongoStore (d_mongo_connect D) (d_mongo_ping D) (d_mongo_createMany D) s1 = (r2, s2)" by fastforce
  obtain r3 s3 where d: "NewRedisStore (d_redis_ping D) s2 = (r3, s3)" by fastforce
  from assms p m d have "(r1 \<noteq> None \<and> r \<noteq> None \<and> s' = s1) \<or> (r1 = None \<and> r2 \<noteq> None \<and> r \<noteq> None \<and> s' = s2) \<or>
      (r1 = None \<and> r2 = None \<and> s' = s3 \<and> (r = None \<longleftrightarrow> r3 = None))"
    by (auto simp: InitAll_def split: option.splits)
  with store_slept(1) [OF p] store_slept(2) [OF m] store_slept(3) [OF d] show ?thesis by (auto simp: second_def)
qed

subsection \<open>Properties\<close>


definition ex_os :: "nat os" where
  "ex_os = \<lparr>os_env = (\<lambda>k. if k = ''QUEUE_CAPACITY'' then ''8'' else if k = ''WORKER_COUNT'' then ''many'' else []),
     os_Now = (\<lambda>v. (0, v)), os_ReadFile = (\<lambda>f. if f = ''migrations/001_init_schema.sql'' then Inr ''CREATE TABLE'' else Inl ErrNoRows),
     os_pg_Exec = (\<lambda>q v. (Some ErrNoRows, v)),
     os_drivers = \<lparr>d_pg_parse = (\<lambda>_. None), d_pg_open = (\<lambda>v. (None, v)), d_pg_ping = (\<lambda>v. (if v = 0 then None else Some ErrNoRows, v - 1)),
       d_mongo_connect = (\<lambda>v. (None, v)), d_mongo_ping = (\<lambda>v. (None, v)), d_mongo_createMany = (\<lambda>ix v. (None, v)),
       d_redis_ping = (\<lambda>v. (None, v)), d_pg_close = (\<lambda>v. (None, v)), d_mongo_disconnect = (\<lambda>v. (None, v)),
       d_redis_close = (\<lambda>v. (None, v))\<rparr>\<rparr>"


end
