(* ===== verification/Monitoring.thy ===== *)
theory Monitoring
  imports Program
begin

text \<open>
  What the two monitoring endpoints tell about the assembled system. \<open>GET /health\<close> reads the queue and the
  pool, \<open>GET /metrics\<close> the gauges. The steps of \<open>System\<close> keep the sizes and the time of the start, and
  keep the counters of the queue and of the pool in balance.
\<close>

subsection \<open>What a step keeps of the queue\<close>

definition queue_balance :: "SignalQueue \<Rightarrow> int64 \<times> int64" where
  "queue_balance q = (q_capacity q, q_enqueued q - of_nat (length (q_ch q)))"

lemma TryEnqueue_balance: "TryEnqueue s q = (ok, q') \<Longrightarrow> queue_balance q' = queue_balance q"
  by (auto simp: TryEnqueue_def queue_balance_def split: if_splits)

context backend
begin

lemma ingest_valid_balance:
  assumes "ingest_valid E hs req h w = (r, h', w')"
  shows "queue_balance (h_queue h') = queue_balance (h_queue h)"
  using assms by (cases rule: ingest_valid_cases) (auto dest: TryEnqueue_balance)

lemma batch_one_balance:
  assumes "batch_one E req h w = (r, h', w')"
  shows "queue_balance (h_queue h') = queue_balance (h_queue h)"
  using assms by (cases rule: batch_one_cases) (auto dest: TryEnqueue_balance)

lemma batch_loop_balance:
  "batch_loop E reqs rs h w = (rs', h', w') \<Longrightarrow> queue_balance (h_queue h') = queue_balance (h_queue h)"
proof (induction reqs arbitrary: rs h w)
  case (Cons req reqs)
  obtain r h1 w1 where b: "batch_one E req h w = (r, h1, w1)" by (metis surj_pair)
  with Cons.prems have "batch_loop E reqs (rs @ [r]) h1 w1 = (rs', h', w')" by simp
  from Cons.IH [OF this] batch_one_balance [OF b] show ?case by simp
qed simp

lemma IngestSignal_balance:
  assumes "IngestSignal E ip p h w = (r, h', w')"
  shows "queue_balance (h_queue h') = queue_balance (h_queue h)"
  using assms by (auto simp: IngestSignal_def Let_def split: prod.splits sum.splits if_splits option.splits
      dest!: ingest_valid_balance)

lemma IngestBatch_balance:
  assumes "IngestBatch E ip p h w = (r, h', w')"
  shows "queue_balance (h_queue h') = queue_balance (h_queue h)"
  using assms by (auto simp: IngestBatch_def Let_def split: prod.splits sum.splits if_splits
      dest!: batch_loop_balance)

end

subsection \<open>What a step keeps of the server\<close>

definition unaccounted :: "app \<Rightarrow> int64" where
  "unaccounted a = snd (queue_balance (app_queue a)) - (p_processed (ap_pool a) + p_errors (ap_pool a))"

definition fixed_parts :: "app \<Rightarrow> int64 \<times> int \<times> HealthHandler \<times> float64 \<times> float64 \<times> int64" where
  "fixed_parts a = (q_capacity (app_queue a), p_workers (ap_pool a), ap_health a,
     g_SignalsIngested (ap_gauges a), g_SignalsDropped (ap_gauges a), unaccounted a)"

lemmas fixed_defs = fixed_parts_def unaccounted_def queue_balance_def

lemma collect_counters:
  "collect E q h g w = (g', w') \<Longrightarrow>
     g_SignalsIngested g' = g_SignalsIngested g \<and> g_SignalsDropped g' = g_SignalsDropped g"
  by (auto simp: collect_def Let_def split: prod.splits if_splits)

lemma run_task_fixed: "run_task E t a w = (a', w') \<Longrightarrow> fixed_parts a' = fixed_parts a"
  by (auto simp: run_task_def fixed_defs split: task.splits prod.splits)

lemma work_fixed:
  assumes "Consume (app_queue a) = Some (s, q)" and "processSignal E order s (ap_pool a) w = (p, w')"
  shows "fixed_parts (a\<lparr>ap_handler := (ap_handler a)\<lparr>h_queue := q\<rparr>, ap_pool := p\<rparr>) = fixed_parts a"
proof -
  have q: "q_ch (app_queue a) = s # q_ch q" "q_capacity q = q_capacity (app_queue a)"
      "q_enqueued q = q_enqueued (app_queue a)"
    using assms(1) by (auto simp: Consume_def split: list.splits)
  with processSignal_counters [OF assms(2)] show ?thesis by (simp add: fixed_defs)
qed

context backend
begin

lemma route_fixed:
  assumes "route E A req a w = (ans, a', w')"
  shows "fixed_parts a' = fixed_parts a"
  using assms
  by (cases req) (auto simp: fixed_defs add_tasks_def split: prod.splits
      dest!: IngestSignal_balance IngestBatch_balance)

lemma step_fixed:
  assumes "sys_step E A x y"
  shows "fixed_parts (fst y) = fixed_parts (fst x)"
  using assms
proof cases
  case (request now token req a w ans a' w')
  then show ?thesis by (auto simp: serve_def split: if_splits sum.splits dest: route_fixed)
next
  case (work a s q order w p w')
  with work_fixed [OF work(3,5)] show ?thesis by simp
next
  case (task a pre t post w a' w')
  from run_task_fixed [OF task(4)] task show ?thesis by (simp add: fixed_defs)
next
  case (collect_metrics a w g w')
  from collect_counters [OF collect_metrics(3)] collect_metrics show ?thesis by (simp add: fixed_defs)
qed (simp_all add: fixed_defs)

lemma reach_fixed:
  "sys_reach E A env x \<Longrightarrow> \<exists>started. fixed_parts (fst x) = fixed_parts (main_app env started)"
  by (induction rule: sys_reach.induct) (auto simp: step_fixed)

end

lemma start_fixed: "unaccounted (main_app env started) = 0"
  "g_SignalsIngested (ap_gauges (main_app env started)) = 0" "g_SignalsDropped (ap_gauges (main_app env started)) = 0"
  by (simp_all add: main_app_def Let_def fixed_defs NewHandler_def queue_New_def pool_New_def zero_gauges_def)

lemma fill_pct_range:
  assumes "Len q \<le> Cap q"
  shows "0 \<le> FillRatio q * 100 \<and> FillRatio q * 100 \<le> 100"
proof (cases "Cap q = 0")
  case False
  have "(of_int (Len q) :: float64) \<le> of_int (Cap q)" using assms by (simp only: of_int_le_iff)
  moreover have "0 < (of_int (Cap q) :: float64)" using assms False by (simp add: Len_def)
  ultimately have "0 \<le> (of_int (Len q) / of_int (Cap q) :: float64) \<and> (of_int (Len q) / of_int (Cap q) :: float64) \<le> 1"
    by (simp add: Len_def divide_simps)
  moreover have "FillRatio q = of_int (Len q) / of_int (Cap q)" by (simp add: FillRatio_def Len_def Cap_def)
  ultimately have "0 \<le> FillRatio q \<and> FillRatio q \<le> 1" by (simp only:)
  then show ?thesis by linarith
qed (simp add: FillRatio_def Cap_def)

subsection \<open>Example\<close>

text \<open>A queue with room for one signal, and a batch of two signals posted.\<close>

definition small_env :: "string \<Rightarrow> string" where
  "small_env = (\<lambda>k. if k = ''QUEUE_CAPACITY'' then ''1'' else [])"

definition ex_full :: "answer \<times> app \<times> ref_o world" where
  "ex_full = serve ref_env ref_auth 0 ex_token (Post_signals_batch ''ip'' (Inr [ex_request, ex_request]))
     (main_app small_env 0) (ref_world 5 [])"

definition ex_probe :: probe where
  "ex_probe = \<lparr>pr_pg = None, pr_redis = Some ErrNoRows, pr_Alloc = 5242880, pr_Sys = 10485760, pr_NumGoroutine = 42\<rparr>"

lemma ex_full_reach: "sys_reach ref_env ref_auth small_env (snd ex_full)"
proof -
  have start: "sys_reach ref_env ref_auth small_env (main_app small_env 0, ref_world 5 [])"
    by (rule sys_reach.start) (simp_all add: ref_world_def)
  obtain ans a w where p: "ex_full = (ans, a, w)" by (metis surj_pair)
  then have "sys_step ref_env ref_auth (main_app small_env 0, ref_world 5 []) (a, w)"
    unfolding ex_full_def by (rule sys_step.request)
  from sys_reach.step [OF start this] show ?thesis by (simp only: p snd_conv)
qed

lemma ex_full_counts:
  "q_enqueued (app_queue (fst (snd ex_full))) = 1" "q_dropped (app_queue (fst (snd ex_full))) = 1"
  by code_simp+

subsection \<open>Properties\<close>



text \<open>
  Two metrics are dead. In every reachable state \<open>GET /metrics\<close> reports 0 signals ingested and 0 signals
  dropped, whatever was posted: no code increments the two counters.
\<close>

theorem metrics_never_count:
  assumes "backend E" and "sys_reach E A env (a, w)"
  shows "\<exists>g. serve E A now token Get_metrics a w = (Metrics_answer g, a, w) \<and>
    g_SignalsIngested g = 0 \<and> g_SignalsDropped g = 0"
proof -
  obtain started where f: "fixed_parts a = fixed_parts (main_app env started)"
    using backend.reach_fixed [OF assms] by auto
  then show ?thesis using start_fixed [of env started] by (simp add: serve_def fixed_parts_def)
qed

theorem metrics_never_count_witness:
  "q_dropped (app_queue (fst (snd ex_full))) = 1 \<and>
   (\<exists>g. fst (serve ref_env ref_auth 0 [] Get_metrics (fst (snd ex_full)) (snd (snd ex_full))) = Metrics_answer g \<and>
      g_SignalsDropped g = 0)"
proof
  show "q_dropped (app_queue (fst (snd ex_full))) = 1" by (rule ex_full_counts)
  have "sys_reach ref_env ref_auth small_env (fst (snd ex_full), snd (snd ex_full))" using ex_full_reach by simp
  from metrics_never_count [OF ref.backend_axioms this]
  show "\<exists>g. fst (serve ref_env ref_auth 0 [] Get_metrics (fst (snd ex_full)) (snd (snd ex_full))) = Metrics_answer g \<and>
      g_SignalsDropped g = 0"
    by (metis fst_conv)
qed

end
