(* ===== verification/WorkflowRace.thy ===== *)
theory WorkflowRace
  imports Concurrency
begin

text \<open>
  Overlapping transitions and RCA submissions, of any work items, while the rest of the program writes
  too. \<open>Machine.SubmitRCA\<close> is split at its calls to the store like \<open>Transition\<close> in \<open>Concurrency\<close>; a
  schedule also holds statements of the other components (new work items, escalations, signal counts and
  the time series). The full life-cycle invariant does not survive this (see \<open>Concurrency\<close>); the rule that
  a closed item has a complete RCA does, and so does that an item has at most one.
\<close>

subsection \<open>\<open>SubmitRCA\<close> step by step\<close>

datatype submit_pc = S_item | S_existing | S_insert | S_finished "go_error option \<times> RCA"

primrec submit_step :: "'o ext \<Rightarrow> RCA \<Rightarrow> submit_pc \<Rightarrow> 'o world \<Rightarrow> submit_pc \<times> 'o world" where
  "submit_step E rca S_item w =
     (case Validate rca of
        Some e \<Rightarrow> (S_finished (Some e, rca), w)
      | None \<Rightarrow>
          (case GetWorkItem E (rca_WorkItemID rca) w of
             (Inl e, w1) \<Rightarrow> (S_finished (Some e, rca), w1)
           | (Inr wi, w1) \<Rightarrow>
               if wi_State wi = StateOpen \<or> wi_State wi = StateClosed
               then (S_finished (Some (NewError (''workflow: RCA can only be submitted when state is INVESTIGATING or RESOLVED, current state: '' @ wi_State wi)), rca), w1)
               else (S_existing, w1)))"
| "submit_step E rca S_existing w =
     (case GetRCAByWorkItemID E (rca_WorkItemID rca) w of
        ((existing, Some e), w1) \<Rightarrow> (S_finished (Some (Wrapped ''workflow: check existing RCA: '' e []), rca), w1)
      | ((Some existing, None), w1) \<Rightarrow>
          (S_finished (Some (NewError (''workflow: RCA already submitted for work item '' @ rca_WorkItemID rca)), rca), w1)
      | ((None, None), w1) \<Rightarrow> (S_insert, w1))"
| "submit_step E rca S_insert w =
     (case time_Now E w of (now, w1) \<Rightarrow>
      let rca = rca\<lparr>rca_SubmittedAt := now\<rparr>
      in case CreateRCA E rca w1 of
           (Some e, w2) \<Rightarrow> (S_finished (Some (Wrapped ''workflow: persist RCA: '' e []), rca), w2)
         | (None, w2) \<Rightarrow> (S_finished (None, rca), w2))"
| "submit_step E rca (S_finished r) w = (S_finished r, w)"

fun submit_steps :: "'o ext \<Rightarrow> RCA \<Rightarrow> nat \<Rightarrow> submit_pc \<times> 'o world \<Rightarrow> submit_pc \<times> 'o world" where
  "submit_steps E rca 0 c = c"
| "submit_steps E rca (Suc n) (pc, w) = submit_steps E rca n (submit_step E rca pc w)"

lemma submit_steps_finished [simp]: "submit_steps E rca n (S_finished r, w) = (S_finished r, w)"
  by (induction n) auto

text \<open>Run alone, three steps are the function of the source.\<close>

lemma submit_refines:
  assumes "SubmitRCA E rca w = (r, w')"
  shows "submit_steps E rca 3 (S_item, w) = (S_finished r, w')"
proof -
  have three: "3 = Suc (Suc (Suc 0))" by simp
  show ?thesis
    using assms unfolding three
    by (auto simp: SubmitRCA_def Let_def split: prod.splits sum.splits option.splits if_splits)
qed

subsection \<open>Requests that overlap\<close>

datatype wf_request = Move string WorkItemState | Submit RCA

datatype wf_pc = Moving transition_pc | Submitting submit_pc

primrec wf_begin :: "wf_request \<Rightarrow> wf_pc" where
  "wf_begin (Move i st) = Moving T_read"
| "wf_begin (Submit rca) = Submitting S_item"

fun wf_step :: "'o ext \<Rightarrow> wf_request \<Rightarrow> wf_pc \<Rightarrow> 'o world \<Rightarrow> wf_pc \<times> 'o world" where
  "wf_step E (Move i st) (Moving pc) w = (case transition_step E i st pc w of (pc1, w1) \<Rightarrow> (Moving pc1, w1))"
| "wf_step E (Submit rca) (Submitting pc) w = (case submit_step E rca pc w of (pc1, w1) \<Rightarrow> (Submitting pc1, w1))"
| "wf_step E _ pc w = (pc, w)"

text \<open>The statements of the other components.\<close>

primrec other_stmt :: "pg_stmt \<Rightarrow> bool" where
  "other_stmt (INSERT_work_item wi) = (wi_State wi = StateOpen)"
| "other_stmt (UPDATE_resolved st t u i) = False"
| "other_stmt (UPDATE_closed st t u m i) = False"
| "other_stmt (UPDATE_state st t i) = False"
| "other_stmt (UPDATE_severity sv t i) = True"
| "other_stmt (UPDATE_signal_count t i) = True"
| "other_stmt (INSERT_rca c) = False"
| "other_stmt (UPSERT_timeseries b c ct sv) = True"

datatype wf_event = Step nat | Other pg_stmt

fun wf_move :: "'o ext \<Rightarrow> wf_request list \<Rightarrow> wf_event \<Rightarrow> wf_pc list \<times> 'o world \<Rightarrow> wf_pc list \<times> 'o world" where
  "wf_move E reqs (Step k) (pcs, w) =
     (if k < length reqs \<and> k < length pcs
      then (case wf_step E (reqs ! k) (pcs ! k) w of (pc, w1) \<Rightarrow> (pcs[k := pc], w1))
      else (pcs, w))"
| "wf_move E reqs (Other s) (pcs, w) =
     (if other_stmt s
      then (case apply_stmt s (w_pg w) of None \<Rightarrow> (pcs, w) | Some db \<Rightarrow> (pcs, w\<lparr>w_pg := db\<rparr>))
      else (pcs, w))"

fun wf_run :: "'o ext \<Rightarrow> wf_request list \<Rightarrow> wf_event list \<Rightarrow> wf_pc list \<times> 'o world \<Rightarrow> wf_pc list \<times> 'o world" where
  "wf_run E reqs [] c = c"
| "wf_run E reqs (ev # evs) c = wf_run E reqs evs (wf_move E reqs ev c)"

definition wf_start :: "wf_request list \<Rightarrow> 'o world \<Rightarrow> wf_pc list \<times> 'o world" where
  "wf_start reqs w = (map wf_begin reqs, w)"

subsection \<open>What survives\<close>

definition closing_ok :: "RCA list \<Rightarrow> WorkItem \<Rightarrow> bool" where
  "closing_ok rcas r \<longleftrightarrow> wi_State r = StateClosed \<longrightarrow> wi_ClosedAt r \<noteq> None \<and>
     (case row_with rca_WorkItemID (wi_ID r) rcas of
        None \<Rightarrow> False | Some c \<Rightarrow> complete_rca c \<and> wi_MTTR r = Some (MTTRMinutes c))"

definition closed_ok :: "pg_db \<Rightarrow> bool" where
  "closed_ok db \<longleftrightarrow> schema_ok db \<and> list_all (closing_ok (t_rcas db)) (t_work_items db)"

definition rcas_kept :: "pg_db \<Rightarrow> pg_db \<Rightarrow> bool" where
  "rcas_kept db db' \<longleftrightarrow> (\<forall>i c. row_with rca_WorkItemID i (t_rcas db) = Some c \<longrightarrow> row_with rca_WorkItemID i (t_rcas db') = Some c)"

lemma rcas_kept_refl [simp]: "rcas_kept db db"
  by (simp add: rcas_kept_def)

lemma rcas_kept_trans: "rcas_kept a b \<Longrightarrow> rcas_kept b c \<Longrightarrow> rcas_kept a c"
  by (simp add: rcas_kept_def)

lemma lifecycle_closed: "lifecycle_ok db \<Longrightarrow> closed_ok db"
  by (auto simp: lifecycle_ok_def closed_ok_def item_ok_def closing_ok_def list_all_iff split: option.splits)

lemma rcas_kept_run: "rcas_kept db (run_stmt s db)"
  by (cases s) (auto simp: rcas_kept_def row_with_append Let_def)

lemma closing_ok_more: "closing_ok rcas r \<Longrightarrow> closing_ok (rcas @ [c]) r"
  by (auto simp: closing_ok_def row_with_append split: option.splits)

lemma closed_ok_update:
  assumes "closed_ok db" and "schema_ok (on_work_item i f db)"
    and "\<And>r. wi_ID r = i \<Longrightarrow> closing_ok (t_rcas db) r \<Longrightarrow> closing_ok (t_rcas db) (f r)"
  shows "closed_ok (on_work_item i f db)"
  using assms by (auto simp: closed_ok_def intro: on_work_item_items_ok)

lemma closed_ok_other:
  assumes "closed_ok db" and "other_stmt s" and "apply_stmt s db = Some db'"
  shows "closed_ok db'"
proof -
  from assms(3) have db': "db' = run_stmt s db" "schema_ok (run_stmt s db)" by (auto simp: apply_stmt_Some_iff)
  show ?thesis
  proof (cases s)
    case (INSERT_work_item wi)
    with assms db' show ?thesis by (auto simp: closed_ok_def closing_ok_def inserted_work_item_def)
  next
    case (UPDATE_severity sv t i)
    with assms db' show ?thesis by (auto intro!: closed_ok_update simp: closing_ok_def split: option.splits)
  next
    case (UPDATE_signal_count t i)
    with assms db' show ?thesis by (auto intro!: closed_ok_update simp: closing_ok_def split: option.splits)
  next
    case (UPSERT_timeseries b c ct sv)
    with assms db' show ?thesis by (auto simp: closed_ok_def Let_def split: if_splits)
  qed (use assms(2) in auto)
qed

lemma closed_ok_rca: "closed_ok db \<Longrightarrow> apply_stmt (INSERT_rca c) db = Some db' \<Longrightarrow> closed_ok db'"
  by (auto simp: apply_stmt_Some_iff closed_ok_def list_all_iff closing_ok_more)

text \<open>What an update of the state relies on: the time to repair is the one of the RCA on file.\<close>

definition mttr_ok :: "pg_db \<Rightarrow> string \<Rightarrow> WorkItemState \<Rightarrow> float64 option \<Rightarrow> bool" where
  "mttr_ok db i st mttr \<longleftrightarrow> st = StateClosed \<longrightarrow>
     (\<exists>c. row_with rca_WorkItemID i (t_rcas db) = Some c \<and> complete_rca c \<and> mttr = Some (MTTRMinutes c))"

lemma mttr_ok_kept: "mttr_ok db i st m \<Longrightarrow> rcas_kept db db' \<Longrightarrow> mttr_ok db' i st m"
  by (auto simp: mttr_ok_def rcas_kept_def)

lemma closed_ok_state:
  assumes "closed_ok db" and "mttr_ok db i st mttr" and "schema_ok (run_stmt (state_stmt st mttr i t) db)"
  shows "closed_ok (run_stmt (state_stmt st mttr i t) db)"
  using assms by (auto simp: state_stmt_def closing_ok_def mttr_ok_def intro!: closed_ok_update split: if_splits)

subsection \<open>One step\<close>

text \<open>What a request at a program point may rely on, and what a finished submission has achieved.\<close>

fun wf_pc_ok :: "pg_db \<Rightarrow> wf_request \<Rightarrow> wf_pc \<Rightarrow> bool" where
  "wf_pc_ok db (Move i st) (Moving (T_update mttr)) = mttr_ok db i st mttr"
| "wf_pc_ok db (Submit rca) (Submitting (S_finished (None, rca'))) =
     (rca_WorkItemID rca' = rca_WorkItemID rca \<and>
      row_with rca_WorkItemID (rca_WorkItemID rca) (t_rcas db) = Some (inserted_rca rca'))"
| "wf_pc_ok db _ _ = True"

lemma wf_pc_ok_kept: "wf_pc_ok db req pc \<Longrightarrow> rcas_kept db db' \<Longrightarrow> wf_pc_ok db' req pc"
  by (cases "(db, req, pc)" rule: wf_pc_ok.cases) (auto simp: mttr_ok_kept rcas_kept_def)

text \<open>The item for which a request has submitted an RCA with success.\<close>

fun submitted :: "wf_request \<Rightarrow> wf_pc \<Rightarrow> string option" where
  "submitted (Submit rca) (Submitting (S_finished (None, rca'))) = Some (rca_WorkItemID rca)"
| "submitted _ _ = None"

lemma inserted_rca_item [simp]: "rca_WorkItemID (inserted_rca c) = rca_WorkItemID c"
  by (simp add: inserted_rca_def)

lemma fresh_rca:
  assumes "schema_ok (run_stmt (INSERT_rca c) db)"
  shows "row_with rca_WorkItemID (rca_WorkItemID c) (t_rcas db) = None"
    "row_with rca_WorkItemID (rca_WorkItemID c) (t_rcas (run_stmt (INSERT_rca c) db)) = Some (inserted_rca c)"
proof -
  show 1: "row_with rca_WorkItemID (rca_WorkItemID c) (t_rcas db) = None"
    using assms by (auto simp: schema_ok_def row_with_None_iff)
  then show "row_with rca_WorkItemID (rca_WorkItemID c) (t_rcas (run_stmt (INSERT_rca c) db)) = Some (inserted_rca c)"
    by (simp add: row_with_append)
qed

context postgres_service
begin

lemma GetWorkItem_pg: "GetWorkItem E i w = (r, w') \<Longrightarrow> w_pg w' = w_pg w"
  using GetWorkItem_ok [of i w] GetWorkItem_err [of i w] by (cases r) (auto simp: same_stores_def)

lemma transition_step_closed:
  assumes "transition_step E i st pc w = (pc', w')" and "closed_ok (w_pg w)" and "wf_pc_ok (w_pg w) (Move i st) (Moving pc)"
  shows "closed_ok (w_pg w') \<and> rcas_kept (w_pg w) (w_pg w') \<and> wf_pc_ok (w_pg w') (Move i st) (Moving pc')"
proof (cases pc)
  case T_read
  obtain r w1 where g: "GetWorkItem E i w = (r, w1)" by fastforce
  with T_read assms(1) have "w' = w1" "\<And>m. pc' \<noteq> T_update m"
    by (auto split: sum.splits outcome.splits if_splits)
  with GetWorkItem_pg [OF g] assms(2) show ?thesis by (cases pc') auto
next
  case T_precondition
  obtain p w1 where p: "close_precondition E i st w = (p, w1)" by fastforce
  have "same_stores w w1" by (rule close_precondition_frame [OF p])
  moreover have "mttr_ok (w_pg w1) i st m" if "p = Inr m" for m
    using close_precondition_ok [OF p [unfolded that]] by (auto simp: mttr_ok_def same_stores_def)
  ultimately show ?thesis using T_precondition assms p by (auto simp: same_stores_def split: sum.splits)
next
  case (T_update mttr)
  obtain r w1 where u: "UpdateWorkItemState E i st mttr w = (r, w1)" by fastforce
  have m: "mttr_ok (w_pg w) i st mttr" using assms(3) T_update by simp
  from UpdateState_any [OF u] consider "w_pg w1 = w_pg w"
    | t where "w_pg w1 = run_stmt (state_stmt st mttr i t) (w_pg w)" "schema_ok (w_pg w1)" by blast
  then have "closed_ok (w_pg w1) \<and> rcas_kept (w_pg w) (w_pg w1)"
  proof cases
    case (2 t)
    with closed_ok_state [OF assms(2) m, of t] show ?thesis by (simp add: rcas_kept_run)
  qed (simp add: assms(2))
  with T_update assms(1) u show ?thesis by (auto split: option.splits)
next
  case T_invalidate
  then show ?thesis using assms by (auto split: prod.splits dest!: InvalidateDashboard_frame)
next
  case T_reread
  obtain r w1 where g: "GetWorkItem E i w = (r, w1)" by fastforce
  with T_reread assms(1) have "w' = w1" "\<And>m. pc' \<noteq> T_update m" by (auto split: sum.splits)
  with GetWorkItem_pg [OF g] assms(2) show ?thesis by (cases pc') auto
qed (use assms in auto)

lemma submit_step_closed:
  assumes "submit_step E rca pc w = (pc', w')" and "closed_ok (w_pg w)" and "wf_pc_ok (w_pg w) (Submit rca) (Submitting pc)"
  shows "closed_ok (w_pg w') \<and> rcas_kept (w_pg w) (w_pg w') \<and> wf_pc_ok (w_pg w') (Submit rca) (Submitting pc') \<and>
    (submitted (Submit rca) (Submitting pc') \<noteq> None \<and> submitted (Submit rca) (Submitting pc) = None \<longrightarrow>
       row_with rca_WorkItemID (rca_WorkItemID rca) (t_rcas (w_pg w)) = None)"
proof (cases pc)
  case S_item
  obtain r w1 where g: "GetWorkItem E (rca_WorkItemID rca) w = (r, w1)" by fastforce
  with S_item assms(1) have "w' = w \<or> w' = w1" "pc' = S_existing \<or> (\<exists>e. pc' = S_finished (Some e, rca))"
    by (auto split: option.splits sum.splits if_splits)
  with GetWorkItem_pg [OF g] assms(2) show ?thesis by auto
next
  case S_existing
  then show ?thesis using assms
    by (auto simp: same_stores_def split: prod.splits option.splits dest!: GetRCA_frame)
next
  case S_insert
  obtain now w1 where n: "time_Now E w = (now, w1)" by fastforce
  have s1: "same_stores w w1" by (rule time_Now_frame [OF n])
  let ?rca = "rca\<lparr>rca_SubmittedAt := now\<rparr>"
  obtain r w2 where c: "CreateRCA E ?rca w1 = (r, w2)" by fastforce
  have keep: "closed_ok (w_pg w2) \<and> rcas_kept (w_pg w) (w_pg w2)"
  proof -
    from CreateRCA_any [OF c] s1 consider "w_pg w2 = w_pg w" | "apply_stmt (INSERT_rca ?rca) (w_pg w) = Some (w_pg w2)"
      by (auto simp: same_stores_def)
    then show ?thesis
    proof cases
      case 2
      with closed_ok_rca [OF assms(2) 2] show ?thesis by (simp add: apply_stmt_Some_iff rcas_kept_run del: run_stmt.simps)
    qed (simp add: assms(2))
  qed
  show ?thesis
  proof (cases r)
    case None
    from CreateRCA_ok [OF c [unfolded None]] s1 have "w_pg w2 = run_stmt (INSERT_rca ?rca) (w_pg w)" "schema_ok (w_pg w2)"
      by (auto simp only: same_stores_def)
    with fresh_rca [of ?rca "w_pg w"] keep None S_insert assms(1) n c show ?thesis by (auto simp: Let_def)
  next
    case (Some e)
    with keep S_insert assms(1) n c show ?thesis by (auto simp: Let_def)
  qed
next
  case (S_finished r)
  with assms show ?thesis by auto
qed

end

subsection \<open>Every schedule\<close>

definition wf_ok :: "wf_request list \<Rightarrow> wf_pc list \<times> 'o world \<Rightarrow> bool" where
  "wf_ok reqs c \<longleftrightarrow> (case c of (pcs, w) \<Rightarrow> closed_ok (w_pg w) \<and> length pcs = length reqs \<and>
     (\<forall>k < length reqs. wf_pc_ok (w_pg w) (reqs ! k) (pcs ! k)) \<and>
     (\<forall>k < length reqs. \<forall>l < length reqs. k \<noteq> l \<and> submitted (reqs ! k) (pcs ! k) \<noteq> None \<longrightarrow>
        submitted (reqs ! k) (pcs ! k) \<noteq> submitted (reqs ! l) (pcs ! l)))"

text \<open>An item for which a submission has succeeded has its RCA on file.\<close>

lemma submitted_on_file:
  "wf_pc_ok db req pc \<Longrightarrow> submitted req pc = Some i \<Longrightarrow> row_with rca_WorkItemID i (t_rcas db) \<noteq> None"
  by (cases "(req, pc)" rule: submitted.cases) auto

context postgres_service
begin

lemma wf_step_ok:
  assumes "wf_step E req pc w = (pc', w')" and "closed_ok (w_pg w)" and "wf_pc_ok (w_pg w) req pc"
  shows "closed_ok (w_pg w') \<and> rcas_kept (w_pg w) (w_pg w') \<and> wf_pc_ok (w_pg w') req pc' \<and>
    (\<forall>i. submitted req pc' = Some i \<and> submitted req pc \<noteq> Some i \<longrightarrow> row_with rca_WorkItemID i (t_rcas (w_pg w)) = None)"
proof (cases "(E, req, pc, w)" rule: wf_step.cases)
  case (1 E' i st tpc w')
  then show ?thesis using assms transition_step_closed by (auto split: prod.splits)
next
  case (2 E' rca spc w'')
  obtain spc' where s: "submit_step E rca spc w = (spc', w')" "pc' = Submitting spc'"
    using assms(1) 2 by (auto split: prod.splits)
  have item: "submitted (Submit rca) x = Some i \<Longrightarrow> i = rca_WorkItemID rca" for x i
    by (cases "(Submit rca, x)" rule: submitted.cases) auto
  have "submitted (Submit rca) (Submitting spc) = None"
    if "submitted (Submit rca) pc' = Some i" "submitted (Submit rca) (Submitting spc) \<noteq> Some i" for i
    using that item [of pc' i] item [of "Submitting spc"] by (cases "submitted (Submit rca) (Submitting spc)") auto
  with submit_step_closed [OF s(1) assms(2)] assms(3) 2 s(2) show ?thesis by (auto dest: item)
qed (use assms in auto)

lemma wf_move_ok:
  assumes "wf_ok reqs c" and "wf_move E reqs ev c = c'"
  shows "wf_ok reqs c' \<and> rcas_kept (w_pg (snd c)) (w_pg (snd c'))"
proof -
  obtain pcs w where c: "c = (pcs, w)" by (cases c)
  have ok: "closed_ok (w_pg w)" "length pcs = length reqs" "\<And>k. k < length reqs \<Longrightarrow> wf_pc_ok (w_pg w) (reqs ! k) (pcs ! k)"
      "\<And>k l. k < length reqs \<Longrightarrow> l < length reqs \<Longrightarrow> k \<noteq> l \<Longrightarrow> submitted (reqs ! k) (pcs ! k) \<noteq> None \<Longrightarrow>
         submitted (reqs ! k) (pcs ! k) \<noteq> submitted (reqs ! l) (pcs ! l)"
    using assms(1) c by (auto simp: wf_ok_def)
  show ?thesis
  proof (cases ev)
    case (Other s)
    then show ?thesis
    proof (cases "other_stmt s \<and> (\<exists>db. apply_stmt s (w_pg w) = Some db)")
      case True
      then obtain db where db: "apply_stmt s (w_pg w) = Some db" "other_stmt s" by blast
      have kept: "rcas_kept (w_pg w) db" using db(1) rcas_kept_run by (auto simp: apply_stmt_Some_iff)
      have "wf_ok reqs (pcs, w\<lparr>w_pg := db\<rparr>)"
        using ok closed_ok_other [OF ok(1) db(2,1)] wf_pc_ok_kept [OF _ kept] by (simp add: wf_ok_def)
      with kept db Other c assms(2) show ?thesis by auto
    next
      case False
      then have "c' = c" using assms(2) Other c by (auto split: option.splits if_splits)
      with assms(1) show ?thesis by simp
    qed
  next
    case (Step k)
    show ?thesis
    proof (cases "k < length reqs")
      case True
      obtain pc' w' where s: "wf_step E (reqs ! k) (pcs ! k) w = (pc', w')" by fastforce
      note S = wf_step_ok [OF s ok(1) ok(3) [OF True]]
      have c': "c' = (pcs[k := pc'], w')" using assms(2) Step c True ok(2) s by simp
      have pcok: "wf_pc_ok (w_pg w') (reqs ! j) (pcs[k := pc'] ! j)" if "j < length reqs" for j
        using S ok(2) ok(3) [OF that] wf_pc_ok_kept that by (cases "j = k") auto
      have new: "submitted (reqs ! k) pc' \<noteq> submitted (reqs ! l) (pcs ! l)"
        if "l < length reqs" "l \<noteq> k" "submitted (reqs ! k) pc' \<noteq> None" for l
        using S submitted_on_file [OF ok(3) [OF that(1)]] ok(4) [OF True that(1)] that by (metis not_None_eq)
      have "submitted (reqs ! i) (pcs[k := pc'] ! i) \<noteq> submitted (reqs ! j) (pcs[k := pc'] ! j)"
        if "i < length reqs" "j < length reqs" "i \<noteq> j" "submitted (reqs ! i) (pcs[k := pc'] ! i) \<noteq> None" for i j
        using that ok(2,4) new by (cases "i = k"; cases "j = k") (auto, metis)
      with S pcok ok(2) c' c show ?thesis by (auto simp: wf_ok_def)
    next
      case False
      with assms Step c show ?thesis by auto
    qed
  qed
qed

lemma wf_run_ok:
  "wf_ok reqs c \<Longrightarrow> wf_ok reqs (wf_run E reqs evs c) \<and> rcas_kept (w_pg (snd c)) (w_pg (snd (wf_run E reqs evs c)))"
proof (induction evs arbitrary: c)
  case (Cons ev evs)
  from wf_move_ok [OF Cons.prems refl, of ev] Cons.IH [of "wf_move E reqs ev c"] show ?case
    by (auto intro: rcas_kept_trans)
qed simp

end

lemma wf_ok_start: "lifecycle_ok (w_pg w) \<Longrightarrow> wf_ok reqs (wf_start reqs w)"
proof -
  have "wf_pc_ok db r (wf_begin r)" "submitted r (wf_begin r) = None" for db r by (cases r; simp)+
  then show "lifecycle_ok (w_pg w) \<Longrightarrow> ?thesis" by (simp add: wf_ok_def wf_start_def lifecycle_closed)
qed

subsection \<open>Properties\<close>

text \<open>
  C4. A closed item has its RCA, under every schedule. However any number of transitions and submissions
  overlap, for whatever items, and whatever the other components write in between, and whichever calls
  fail: a work item that is CLOSED has a complete RCA on file, a closing time, and the time to repair of
  that RCA. RCAs on file are never changed or removed.
\<close>

theorem overlapping_close_has_rca:
  assumes "backend E" and "lifecycle_ok (w_pg w)" and "wf_run E reqs evs (wf_start reqs w) = (pcs, w')"
    and "r \<in> set (t_work_items (w_pg w'))" and "wi_State r = StateClosed"
  shows "\<exists>c. row_with rca_WorkItemID (wi_ID r) (t_rcas (w_pg w')) = Some c \<and> Validate c = None \<and>
    wi_MTTR r = Some (MTTRMinutes c) \<and> wi_ClosedAt r \<noteq> None \<and> rcas_kept (w_pg w) (w_pg w')"
proof -
  have pg: "postgres_service E" using backend.axioms [OF assms(1)] by auto
  from postgres_service.wf_run_ok [OF pg wf_ok_start [OF assms(2)], of reqs evs] assms(3)
  have "closed_ok (w_pg w')" "rcas_kept (w_pg w) (w_pg w')" by (auto simp: wf_ok_def wf_start_def)
  with assms(4,5) show ?thesis
    by (auto simp: closed_ok_def closing_ok_def list_all_iff Validate_None_iff split: option.splits)
qed

definition ex_requests :: "wf_request list" where
  "ex_requests = [Submit ex_rca, Submit ex_rca, Move ''w1'' StateResolved, Move ''w1'' StateClosed]"

definition ex_schedule :: "wf_event list" where
  "ex_schedule = [Step 0, Step 1, Step 0, Step 1, Step 2, Step 2, Step 1, Step 0, Other (UPDATE_severity SeverityP1 9 ''w1''),
     Step 2, Step 3, Step 3, Step 3, Step 3, Step 3]"

theorem overlapping_close_has_rca_witness:
  "\<exists>r c. t_work_items (w_pg (snd (wf_run ref_env ex_requests ex_schedule
       (wf_start ex_requests (ex_world StateInvestigating [] []))))) = [r] \<and> wi_State r = StateClosed \<and>
     wi_MTTR r = Some (MTTRMinutes c) \<and> Validate c = None"
proof -
  let ?run = "wf_run ref_env ex_requests ex_schedule (wf_start ex_requests (ex_world StateInvestigating [] []))"
  obtain pcs w' where run: "?run = (pcs, w')" by fastforce
  have "map wi_State (t_work_items (w_pg (snd ?run))) = [StateClosed]" by code_simp
  with run obtain r where r: "t_work_items (w_pg w') = [r]" "wi_State r = StateClosed" by auto
  have life: "lifecycle_ok (w_pg (ex_world StateInvestigating [] []))" by code_simp
  from overlapping_close_has_rca [OF ref.backend_axioms life run, of r] r run show ?thesis by auto
qed

text \<open>
  C20. One RCA per incident, under every schedule. Of any number of overlapping submissions for one work
  item at most one reports success, although each checks and then inserts; the RCA of the one that did is
  the one on file, and the table never holds two for an item.
\<close>

theorem overlapping_submissions_one_rca:
  assumes "backend E" and "lifecycle_ok (w_pg w)" and "wf_run E reqs evs (wf_start reqs w) = (pcs, w')"
  shows "distinct (map rca_WorkItemID (t_rcas (w_pg w'))) \<and>
    (\<forall>k < length reqs. \<forall>rca rca'. reqs ! k = Submit rca \<and> pcs ! k = Submitting (S_finished (None, rca')) \<longrightarrow>
       row_with rca_WorkItemID (rca_WorkItemID rca) (t_rcas (w_pg w')) = Some (inserted_rca rca') \<and>
       (\<forall>l < length reqs. \<forall>x x'. reqs ! l = Submit x \<and> pcs ! l = Submitting (S_finished (None, x')) \<and>
          rca_WorkItemID x = rca_WorkItemID rca \<longrightarrow> l = k))"
proof -
  have pg: "postgres_service E" using backend.axioms [OF assms(1)] by auto
  from postgres_service.wf_run_ok [OF pg wf_ok_start [OF assms(2)], of reqs evs] assms(3)
  have ok: "closed_ok (w_pg w')" "\<And>k. k < length reqs \<Longrightarrow> wf_pc_ok (w_pg w') (reqs ! k) (pcs ! k)"
      "\<And>k l. k < length reqs \<Longrightarrow> l < length reqs \<Longrightarrow> k \<noteq> l \<Longrightarrow> submitted (reqs ! k) (pcs ! k) \<noteq> None \<Longrightarrow>
         submitted (reqs ! k) (pcs ! k) \<noteq> submitted (reqs ! l) (pcs ! l)"
    by (auto simp: wf_ok_def)
  have "distinct (map rca_WorkItemID (t_rcas (w_pg w')))" using ok(1) by (simp add: closed_ok_def schema_ok_def)
  moreover have "row_with rca_WorkItemID (rca_WorkItemID rca) (t_rcas (w_pg w')) = Some (inserted_rca rca')"
    if "k < length reqs" "reqs ! k = Submit rca" "pcs ! k = Submitting (S_finished (None, rca'))" for k rca rca'
    using ok(2) [OF that(1)] that by simp
  moreover have "l = k"
    if "k < length reqs" "reqs ! k = Submit rca" "pcs ! k = Submitting (S_finished (None, rca'))"
      "l < length reqs" "reqs ! l = Submit x" "pcs ! l = Submitting (S_finished (None, x'))" "rca_WorkItemID x = rca_WorkItemID rca"
    for k l rca rca' x x'
    using ok(3) [of k l] that by auto
  ultimately show ?thesis by blast
qed

theorem overlapping_submissions_one_rca_witness:
  "\<exists>pcs w' rca'. wf_run ref_env ex_requests ex_schedule (wf_start ex_requests (ex_world StateInvestigating [] [])) = (pcs, w') \<and>
     pcs ! 1 = Submitting (S_finished (None, rca')) \<and>
     row_with rca_WorkItemID ''w1'' (t_rcas (w_pg w')) = Some (inserted_rca rca')"
proof -
  let ?run = "wf_run ref_env ex_requests ex_schedule (wf_start ex_requests (ex_world StateInvestigating [] []))"
  obtain pcs w' where run: "?run = (pcs, w')" by fastforce
  have "case fst ?run ! 1 of Submitting (S_finished (None, rca')) \<Rightarrow> True | _ \<Rightarrow> False" by code_simp
  with run obtain rca' where p: "pcs ! 1 = Submitting (S_finished (None, rca'))"
    by (auto split: wf_pc.splits submit_pc.splits option.splits prod.splits)
  have life: "lifecycle_ok (w_pg (ex_world StateInvestigating [] []))" by code_simp
  have one: "(1 :: nat) < length ex_requests" "ex_requests ! 1 = Submit ex_rca" "rca_WorkItemID ex_rca = ''w1''"
    by (simp_all add: ex_requests_def ex_rca_def)
  from overlapping_submissions_one_rca [OF ref.backend_axioms life run] one p have
    "row_with rca_WorkItemID (rca_WorkItemID ex_rca) (t_rcas (w_pg w')) = Some (inserted_rca rca')" by blast
  with run p one show ?thesis by simp
qed

end
