(* ===== verification/IngestSteps.thy ===== *)
theory IngestSteps
  imports Concurrency Escalator
begin

text \<open>
  The ingestion handlers and the escalation check cut at their accesses to shared state: the rate
  limiter, the steps of \<open>Resolve\<close>, the queue, and the calls of the escalator to the stores. Run alone, the
  steps are the functions of the source; \<open>Overlap\<close> interleaves them with everything else. What a handler
  computes without shared state belongs to the step before.
\<close>

subsection \<open>\<open>IngestSignal\<close> step by step\<close>

type_synonym headers = "(string \<times> string) list"

datatype ingest_pc =
    I_limit
  | I_check headers
  | I_resolve headers Signal "WorkItem option" resolve_pc
  | I_enqueue headers Signal bool
  | I_done response

text \<open>A step of \<open>Resolve\<close> on the debouncer of a handler; the work item that it has created, if it has.\<close>

definition resolve_in ::
  "'o ext \<Rightarrow> Signal \<Rightarrow> ('o world \<Rightarrow> (go_error + WorkItem \<times> 'x) \<times> 'o world) \<Rightarrow> resolve_pc \<Rightarrow> Handler \<times> 'o world \<Rightarrow>
   resolve_pc \<times> Handler \<times> 'o world" where
  "resolve_in E s fn pc hw = (case hw of (h, w) \<Rightarrow>
     case resolve_step E s fn pc (h_debouncer h, w) of (pc1, d, w1) \<Rightarrow> (pc1, h\<lparr>h_debouncer := d\<rparr>, w1))"

definition just_created :: "resolve_pc \<Rightarrow> resolve_pc \<Rightarrow> WorkItem option" where
  "just_created pc pc1 = (case pc of At_create \<Rightarrow> (case pc1 of At_set wi \<Rightarrow> Some wi | _ \<Rightarrow> None) | _ \<Rightarrow> None)"

primrec resolve_result :: "resolve_pc \<Rightarrow> (string \<times> bool \<times> go_error option) option" where
  "resolve_result At_local = None"
| "resolve_result At_redis = None"
| "resolve_result (At_found i) = None"
| "resolve_result At_create = None"
| "resolve_result (At_set wi) = None"
| "resolve_result (At_store i) = None"
| "resolve_result (Finished r) = Some r"

primrec ingest_step ::
  "'o ext \<Rightarrow> string \<Rightarrow> go_error + IngestRequest \<Rightarrow> ingest_pc \<Rightarrow> Handler \<times> 'o world \<Rightarrow> ingest_pc \<times> Handler \<times> 'o world" where
  "ingest_step E ip parsed I_limit hw = (case hw of (h, w) \<Rightarrow>
     case rate_limit E ip (h_rateLimiter h) w of ((allowed, hs), rl, w1) \<Rightarrow>
     (if allowed then I_check hs else I_done (reply StatusTooManyRequests hs (ErrorBody (Error ErrRateLimitExceeded))),
      h\<lparr>h_rateLimiter := rl\<rparr>, w1))"
| "ingest_step E ip parsed (I_check hs) hw = (case hw of (h, w) \<Rightarrow>
     case parsed of
       Inl e \<Rightarrow> (I_done (reply StatusBadRequest hs (ErrorBody (''invalid request body: '' @ Error e))), h, w)
     | Inr req \<Rightarrow>
         (case validateIngestRequest E req w of
            ((Some e, req1), w1) \<Rightarrow> (I_done (reply StatusBadRequest hs (ErrorBody (Error e))), h, w1)
          | ((None, req1), w1) \<Rightarrow>
              (case uuid_New E w1 of (u, w2) \<Rightarrow> case time_Now E w2 of (t, w3) \<Rightarrow>
                 (I_resolve hs (NewSignal u t (ir_ComponentID req1) (ir_ComponentType req1) (ir_Message req1)
                    (ir_Severity req1) (ir_Metadata req1)) None At_local, h, w3))))"
| "ingest_step E ip parsed (I_resolve hs sg created pc) hw =
     (case resolve_result pc of
        Some (i, new, err) \<Rightarrow>
          (case err of
             Some e \<Rightarrow> (I_done (reply StatusInternalServerError hs (ErrorBody (''failed to process signal: '' @ Error e))), hw)
           | None \<Rightarrow> (I_enqueue hs (attached sg created i) new, hw))
      | None \<Rightarrow>
          (case resolve_in E sg (new_item_single E sg) pc hw of (pc1, h, w) \<Rightarrow>
           case just_created pc pc1 of
             None \<Rightarrow> (I_resolve hs sg created pc1, h, w)
           | Some wi \<Rightarrow> (I_resolve hs sg (Some wi) pc1, h\<lparr>h_tasks := h_tasks h @ [DispatchAlert wi]\<rparr>, w)))"
| "ingest_step E ip parsed (I_enqueue hs sg new) hw = (case hw of (h, w) \<Rightarrow>
     case TryEnqueue sg (h_queue h) of
       (False, q) \<Rightarrow> (I_done (reply StatusTooManyRequests hs (ErrorBody (Error ErrQueueFull))), h\<lparr>h_queue := q\<rparr>, w)
     | (True, q) \<Rightarrow> (I_done (accepted_response sg (\<not> new) hs),
         h\<lparr>h_queue := q, h_tasks := h_tasks h @ [IncrementCounter]\<rparr>, w))"
| "ingest_step E ip parsed (I_done r) hw = (I_done r, hw)"

subsection \<open>\<open>IngestBatch\<close> step by step\<close>

datatype batch_pc =
    B_limit
  | B_next headers "IngestRequest list" "batch_result list"
  | B_resolve headers "IngestRequest list" "batch_result list" Signal resolve_pc
  | B_enqueue headers "IngestRequest list" "batch_result list" Signal bool
  | B_done response

primrec batch_step ::
  "'o ext \<Rightarrow> string \<Rightarrow> go_error + IngestRequest list \<Rightarrow> batch_pc \<Rightarrow> Handler \<times> 'o world \<Rightarrow> batch_pc \<times> Handler \<times> 'o world" where
  "batch_step E ip parsed B_limit hw = (case hw of (h, w) \<Rightarrow>
     case rate_limit E ip (h_rateLimiter h) w of ((allowed, hs), rl, w1) \<Rightarrow>
     (if \<not> allowed then B_done (reply StatusTooManyRequests hs (ErrorBody (Error ErrRateLimitExceeded)))
      else (case parsed of
          Inl e \<Rightarrow> B_done (reply StatusBadRequest hs (ErrorBody (''invalid batch request body: '' @ Error e)))
        | Inr reqs \<Rightarrow>
            if 100 < length reqs
            then B_done (reply StatusBadRequest hs (ErrorBody ''batch size exceeds maximum of 100 signals''))
            else B_next hs reqs []),
      h\<lparr>h_rateLimiter := rl\<rparr>, w1))"
| "batch_step E ip parsed (B_next hs reqs results) hw =
     (case reqs of
        [] \<Rightarrow> (B_done (reply StatusAccepted hs (BatchBody results)), hw)
      | req # reqs \<Rightarrow> (case hw of (h, w) \<Rightarrow>
          case validateIngestRequest E req w of
            ((Some e, req1), w1) \<Rightarrow> (B_next hs reqs (results @ [error_result (Error e)]), h, w1)
          | ((None, req1), w1) \<Rightarrow>
              (case uuid_New E w1 of (u, w2) \<Rightarrow> case time_Now E w2 of (t, w3) \<Rightarrow>
                 (B_resolve hs reqs results (NewSignal u t (ir_ComponentID req1) (ir_ComponentType req1) (ir_Message req1)
                    (ir_Severity req1) (ir_Metadata req1)) At_local, h, w3))))"
| "batch_step E ip parsed (B_resolve hs reqs results sg pc) hw =
     (case resolve_result pc of
        Some (i, new, err) \<Rightarrow>
          (case err of
             Some e \<Rightarrow> (B_next hs reqs (results @ [error_result (Error e)]), hw)
           | None \<Rightarrow> (B_enqueue hs reqs results (sg\<lparr>sig_WorkItemID := i\<rparr>) new, hw))
      | None \<Rightarrow>
          (case resolve_in E sg (new_item_batch E sg) pc hw of (pc1, hw1) \<Rightarrow> (B_resolve hs reqs results sg pc1, hw1)))"
| "batch_step E ip parsed (B_enqueue hs reqs results sg new) hw = (case hw of (h, w) \<Rightarrow>
     case TryEnqueue sg (h_queue h) of
       (False, q) \<Rightarrow> (B_next hs reqs (results @ [error_result (Error ErrQueueFull)]), h\<lparr>h_queue := q\<rparr>, w)
     | (True, q) \<Rightarrow>
         (B_next hs reqs (results @ [\<lparr>br_SignalID = sig_ID sg, br_WorkItemID = sig_WorkItemID sg,
            br_Debounced = (\<not> new), br_Error = []\<rparr>]),
          h\<lparr>h_queue := q, h_tasks := h_tasks h @ [IncrementCounter]\<rparr>, w))"
| "batch_step E ip parsed (B_done r) hw = (B_done r, hw)"

subsection \<open>The escalation check step by step\<close>

datatype escalation_pc =
    E_list
  | E_loop go_time "WorkItem list" nat
  | E_invalidate go_time "WorkItem list" nat
  | E_done nat

primrec escalation_step :: "'o ext \<Rightarrow> escalation_pc \<Rightarrow> 'o world \<Rightarrow> escalation_pc \<times> 'o world" where
  "escalation_step E E_list w =
     (case ListActiveWorkItems E w of
        ((items, Some e), w1) \<Rightarrow> (E_done 0, w1)
      | ((items, None), w1) \<Rightarrow> (case time_Now E w1 of (now, w2) \<Rightarrow> (E_loop now items 0, w2)))"
| "escalation_step E (E_loop now items n) w =
     (case items of
        [] \<Rightarrow> (E_done n, w)
      | wi # items \<Rightarrow>
          (let newSeverity = computeEscalation (wi_Severity wi) (time_Sub now (wi_CreatedAt wi))
           in if wi_State wi \<noteq> StateInvestigating \<or> newSeverity = wi_Severity wi then (E_loop now items n, w)
              else (case UpdateWorkItemSeverity E (wi_ID wi) newSeverity w of
                  (Some e, w1) \<Rightarrow> (E_loop now items n, w1)
                | (None, w1) \<Rightarrow> (E_invalidate now items n, w1))))"
| "escalation_step E (E_invalidate now items n) w =
     (case InvalidateDashboard E w of (_, w1) \<Rightarrow> (E_loop now items (n + 1), w1))"
| "escalation_step E (E_done n) w = (E_done n, w)"

subsection \<open>Run alone, the steps are the code\<close>

abbreviation alone :: "('p \<Rightarrow> 's \<Rightarrow> 'p \<times> 's) \<Rightarrow> nat \<Rightarrow> 'p \<times> 's \<Rightarrow> 'p \<times> 's" where
  "alone f n \<equiv> (\<lambda>(p, s). f p s) ^^ n"

lemma alone_Suc [simp]: "alone f (Suc n) (p, s) = alone f n (f p s)"
  by (simp add: funpow_Suc_right del: funpow.simps)

lemma alone_add: "alone f m c = c1 \<Longrightarrow> alone f n c1 = c2 \<Longrightarrow> alone f (n + m) c = c2"
  by (simp add: funpow_add)

lemma steps_then:
  assumes "\<exists>n. alone f n (p, s) = (p1, s1)" and "\<exists>n. alone f n (p1, s1) = c"
  shows "\<exists>n. alone f n (p, s) = c"
proof -
  from assms obtain m n where "alone f m (p, s) = (p1, s1)" "alone f n (p1, s1) = c" by blast
  from alone_add [OF this] show ?thesis by blast
qed

lemma one_step: "f p s = c \<Longrightarrow> \<exists>n. alone f n (p, s) = c"
  by (intro exI [of _ "Suc 0"]) simp

lemma step_then: "f p s = (p1, s1) \<Longrightarrow> \<exists>n. alone f n (p1, s1) = c \<Longrightarrow> \<exists>n. alone f n (p, s) = c"
  by (rule steps_then [OF one_step])

lemma no_step: "\<exists>n. alone f n c = c"
  by (intro exI [of _ 0]) simp

lemmas resolve_simps = resolve_in_def just_created_def linked_def

lemma handler_same [simp]: "h\<lparr>h_debouncer := h_debouncer h, h_tasks := h_tasks h\<rparr> = (h :: Handler)"
  "h\<lparr>h_debouncer := h_debouncer h\<rparr> = (h :: Handler)" "h\<lparr>h_tasks := h_tasks h\<rparr> = (h :: Handler)"
  by simp_all

context backend
begin

lemma ingest_resolve_alone:
  assumes "Resolve E sg (new_item_single E sg) (h_debouncer h) w = (((i, new, err), x), d, w')"
  shows "\<exists>n. alone (ingest_step E ip parsed) n (I_resolve hs sg None At_local, h, w) =
    (I_resolve hs sg x (Finished (i, new, err)), h\<lparr>h_debouncer := d, h_tasks := h_tasks h @ alerts_for x\<rparr>, w')"
  using assms
proof (cases rule: Resolve_cases)
  case hit
  then show ?thesis
    by (intro exI [of _ "Suc 0"]) (auto simp: resolve_simps alerts_for_def)
next
  case (redis e)
  then show ?thesis
    by (intro exI [of _ "Suc (Suc (Suc 0))"]) (auto simp: resolve_simps alerts_for_def)
next
  case (failed e1 w1 e)
  then show ?thesis
    by (intro exI [of _ "Suc (Suc (Suc 0))"]) (auto simp: resolve_simps alerts_for_def)
next
  case (created e1 w1 wi y w2 e2)
  have "y = wi" using new_item_single_ok [OF created(3)] by simp
  with created show ?thesis
    by (intro exI [of _ "Suc (Suc (Suc (Suc (Suc 0))))"]) (auto simp: resolve_simps alerts_for_def)
qed

lemma batch_resolve_alone:
  assumes "Resolve E sg (new_item_batch E sg) (h_debouncer h) w = (((i, new, err), x), d, w')"
  shows "\<exists>n. alone (batch_step E ip parsed) n (B_resolve hs reqs rs sg At_local, h, w) =
    (B_resolve hs reqs rs sg (Finished (i, new, err)), h\<lparr>h_debouncer := d\<rparr>, w')"
  using assms
proof (cases rule: Resolve_cases)
  case hit
  then show ?thesis by (intro exI [of _ "Suc 0"]) (auto simp: resolve_simps)
next
  case (redis e)
  then show ?thesis by (intro exI [of _ "Suc (Suc (Suc 0))"]) (auto simp: resolve_simps)
next
  case (failed e1 w1 e)
  then show ?thesis by (intro exI [of _ "Suc (Suc (Suc 0))"]) (auto simp: resolve_simps)
next
  case (created e1 w1 wi y w2 e2)
  then show ?thesis by (intro exI [of _ "Suc (Suc (Suc (Suc (Suc 0))))"]) (auto simp: resolve_simps)
qed

end

context backend
begin

lemma ingest_refines:
  assumes "IngestSignal E ip parsed h w = (r, h', w')"
  shows "\<exists>n. alone (ingest_step E ip parsed) n (I_limit, h, w) = (I_done r, h', w')"
proof -
  let ?f = "ingest_step E ip parsed"
  obtain ok hs rl w1 where rl: "rate_limit E ip (h_rateLimiter h) w = ((ok, hs), rl, w1)" by (metis surj_pair)
  let ?h = "h\<lparr>h_rateLimiter := rl\<rparr>"
  show ?thesis
  proof (cases "ok \<and> (\<exists>req rq w2. parsed = Inr req \<and> validateIngestRequest E req w1 = ((None, rq), w2))")
    case False
    with assms rl show ?thesis
      by (intro exI [of _ "Suc (Suc 0)"]) (auto simp: IngestSignal_def Let_def split: sum.splits prod.splits option.splits)
  next
    case True
    then obtain req rq w2 where v: "ok" "parsed = Inr req" "validateIngestRequest E req w1 = ((None, rq), w2)" by blast
    obtain u w3 t w4 where f: "uuid_New E w2 = (u, w3)" "time_Now E w3 = (t, w4)" by (metis surj_pair)
    define sg where "sg = NewSignal u t (ir_ComponentID rq) (ir_ComponentType rq) (ir_Message rq)
      (ir_Severity rq) (ir_Metadata rq)"
    obtain i new err x d w5 where res: "Resolve E sg (new_item_single E sg) (h_debouncer ?h) w4 = (((i, new, err), x), d, w5)"
      by (metis surj_pair)
    have run: "ingest_valid E hs rq ?h w2 = (r, h', w')" using assms rl v by (simp add: IngestSignal_def)
    let ?h1 = "?h\<lparr>h_debouncer := d, h_tasks := h_tasks h @ alerts_for x\<rparr>"
    have "\<exists>n. alone ?f n (I_resolve hs sg x (Finished (i, new, err)), ?h1, w5) = (I_done r, h', w')"
    proof (cases err)
      case (Some e)
      then have "d = h_debouncer h" "x = None" using Resolve_error [of E sg "new_item_single E sg"] Resolve_new_iff res
        by (auto elim: Resolve_cases)
      with Some run f res show ?thesis
        by (intro one_step) (auto simp: ingest_valid_def sg_def Let_def alerts_for_def)
    next
      case None
      obtain k q where q: "TryEnqueue (attached sg x i) (h_queue ?h) = (k, q)" by fastforce
      from ingest_valid_run [OF f sg_def res [unfolded None] q, of hs] run q None show ?thesis
        by (intro exI [of _ "Suc (Suc 0)"]) (cases k; auto)
    qed
    then have "\<exists>n. alone ?f n (I_resolve hs sg None At_local, ?h, w4) = (I_done r, h', w')"
      using steps_then [OF ingest_resolve_alone [OF res, of ip parsed hs]] by simp
    then have "\<exists>n. alone ?f n (I_check hs, ?h, w1) = (I_done r, h', w')"
      by (rule step_then [rotated]) (simp add: v f sg_def)
    then show ?thesis by (rule step_then [rotated]) (simp add: rl v)
  qed
qed

lemma batch_one_alone:
  assumes "batch_one E req h w = (r, h', w')"
  shows "\<exists>n. alone (batch_step E ip parsed) n (B_next hs (req # reqs) rs, h, w) = (B_next hs reqs (rs @ [r]), h', w')"
proof -
  let ?f = "batch_step E ip parsed"
  obtain ve rq w1 where v: "validateIngestRequest E req w = ((ve, rq), w1)" by (metis surj_pair)
  show ?thesis
  proof (cases ve)
    case (Some e)
    with assms v show ?thesis by (intro one_step) (simp add: batch_one_def)
  next
    case vN: None
    obtain u w2 t w3 where f: "uuid_New E w1 = (u, w2)" "time_Now E w2 = (t, w3)" by (metis surj_pair)
    define sg where "sg = NewSignal u t (ir_ComponentID rq) (ir_ComponentType rq) (ir_Message rq)
      (ir_Severity rq) (ir_Metadata rq)"
    obtain i new err x d w4 where res: "Resolve E sg (new_item_batch E sg) (h_debouncer h) w3 = (((i, new, err), x), d, w4)"
      by (metis surj_pair)
    have "\<exists>n. alone ?f n (B_resolve hs reqs rs sg (Finished (i, new, err)), h\<lparr>h_debouncer := d\<rparr>, w4) =
        (B_next hs reqs (rs @ [r]), h', w')"
    proof (cases err)
      case (Some e)
      with assms v vN f res show ?thesis by (intro one_step) (auto simp: batch_one_def sg_def Let_def)
    next
      case None
      obtain k q where q: "TryEnqueue (sg\<lparr>sig_WorkItemID := i\<rparr>) (h_queue h) = (k, q)" by fastforce
      from batch_one_run [OF v [unfolded vN] f sg_def res [unfolded None] q] assms q None show ?thesis
        by (intro exI [of _ "Suc (Suc 0)"]) (cases k; auto)
    qed
    then have "\<exists>n. alone ?f n (B_resolve hs reqs rs sg At_local, h, w3) = (B_next hs reqs (rs @ [r]), h', w')"
      by (rule steps_then [OF batch_resolve_alone [OF res]])
    then show ?thesis by (rule step_then [rotated]) (simp add: v vN f sg_def)
  qed
qed

lemma batch_loop_alone:
  "batch_loop E reqs rs h w = (rs', h', w') \<Longrightarrow>
     \<exists>n. alone (batch_step E ip parsed) n (B_next hs reqs rs, h, w) = (B_next hs [] rs', h', w')"
proof (induction reqs arbitrary: rs h w)
  case (Cons req reqs)
  obtain r h1 w1 where b: "batch_one E req h w = (r, h1, w1)" by (metis surj_pair)
  with Cons.prems have "batch_loop E reqs (rs @ [r]) h1 w1 = (rs', h', w')" by simp
  from steps_then [OF batch_one_alone [OF b] Cons.IH [OF this]] show ?case .
qed (simp add: no_step)

lemma batch_refines:
  assumes "IngestBatch E ip parsed h w = (r, h', w')"
  shows "\<exists>n. alone (batch_step E ip parsed) n (B_limit, h, w) = (B_done r, h', w')"
proof -
  let ?f = "batch_step E ip parsed"
  obtain ok hs rl w1 where rl: "rate_limit E ip (h_rateLimiter h) w = ((ok, hs), rl, w1)" by (metis surj_pair)
  let ?h = "h\<lparr>h_rateLimiter := rl\<rparr>"
  show ?thesis
  proof (cases "ok \<and> (\<exists>reqs. parsed = Inr reqs \<and> \<not> 100 < length reqs)")
    case False
    with assms rl show ?thesis
      by (intro one_step) (auto simp: IngestBatch_def Let_def split: sum.splits)
  next
    case True
    then obtain reqs where p: "ok" "parsed = Inr reqs" "\<not> 100 < length reqs" by blast
    obtain rs h1 w2 where l: "batch_loop E reqs [] ?h w1 = (rs, h1, w2)" by (metis surj_pair)
    from assms rl p l have "r = reply StatusAccepted hs (BatchBody rs)" "h' = h1" "w' = w2"
      by (auto simp: IngestBatch_def Let_def)
    then have "\<exists>n. alone ?f n (B_next hs [] rs, h1, w2) = (B_done r, h', w')" by (intro one_step) simp
    then have "\<exists>n. alone ?f n (B_next hs reqs [], ?h, w1) = (B_done r, h', w')"
      by (rule steps_then [OF batch_loop_alone [OF l]])
    then show ?thesis by (rule step_then [rotated]) (simp add: rl p)
  qed
qed

end

lemma escalate_loop_alone:
  "escalate_loop E now items n w = (n', w') \<Longrightarrow>
     \<exists>k. alone (escalation_step E) k (E_loop now items n, w) = (E_done n', w')"
proof (induction items arbitrary: n w)
  case Nil
  then show ?case by (intro one_step) simp
next
  case (Cons wi items)
  let ?sv = "computeEscalation (wi_Severity wi) (time_Sub now (wi_CreatedAt wi))"
  show ?case
  proof (cases "wi_State wi \<noteq> StateInvestigating \<or> ?sv = wi_Severity wi")
    case True
    with Cons.prems have "escalate_loop E now items n w = (n', w')" by (auto simp: Let_def split: if_splits)
    from Cons.IH [OF this] show ?thesis by (rule step_then [rotated]) (use True in auto)
  next
    case False
    obtain r w1 where u: "UpdateWorkItemSeverity E (wi_ID wi) ?sv w = (r, w1)" by fastforce
    show ?thesis
    proof (cases r)
      case (Some e)
      with Cons.prems False u have "escalate_loop E now items n w1 = (n', w')" by (auto simp: Let_def)
      from Cons.IH [OF this] show ?thesis by (rule step_then [rotated]) (use False u Some in auto)
    next
      case None
      obtain r2 w2 where i: "InvalidateDashboard E w1 = (r2, w2)" by fastforce
      with None Cons.prems False u have "escalate_loop E now items (n + 1) w2 = (n', w')" by (auto simp: Let_def)
      from Cons.IH [OF this] have "\<exists>k. alone (escalation_step E) k (E_invalidate now items n, w1) = (E_done n', w')"
        by (rule step_then [rotated]) (use i in simp)
      then show ?thesis by (rule step_then [rotated]) (use False u None in auto)
    qed
  qed
qed

lemma escalation_refines:
  assumes "runEscalationCheck E w = (n, w')"
  shows "\<exists>k. alone (escalation_step E) k (E_list, w) = (E_done n, w')"
proof -
  obtain items e w1 where l: "ListActiveWorkItems E w = ((items, e), w1)" by (metis surj_pair)
  show ?thesis
  proof (cases e)
    case (Some x)
    with assms l show ?thesis by (intro one_step) (simp add: runEscalationCheck_def)
  next
    case None
    obtain now w2 where t: "time_Now E w1 = (now, w2)" by fastforce
    with None assms l have "escalate_loop E now items 0 w2 = (n, w')" by (simp add: runEscalationCheck_def)
    from escalate_loop_alone [OF this] show ?thesis by (rule step_then [rotated]) (simp add: l None t)
  qed
qed

subsection \<open>Properties\<close>



end
