(* ===== verification/AlertOnce.thy ===== *)
theory AlertOnce
  imports System
begin

text \<open>
  Alerts in the assembled system: a work item is alerted at most once, however many of its signals come
  in. The handler starts the goroutine that sends an alert only for a work item it has just inserted, and
  the primary key keeps a second item from having the same identifier.
\<close>

subsection \<open>Work items alerted, or about to be\<close>

fun to_alert :: "task list \<Rightarrow> string list" where
  "to_alert [] = []"
| "to_alert (DispatchAlert wi # ts) = wi_ID wi # to_alert ts"
| "to_alert (IncrementCounter # ts) = to_alert ts"
| "to_alert (RebuildDashboard items # ts) = to_alert ts"

definition alerted :: "app \<Rightarrow> string list" where
  "alerted a = map al_WorkItemID (ap_alerts a) @ to_alert (h_tasks (ap_handler a))"

lemma to_alert_append [simp]: "to_alert (ts @ us) = to_alert ts @ to_alert us"
  by (induction ts rule: to_alert.induct) auto

lemma to_alert_alerts_for: "to_alert (alerts_for created) = (case created of None \<Rightarrow> [] | Some wi \<Rightarrow> [wi_ID wi])"
  by (simp add: alerts_for_def split: option.splits)

lemma to_alert_none: "set ts \<subseteq> {IncrementCounter} \<union> range RebuildDashboard \<Longrightarrow> to_alert ts = []"
  by (induction ts rule: to_alert.induct) auto

lemma task_ok_exists: "list_all (task_ok db) ts \<Longrightarrow> i \<in> set (to_alert ts) \<Longrightarrow> \<exists>c. item_of db i c"
  by (induction ts rule: to_alert.induct) (auto simp: task_ok_def)

lemma alerted_exists: "parts_ok P (a, w) \<Longrightarrow> i \<in> set (alerted a) \<Longrightarrow> \<exists>c. item_of (w_pg w) i c"
  by (auto simp: alerted_def parts_ok_def list_all_iff alert_ok_def dest: task_ok_exists [unfolded list_all_iff, rotated])

lemma inserted_is_new:
  assumes "apply_stmt (INSERT_work_item wi) db = Some db'"
  shows "\<not> item_of db (wi_ID wi) c"
proof
  assume "item_of db (wi_ID wi) c"
  then obtain r where r: "row_with wi_ID (wi_ID wi) (t_work_items db) = Some r" by (auto simp: item_of_def)
  have "wi_ID wi \<in> set (map wi_ID (t_work_items db))" using imageI [OF row_with_in_set [OF r], of wi_ID] row_with_key [OF r] by simp
  with assms show False by (simp add: apply_stmt_Some_iff schema_ok_def inserted_work_item_def)
qed

subsection \<open>Steps\<close>

context backend
begin

lemma IngestSignal_to_alert:
  assumes "IngestSignal E ip p h w = (resp, h', w')"
  shows "\<exists>ts. h_tasks h' = h_tasks h @ ts \<and> (\<forall>i \<in> set (to_alert ts). \<forall>c. \<not> item_of (w_pg w) i c) \<and> distinct (to_alert ts)"
proof -
  obtain ok hs rl w1 where rl: "rate_limit E ip (h_rateLimiter h) w = ((ok, hs), rl, w1)" by (metis surj_pair)
  have pg1: "w_pg w1 = w_pg w" using rate_limit_frame [OF rl] by (simp add: same_stores_def)
  consider "h' = h\<lparr>h_rateLimiter := rl\<rparr>"
    | req e rq w2 where "validateIngestRequest E req w1 = ((e, rq), w2)"
        "ingest_valid E hs rq (h\<lparr>h_rateLimiter := rl\<rparr>) w2 = (resp, h', w')"
    using assms rl by (auto simp: IngestSignal_def Let_def split: if_splits sum.splits prod.splits option.splits)
  then show ?thesis
  proof cases
    case (2 req e rq w2)
    have pg2: "w_pg w2 = w_pg w" using validate_frame [OF 2(1)] pg1 by (simp add: same_stores_def)
    have new: "distinct (to_alert (alerts_for created)) \<and>
        (\<forall>i \<in> set (to_alert (alerts_for created)). \<forall>c. \<not> item_of (w_pg w) i c)"
      if "\<And>wi. created = Some wi \<Longrightarrow> apply_stmt (INSERT_work_item wi) (w_pg w2) = Some (w_pg w')" for created
      using that inserted_is_new pg2 by (auto simp: to_alert_alerts_for split: option.splits)
    from 2(2) show ?thesis
    proof (cases rule: ingest_valid_cases)
      case (full s created)
      with new [of created] show ?thesis by (auto split: option.splits)
    next
      case (accepted s created)
      with new [of created] show ?thesis
        by (intro exI [of _ "alerts_for created @ [IncrementCounter]"]) (auto split: option.splits)
    qed auto
  qed auto
qed

lemma IngestBatch_to_alert:
  assumes "IngestBatch E ip p h w = (resp, h', w')"
  shows "to_alert (h_tasks h') = to_alert (h_tasks h)"
proof -
  have quiet: "to_alert ts = []" if "set ts \<subseteq> {IncrementCounter}" for ts
    using that by (intro to_alert_none) auto
  show ?thesis
    using assms by (auto simp: IngestBatch_def Let_def quiet split: prod.splits sum.splits if_splits
        dest!: batch_loop_tasks)
qed

lemma brief_alerted:
  assumes "brief req" and R: "route E A req a w = (ans, a', w')"
  shows "alerted a' = alerted a"
proof (cases req)
  case Get_workitems
  obtain r ts w1 where g: "api_ListWorkItems E w = (r, ts, w1)" by (metis surj_pair)
  from api_reads_mild(3) [OF g] have "to_alert ts = []" by (intro to_alert_none) auto
  with R Get_workitems g show ?thesis by (auto simp: alerted_def add_tasks_def)
qed (use assms in \<open>auto simp: alerted_def [abs_def] split: prod.splits\<close>)

lemma route_alerted:
  assumes ok: "sys_ok (a, w)" and d: "distinct (alerted a)" and R: "route E A req a w = (ans, a', w')"
  shows "distinct (alerted a')"
proof (cases "brief req")
  case True
  with brief_alerted [OF True R] d show ?thesis by simp
next
  case False
  show ?thesis
  proof (cases req)
    case (Post_signals ip p)
    obtain r h w1 where g: "IngestSignal E ip p (ap_handler a) w = (r, h, w1)" by (metis surj_pair)
    from IngestSignal_to_alert [OF g] obtain ts where ts: "h_tasks h = h_tasks (ap_handler a) @ ts"
        "\<forall>i \<in> set (to_alert ts). \<forall>c. \<not> item_of (w_pg w) i c" "distinct (to_alert ts)" by blast
    have "alerted a' = alerted a @ to_alert ts" using R Post_signals g ts(1) by (auto simp: alerted_def)
    moreover have "set (alerted a) \<inter> set (to_alert ts) = {}" using ts(2) alerted_exists [OF ok] by blast
    ultimately show ?thesis using d ts(3) by simp
  next
    case (Post_signals_batch ip p)
    obtain r h w1 where g: "IngestBatch E ip p (ap_handler a) w = (r, h, w1)" by (metis surj_pair)
    from IngestBatch_to_alert [OF g] R Post_signals_batch g have "alerted a' = alerted a" by (auto simp: alerted_def)
    with d show ?thesis by simp
  qed (use R d False in \<open>auto simp del: distinct_append split: prod.splits\<close>)
qed

end

lemma run_task_alerted:
  assumes "distinct (alerted a)" and "h_tasks (ap_handler a) = pre @ t # post"
    and "run_task E t (a\<lparr>ap_handler := (ap_handler a)\<lparr>h_tasks := pre @ post\<rparr>\<rparr>) w = (a', w')"
  shows "distinct (alerted a')"
proof (cases t)
  case (DispatchAlert wi)
  have "al_WorkItemID al = wi_ID wi" if "Dispatch u now wi = Some al" for al u now
    using that Execute_addressed by (auto simp: Dispatch_def)
  then have "alerted a' \<in> {map al_WorkItemID (ap_alerts a) @ to_alert (pre @ post),
      map al_WorkItemID (ap_alerts a) @ wi_ID wi # to_alert (pre @ post)}"
    using assms(3) DispatchAlert by (auto simp: run_task_def alerted_def split: prod.splits option.splits)
  moreover have "distinct (map al_WorkItemID (ap_alerts a) @ wi_ID wi # to_alert (pre @ post))"
    using assms(1,2) DispatchAlert by (auto simp: alerted_def)
  ultimately show ?thesis by auto
qed (use assms in \<open>auto simp: run_task_def alerted_def simp del: distinct_append\<close>)

context backend
begin

lemma step_alerted:
  assumes "sys_step E A x y" and "sys_ok x" and "distinct (alerted (fst x))"
  shows "distinct (alerted (fst y))"
  using assms
proof cases
  case (request now token req a w ans a' w')
  then show ?thesis using assms(2,3) by (auto simp: serve_def split: if_splits sum.splits dest: route_alerted)
next
  case (task a pre t post w a' w')
  with run_task_alerted [OF _ task(3,4)] assms(3) show ?thesis by simp
qed (use assms(3) in \<open>simp_all add: alerted_def\<close>)

lemma reach_alerted: "sys_reach E A env x \<Longrightarrow> distinct (alerted (fst x))"
proof (induction rule: sys_reach.induct)
  case (start w)
  show ?case by (simp add: alerted_def main_app_def Let_def NewHandler_def)
next
  case (step x y)
  then show ?case using step_alerted sys_ok_reach by blast
qed

end

subsection \<open>Properties\<close>

text \<open>
  At most one alert per work item. In every reachable state no two alerts, sent or pending, are for the same
  work item, whatever number of signals came in for its component, and every alert sent is for an existing work item.
\<close>

theorem one_alert_per_item:
  assumes "backend E" and "sys_reach E A env (a, w)"
  shows "distinct (map al_WorkItemID (ap_alerts a) @ to_alert (h_tasks (ap_handler a))) \<and>
    (\<forall>al \<in> set (ap_alerts a). \<exists>c. item_of (w_pg w) (al_WorkItemID al) c)"
  using backend.reach_alerted [OF assms] backend.sys_ok_reach [OF assms]
  by (auto simp: alerted_def parts_ok_def list_all_iff alert_ok_def)

theorem one_alert_per_item_witness:
  "\<exists>i. to_alert (h_tasks (ap_handler (fst (snd ex_posted)))) = [i] \<and> distinct (map al_WorkItemID (ap_alerts (fst (snd ex_posted))) @ [i])"
proof -
  have "length (to_alert (h_tasks (ap_handler (fst (snd ex_posted))))) = 1" by code_simp
  then obtain i where i: "to_alert (h_tasks (ap_handler (fst (snd ex_posted)))) = [i]"
    by (auto simp: length_Suc_conv)
  have "sys_reach ref_env ref_auth ex_env (fst (snd ex_posted), snd (snd ex_posted))" using ex_posted_reach by simp
  from one_alert_per_item [OF ref.backend_axioms this] i show ?thesis by (intro exI [of _ i]) (simp only:)
qed

end
