(* ===== verification/Overlap.thy ===== *)
theory Overlap
  imports PoolRun WorkflowRace IngestSteps AlertOnce
begin

text \<open>
  The backend with everything overlapping. Requests that ingest signals, transitions, submissions of RCAs,
  the workers of the pool and the escalation checks are activities, cut at their accesses to shared
  state (\<open>IngestSteps\<close>, \<open>Concurrency\<close>, \<open>WorkflowRace\<close>, \<open>PoolRun\<close>; a call of a store with its retries is one
  access); any number of them are under way at a time,
  and the other requests (which write to caches and accounts only, and are one step each), the goroutines
  and the background loops of \<open>System\<close> come in between. The
  contract of an activity, what it may rely on and what it guarantees to the others, is a locale.
\<close>

subsection \<open>Activities\<close>

datatype worker_event = W_stop | W_take | W_write write_job | W_finish

primrec pool_event_of :: "worker_event \<Rightarrow> pool_event" where
  "pool_event_of W_stop = Stop 0"
| "pool_event_of W_take = Take 0"
| "pool_event_of (W_write job) = Write 0 job"
| "pool_event_of W_finish = Finish 0"

text \<open>A move of one worker, as in \<open>PoolRun\<close>; \<open>None\<close>: not possible now.\<close>

definition solo :: "worker \<Rightarrow> SignalQueue \<Rightarrow> Pool \<Rightarrow> 'o world \<Rightarrow> 'o pool_run" where
  "solo wk q p w = \<lparr>pr_workers = [wk], pr_queue = q, pr_pool = p, pr_world = w, pr_accepted = [], pr_received = []\<rparr>"

definition worker_step ::
  "'o ext \<Rightarrow> worker_event \<Rightarrow> worker \<Rightarrow> SignalQueue \<Rightarrow> Pool \<Rightarrow> 'o world \<Rightarrow> (worker \<times> SignalQueue \<times> Pool \<times> 'o world) option" where
  "worker_step E ev wk q p w =
     (case pool_move E (pool_event_of ev) (solo wk q p w) of
        None \<Rightarrow> None
      | Some s \<Rightarrow> Some (worker_at 0 s, pr_queue s, pr_pool s, pr_world s))"

datatype activity =
    Ingest string "go_error + IngestRequest" ingest_pc
  | Batch string "go_error + IngestRequest list" batch_pc
  | Flow wf_request wf_pc
  | Pool_worker worker
  | Escalation escalation_pc

primrec act_step :: "'o ext \<Rightarrow> worker_event \<Rightarrow> activity \<Rightarrow> app \<times> 'o world \<Rightarrow> activity \<times> app \<times> 'o world" where
  "act_step E ev (Ingest ip parsed pc) x = (case x of (a, w) \<Rightarrow>
     case ingest_step E ip parsed pc (ap_handler a, w) of (pc1, h, w1) \<Rightarrow> (Ingest ip parsed pc1, a\<lparr>ap_handler := h\<rparr>, w1))"
| "act_step E ev (Batch ip parsed pc) x = (case x of (a, w) \<Rightarrow>
     case batch_step E ip parsed pc (ap_handler a, w) of (pc1, h, w1) \<Rightarrow> (Batch ip parsed pc1, a\<lparr>ap_handler := h\<rparr>, w1))"
| "act_step E ev (Flow req pc) x = (case x of (a, w) \<Rightarrow>
     case wf_step E req pc w of (pc1, w1) \<Rightarrow> (Flow req pc1, a, w1))"
| "act_step E ev (Pool_worker wk) x = (case x of (a, w) \<Rightarrow>
     case worker_step E ev wk (app_queue a) (ap_pool a) w of
       None \<Rightarrow> (Pool_worker wk, a, w)
     | Some (wk1, q, p, w1) \<Rightarrow> (Pool_worker wk1, a\<lparr>ap_handler := (ap_handler a)\<lparr>h_queue := q\<rparr>, ap_pool := p\<rparr>, w1))"
| "act_step E ev (Escalation pc) x = (case x of (a, w) \<Rightarrow>
     case escalation_step E pc w of (pc1, w1) \<Rightarrow> (Escalation pc1, a, w1))"

text \<open>What a request with an accepted token starts.\<close>

definition from_request :: "activity \<Rightarrow> bool" where
  "from_request act \<longleftrightarrow> (case act of
     Ingest ip parsed pc \<Rightarrow> pc = I_limit | Batch ip parsed pc \<Rightarrow> pc = B_limit | Flow req pc \<Rightarrow> pc = wf_begin req | _ \<Rightarrow> False)"

inductive overlap_step ::
  "'o ext \<Rightarrow> 'o auth_ext \<Rightarrow> activity list \<times> app \<times> 'o world \<Rightarrow> activity list \<times> app \<times> 'o world \<Rightarrow> bool"
  for E :: "'o ext" and A :: "'o auth_ext" where
  arrive: "JWTMiddleware A now token = Inr c \<Longrightarrow> from_request act \<Longrightarrow> overlap_step E A (acts, a, w) (acts @ [act], a, w)"
| tick: "overlap_step E A (acts, a, w) (acts @ [Escalation E_list], a, w)"
| move: "i < length acts \<Longrightarrow> act_step E ev (acts ! i) (a, w) = (act, a', w') \<Longrightarrow>
    overlap_step E A (acts, a, w) (acts[i := act], a', w')"
| request: "brief req \<Longrightarrow> serve E A now token req a w = (ans, a', w') \<Longrightarrow> overlap_step E A (acts, a, w) (acts, a', w')"
| task: "h_tasks (ap_handler a) = pre @ t # post \<Longrightarrow>
    run_task E t (a\<lparr>ap_handler := (ap_handler a)\<lparr>h_tasks := pre @ post\<rparr>\<rparr>) w = (a', w') \<Longrightarrow>
    overlap_step E A (acts, a, w) (acts, a', w')"
| collect_metrics: "collect E (app_queue a) (ap_hub a) (ap_gauges a) w = (g, w') \<Longrightarrow>
    overlap_step E A (acts, a, w) (acts, a\<lparr>ap_gauges := g\<rparr>, w')"
| log_throughput: "logThroughput E (app_queue a) (ap_pool a) (ap_lastProcessed a) w = (l, n, w') \<Longrightarrow>
    overlap_step E A (acts, a, w) (acts, a\<lparr>ap_lastProcessed := n\<rparr>, w')"
| sockets: "hub_step (ap_hub a) h \<Longrightarrow> overlap_step E A (acts, a, w) (acts, a\<lparr>ap_hub := h\<rparr>, w)"
| clean_up: "overlap_step E A (acts, a, w)
    (acts, a\<lparr>ap_handler := (ap_handler a)\<lparr>h_rateLimiter := rl_cleanup t (h_rateLimiter (ap_handler a))\<rparr>\<rparr>, w)"
| time_passes: "overlap_step E A (acts, a, w) (acts, a, w\<lparr>w_env := v\<rparr>)"

definition workers_started :: "app \<Rightarrow> activity list" where
  "workers_started a = replicate (nat (p_workers (ap_pool a))) (Pool_worker Waiting)"

inductive overlap_reach ::
  "'o ext \<Rightarrow> 'o auth_ext \<Rightarrow> (string \<Rightarrow> string) \<Rightarrow> activity list \<times> app \<times> 'o world \<Rightarrow> bool"
  for E :: "'o ext" and A :: "'o auth_ext" and env :: "string \<Rightarrow> string" where
  start: "w_pg w = empty_db \<Longrightarrow> w_mongo w = [] \<Longrightarrow> w_redis w = (\<lambda>_. None) \<Longrightarrow>
    overlap_reach E A env (workers_started (main_app env started), main_app env started, w)"
| step: "overlap_reach E A env x \<Longrightarrow> overlap_step E A x y \<Longrightarrow> overlap_reach E A env y"

subsection \<open>The contract of an activity\<close>

locale guarantee =
  fixes step :: "'e \<Rightarrow> 'p \<Rightarrow> 's \<Rightarrow> 'p \<times> 's"
    and ok :: "'s \<Rightarrow> 'p \<Rightarrow> bool"
    and inv :: "'s \<Rightarrow> bool"
    and grows :: "'s \<Rightarrow> 's \<Rightarrow> bool"
  assumes keeps: "inv s \<Longrightarrow> ok s p \<Longrightarrow> step e p s = (p', s') \<Longrightarrow> inv s' \<and> ok s' p' \<and> grows s s'"
    and stable: "ok s p \<Longrightarrow> grows s s' \<Longrightarrow> ok s' p"
begin

lemma others: "list_all (ok s) ps \<Longrightarrow> grows s s' \<Longrightarrow> list_all (ok s') ps"
  by (auto simp: list_all_iff intro: stable)

lemma one_moves:
  assumes "inv s" and "list_all (ok s) ps" and "i < length ps" and "step e (ps ! i) s = (p', s')"
  shows "inv s' \<and> list_all (ok s') (ps[i := p'])"
proof -
  have "ok s (ps ! i)" using assms(2,3) by (simp add: list_all_length)
  from keeps [OF assms(1) this assms(4)] have new: "inv s'" "ok s' p'" "grows s s'" by auto
  then have "ok s' (ps[i := p'] ! k)" if "k < length ps" for k
    using that others [OF assms(2) new(3)] by (cases "k = i") (auto simp: list_all_length)
  with new(1) show ?thesis by (simp add: list_all_length)
qed

end

subsection \<open>Growth of the tables\<close>

text \<open>What every write guarantees: no work item and no RCA is lost, and closed items stay in order.\<close>

definition db_grows :: "pg_db \<Rightarrow> pg_db \<Rightarrow> bool" where
  "db_grows db db' \<longleftrightarrow> items_kept db db' \<and> rcas_kept db db' \<and> (closed_ok db \<longrightarrow> closed_ok db')"

lemma db_grows_refl [simp]: "db_grows db db"
  by (simp add: db_grows_def)

lemma db_grows_trans: "db_grows a b \<Longrightarrow> db_grows b c \<Longrightarrow> db_grows a c"
  by (auto simp: db_grows_def intro: items_kept_trans rcas_kept_trans)

lemma db_grows_other:
  assumes "other_stmt s" and "apply_stmt s db = Some db'"
  shows "db_grows db db'"
  using assms items_kept_apply [OF assms(2)] closed_ok_other [of db s db'] rcas_kept_run [of db s]
  by (auto simp: db_grows_def apply_stmt_Some_iff)

lemma db_grows_executed:
  assumes "executed S n w w'" and "\<And>s. s \<in> S \<Longrightarrow> other_stmt s"
  shows "db_grows (w_pg w) (w_pg w')"
  using assms(1)
proof (induction n arbitrary: w)
  case 0
  then show ?case by (simp add: same_stores_def)
next
  case (Suc n)
  then obtain v where v: "pg_effect S w v" "executed S n v w'" by auto
  from v(1) obtain s where "s \<in> S" "apply_stmt s (w_pg w) = Some (w_pg v)" by (auto simp: pg_effect_def)
  then have "db_grows (w_pg w) (w_pg v)" using assms(2) db_grows_other by blast
  with Suc.IH [OF v(2)] show ?case by (rule db_grows_trans [rotated])
qed

lemma mild_grows:
  assumes "mild (\<lambda>db. closed_ok db \<and> rcas_kept (w_pg w) db) w w'" and "closed_ok (w_pg w)"
  shows "db_grows (w_pg w) (w_pg w')"
  using assms by (auto simp: mild_def db_grows_def)

subsection \<open>Steps of \<open>Resolve\<close>\<close>

context item_creator
begin

lemma resolve_step_grows:
  assumes "resolve_step E s fn pc (d, w) = (pc', d', w')"
  shows "db_grows (w_pg w) (w_pg w') \<and>
    (\<forall>wi. just_created pc pc' = Some wi \<longrightarrow> apply_stmt (INSERT_work_item wi) (w_pg w) = Some (w_pg w'))"
proof (cases pc)
  case At_create
  obtain r w1 where f: "fn w = (r, w1)" by fastforce
  show ?thesis
  proof (cases r)
    case (Inl e)
    with fn_err [of w e w1] f db_grows_other [of "INSERT_work_item _" "w_pg w" "w_pg w1"]
    have "db_grows (w_pg w) (w_pg w1)" by auto
    with At_create Inl f assms show ?thesis by (auto simp: just_created_def)
  next
    case (Inr p)
    obtain wi x where p: "p = (wi, x)" by (cases p)
    from fn_ok [OF f [unfolded Inr p]] have "db_grows (w_pg w) (w_pg w1)"
        "apply_stmt (INSERT_work_item wi) (w_pg w) = Some (w_pg w1)"
      by (auto intro: db_grows_other [of "INSERT_work_item wi"])
    with At_create Inr p f assms show ?thesis by (auto simp: just_created_def)
  qed
qed (use assms in \<open>auto simp: just_created_def same_stores_def split: option.splits prod.splits if_splits
    dest!: GetDebounceEntry_frame SetDebounceEntry_frame\<close>)

lemma resolve_in_ok:
  assumes "resolve_in E s fn pc (h, w) = (pc', h', w')" and "handler_ok h w" and "pc_ok (w_pg w) (sig_ComponentID s) pc"
  shows "handler_ok h' w' \<and> pc_ok (w_pg w') (sig_ComponentID s) pc' \<and> db_grows (w_pg w) (w_pg w') \<and>
    w_mongo w' = w_mongo w \<and> h_tasks h' = h_tasks h \<and>
    (\<forall>wi. just_created pc pc' = Some wi \<longrightarrow> apply_stmt (INSERT_work_item wi) (w_pg w) = Some (w_pg w'))"
proof -
  obtain d where r: "resolve_step E s fn pc (h_debouncer h, w) = (pc', d, w')" "h' = h\<lparr>h_debouncer := d\<rparr>"
    using assms(1) by (auto simp: resolve_in_def split: prod.splits)
  have "refs_ok (h_debouncer h) w" using assms(2) by (simp add: handler_ok_def)
  from resolve_step_ok [OF r(1) this assms(3)] resolve_step_grows [OF r(1)] assms(2) r(2) show ?thesis
    by (auto simp: handler_ok_def list_all_iff intro: linked_signal_kept)
qed

end

subsection \<open>The invariant and what activities rely on\<close>

definition overlap_inv :: "app \<times> 'o world \<Rightarrow> bool" where
  "overlap_inv x \<longleftrightarrow> parts_ok closed_ok x \<and> distinct (alerted (fst x))"

definition overlap_grows :: "app \<times> 'o world \<Rightarrow> app \<times> 'o world \<Rightarrow> bool" where
  "overlap_grows x y \<longleftrightarrow> db_grows (w_pg (snd x)) (w_pg (snd y))"

primrec ingest_ok :: "pg_db \<Rightarrow> go_error + IngestRequest \<Rightarrow> ingest_pc \<Rightarrow> bool" where
  "ingest_ok db parsed I_limit = True"
| "ingest_ok db parsed (I_check hs) = True"
| "ingest_ok db parsed (I_resolve hs sg created pc) =
     (pc_ok db (sig_ComponentID sg) pc \<and> (\<exists>req. parsed = Inr req \<and> sig_ComponentID sg = ir_ComponentID req))"
| "ingest_ok db parsed (I_enqueue hs sg new) =
     (linked_signal db sg \<and> (\<exists>req. parsed = Inr req \<and> sig_ComponentID sg = ir_ComponentID req))"
| "ingest_ok db parsed (I_done r) = (rsp_status r = StatusAccepted \<longrightarrow>
     (\<exists>req b. parsed = Inr req \<and> rsp_body r = IngestBody b \<and> item_of db (resp_WorkItemID b) (ir_ComponentID req)))"

primrec batch_ok :: "pg_db \<Rightarrow> batch_pc \<Rightarrow> bool" where
  "batch_ok db B_limit = True"
| "batch_ok db (B_next hs reqs results) = True"
| "batch_ok db (B_resolve hs reqs results sg pc) = pc_ok db (sig_ComponentID sg) pc"
| "batch_ok db (B_enqueue hs reqs results sg new) = linked_signal db sg"
| "batch_ok db (B_done r) = True"

primrec holds_linked :: "pg_db \<Rightarrow> worker \<Rightarrow> bool" where
  "holds_linked db Waiting = True"
| "holds_linked db (Writing sg jobs errs) = linked_signal db sg"
| "holds_linked db Stopped = True"

primrec act_ok :: "pg_db \<Rightarrow> activity \<Rightarrow> bool" where
  "act_ok db (Ingest ip parsed pc) = ingest_ok db parsed pc"
| "act_ok db (Batch ip parsed pc) = batch_ok db pc"
| "act_ok db (Flow req pc) = wf_pc_ok db req pc"
| "act_ok db (Pool_worker wk) = holds_linked db wk"
| "act_ok db (Escalation pc) = True"

lemma act_ok_grows:
  assumes "act_ok db act" and "db_grows db db'"
  shows "act_ok db' act"
proof -
  have k: "items_kept db db'" "rcas_kept db db'" using assms(2) by (auto simp: db_grows_def)
  have i: "item_of db i c \<Longrightarrow> item_of db' i c" for i c using k(1) by (simp add: items_kept_def)
  show ?thesis
  proof (cases act)
    case (Ingest ip parsed pc)
    have "ingest_ok db' parsed pc"
      using assms(1) Ingest k i by (cases pc) (auto intro: pc_ok_kept linked_signal_kept)
    with Ingest show ?thesis by simp
  next
    case (Batch ip parsed pc)
    with assms(1) k show ?thesis by (cases pc) (auto intro: pc_ok_kept linked_signal_kept)
  next
    case (Flow req pc)
    with assms(1) k show ?thesis by (simp add: wf_pc_ok_kept)
  next
    case (Pool_worker wk)
    with assms(1) k show ?thesis by (cases wk) (auto intro: linked_signal_kept)
  qed simp
qed

subsection \<open>Ingestion\<close>

text \<open>A step that changes the handler, appends tasks and lets the tables grow.\<close>

lemma handler_step:
  assumes inv: "overlap_inv (a, w)" and h: "handler_ok h w'" and g: "db_grows (w_pg w) (w_pg w')"
    and m: "w_mongo w' = w_mongo w" and ts: "h_tasks h = h_tasks (ap_handler a) @ ts" "list_all (task_ok (w_pg w')) ts"
    and new: "distinct (to_alert ts)" "\<And>i c. i \<in> set (to_alert ts) \<Longrightarrow> \<not> item_of (w_pg w) i c"
  shows "overlap_inv (a\<lparr>ap_handler := h\<rparr>, w') \<and> overlap_grows (a, w) (a\<lparr>ap_handler := h\<rparr>, w')"
proof -
  have ok: "parts_ok closed_ok (a, w)" and d: "distinct (alerted a)" using inv by (auto simp: overlap_inv_def)
  have k: "items_kept (w_pg w) (w_pg w')" "closed_ok (w_pg w')" using g ok by (auto simp: db_grows_def parts_ok_def)
  have "parts_ok closed_ok (a\<lparr>ap_handler := h\<rparr>, w')"
    using ok h m ts k by (auto simp: parts_ok_def list_all_iff intro: linked_signal_kept task_ok_kept alert_ok_kept)
  moreover have "set (alerted a) \<inter> set (to_alert ts) = {}" using new(2) alerted_exists [OF ok] by blast
  then have "distinct (alerted (a\<lparr>ap_handler := h\<rparr>))" using d new(1) ts(1) by (auto simp: alerted_def)
  ultimately show ?thesis using g by (simp add: overlap_inv_def overlap_grows_def)
qed

lemma same_stores_step:
  assumes "overlap_inv (a, w)" and "same_stores w w'" and "h_debouncer h = h_debouncer (ap_handler a)"
    and "h_queue h = h_queue (ap_handler a)" "h_tasks h = h_tasks (ap_handler a)"
  shows "overlap_inv (a\<lparr>ap_handler := h\<rparr>, w') \<and> overlap_grows (a, w) (a\<lparr>ap_handler := h\<rparr>, w')"
proof (rule handler_step [OF assms(1)])
  have "handler_ok (ap_handler a) w" using assms(1) by (simp add: overlap_inv_def parts_ok_def)
  then show "handler_ok h w'" using assms(2-4) by (rule handler_ok_same)
  show "h_tasks h = h_tasks (ap_handler a) @ []" using assms(5) by simp
qed (use assms(2) in \<open>auto simp: same_stores_def\<close>)

lemma enqueue_step:
  assumes inv: "overlap_inv (a, w)" and l: "linked_signal (w_pg w) sg" and t: "TryEnqueue sg (app_queue a) = (ok, q)"
    and h: "h = (ap_handler a)\<lparr>h_queue := q, h_tasks := h_tasks (ap_handler a) @ ts\<rparr>" and ts: "set ts \<subseteq> {IncrementCounter}"
  shows "overlap_inv (a\<lparr>ap_handler := h\<rparr>, w) \<and> overlap_grows (a, w) (a\<lparr>ap_handler := h\<rparr>, w)"
proof (rule handler_step [OF inv])
  have ho: "handler_ok (ap_handler a) w" using inv by (simp add: overlap_inv_def parts_ok_def)
  then have "refs_ok (h_debouncer (ap_handler a)) w" by (simp add: handler_ok_def)
  then show "handler_ok h w" by (rule TryEnqueue_handler [OF ho _ _ t l]) (simp_all add: h)
  have none: "to_alert ts = []" using ts by (intro to_alert_none) auto
  show "distinct (to_alert ts)" "i \<in> set (to_alert ts) \<Longrightarrow> \<not> item_of (w_pg w) i c" for i c by (simp_all add: none)
  show "list_all (task_ok (w_pg w)) ts" using ts by (auto simp: list_all_iff task_ok_def)
qed (simp_all add: h)

context backend
begin

lemma new_signal_frame:
  assumes "validateIngestRequest E req w = (r, w1)" and "uuid_New E w1 = (u, w2)" and "time_Now E w2 = (t, w3)"
  shows "same_stores w w3"
  using validate_frame [OF assms(1)] fresh_ids(2) [OF assms(2,3)] by (rule same_stores_trans)

lemma ingest_step_ok:
  assumes inv: "overlap_inv (a, w)" and ok: "ingest_ok (w_pg w) parsed pc"
    and st: "ingest_step E ip parsed pc (ap_handler a, w) = (pc', h, w')"
  shows "overlap_inv (a\<lparr>ap_handler := h\<rparr>, w') \<and> overlap_grows (a, w) (a\<lparr>ap_handler := h\<rparr>, w') \<and> ingest_ok (w_pg w') parsed pc'"
proof (cases pc)
  case I_limit
  obtain k hs rl w1 where rl: "rate_limit E ip (h_rateLimiter (ap_handler a)) w = ((k, hs), rl, w1)" by (metis surj_pair)
  with I_limit st have o: "h = (ap_handler a)\<lparr>h_rateLimiter := rl\<rparr>" "w' = w1" "ingest_ok (w_pg w') parsed pc'" by auto
  with same_stores_step [OF inv rate_limit_frame [OF rl], of h] show ?thesis by simp
next
  case (I_check hs)
  show ?thesis
  proof (cases parsed)
    case (Inl e)
    with I_check st same_stores_step [OF inv same_stores_refl] show ?thesis by auto
  next
    case (Inr req)
    obtain e rq w1 where v: "validateIngestRequest E req w = ((e, rq), w1)" by (metis surj_pair)
    obtain u w2 t w3 where f: "uuid_New E w1 = (u, w2)" "time_Now E w2 = (t, w3)" by (metis surj_pair)
    have "same_stores w w'" "h = ap_handler a" "ingest_ok (w_pg w') parsed pc'"
      using st I_check Inr v f validate_frame [OF v] new_signal_frame [OF v f] validate_keeps [OF v]
      by (auto simp: NewSignal_def split: option.splits)
    with same_stores_step [OF inv, of w' h] show ?thesis by simp
  qed
next
  case (I_resolve hs sg created rpc)
  have ho: "handler_ok (ap_handler a) w" using inv by (simp add: overlap_inv_def parts_ok_def)
  show ?thesis
  proof (cases "resolve_result rpc")
    case (Some res)
    obtain i new err where r: "rpc = Finished (i, new, err)" using Some by (cases rpc) auto
    with st I_resolve ok have "h = ap_handler a" "w' = w" "ingest_ok (w_pg w') parsed pc'"
      by (auto simp: linked_signal_def attached_def split: option.splits)
    with same_stores_step [OF inv same_stores_refl, of h] show ?thesis by simp
  next
    case None
    obtain pc1 h1 w1 where r: "resolve_in E sg (new_item_single E sg) rpc (ap_handler a, w) = (pc1, h1, w1)" by (metis surj_pair)
    define ts where "ts = (case just_created rpc pc1 of None \<Rightarrow> [] | Some wi \<Rightarrow> [DispatchAlert wi])"
    have o: "w' = w1" "h = h1\<lparr>h_tasks := h_tasks h1 @ ts\<rparr>" "\<exists>cr. pc' = I_resolve hs sg cr pc1"
      using st I_resolve None r by (auto simp: ts_def split: option.splits)
    from ok I_resolve single.resolve_in_ok [OF r ho]
    have R: "handler_ok h1 w1" "pc_ok (w_pg w1) (sig_ComponentID sg) pc1" "db_grows (w_pg w) (w_pg w1)"
        "w_mongo w1 = w_mongo w" "h_tasks h1 = h_tasks (ap_handler a)"
        "\<And>wi. just_created rpc pc1 = Some wi \<Longrightarrow> apply_stmt (INSERT_work_item wi) (w_pg w) = Some (w_pg w1)" by auto
    have "overlap_inv (a\<lparr>ap_handler := h\<rparr>, w') \<and> overlap_grows (a, w) (a\<lparr>ap_handler := h\<rparr>, w')"
    proof (rule handler_step [OF inv, of _ _ ts])
      show "handler_ok h w'" using R(1) o by (auto intro: handler_ok_same [of h1 w1])
      show "list_all (task_ok (w_pg w')) ts" using R(6) o(1) by (auto simp: ts_def created_task_ok split: option.splits)
      show "distinct (to_alert ts)" by (simp add: ts_def split: option.splits)
      show "i \<in> set (to_alert ts) \<Longrightarrow> \<not> item_of (w_pg w) i c" for i c
        using R(6) inserted_is_new by (auto simp: ts_def split: option.splits)
    qed (use R o in auto)
    moreover have "ingest_ok (w_pg w') parsed pc'" using ok I_resolve o R(2) by auto
    ultimately show ?thesis by simp
  qed
next
  case (I_enqueue hs sg new)
  obtain k q where q: "TryEnqueue sg (app_queue a) = (k, q)" by fastforce
  define ts where "ts = (if k then [IncrementCounter] else [])"
  from st I_enqueue q ok have o: "h = (ap_handler a)\<lparr>h_queue := q, h_tasks := h_tasks (ap_handler a) @ ts\<rparr>" "w' = w"
      "ingest_ok (w_pg w') parsed pc'"
    by (auto simp: ts_def accepted_response_def linked_signal_def split: bool.splits)
  from enqueue_step [OF inv _ q o(1)] ok I_enqueue o(2,3) show ?thesis by (auto simp: ts_def)
next
  case (I_done r)
  with st ok same_stores_step [OF inv same_stores_refl, of "ap_handler a"] show ?thesis by auto
qed

end

context backend
begin

lemma batch_step_ok:
  assumes inv: "overlap_inv (a, w)" and ok: "batch_ok (w_pg w) pc"
    and st: "batch_step E ip parsed pc (ap_handler a, w) = (pc', h, w')"
  shows "overlap_inv (a\<lparr>ap_handler := h\<rparr>, w') \<and> overlap_grows (a, w) (a\<lparr>ap_handler := h\<rparr>, w') \<and> batch_ok (w_pg w') pc'"
proof (cases pc)
  case B_limit
  obtain k hs rl w1 where rl: "rate_limit E ip (h_rateLimiter (ap_handler a)) w = ((k, hs), rl, w1)" by (metis surj_pair)
  with B_limit st have o: "h = (ap_handler a)\<lparr>h_rateLimiter := rl\<rparr>" "w' = w1" "batch_ok (w_pg w') pc'"
    by (auto split: sum.splits)
  with same_stores_step [OF inv rate_limit_frame [OF rl], of h] show ?thesis by simp
next
  case (B_next hs reqs results)
  show ?thesis
  proof (cases reqs)
    case Nil
    with B_next st same_stores_step [OF inv same_stores_refl, of "ap_handler a"] show ?thesis by auto
  next
    case (Cons req rest)
    obtain e rq w1 where v: "validateIngestRequest E req w = ((e, rq), w1)" by (metis surj_pair)
    obtain u w2 t w3 where f: "uuid_New E w1 = (u, w2)" "time_Now E w2 = (t, w3)" by (metis surj_pair)
    have "same_stores w w'" "h = ap_handler a" "batch_ok (w_pg w') pc'"
      using st B_next Cons v f validate_frame [OF v] new_signal_frame [OF v f] by (auto split: option.splits)
    with same_stores_step [OF inv, of w' h] show ?thesis by simp
  qed
next
  case (B_resolve hs reqs results sg rpc)
  have ho: "handler_ok (ap_handler a) w" using inv by (simp add: overlap_inv_def parts_ok_def)
  show ?thesis
  proof (cases "resolve_result rpc")
    case (Some res)
    obtain i new err where r: "rpc = Finished (i, new, err)" using Some by (cases rpc) auto
    with st B_resolve ok have "h = ap_handler a" "w' = w" "batch_ok (w_pg w') pc'"
      by (auto simp: linked_signal_def split: option.splits)
    with same_stores_step [OF inv same_stores_refl, of h] show ?thesis by simp
  next
    case None
    obtain pc1 h1 w1 where r: "resolve_in E sg (new_item_batch E sg) rpc (ap_handler a, w) = (pc1, h1, w1)" by (metis surj_pair)
    from st B_resolve None r have o: "h = h1" "w' = w1" "pc' = B_resolve hs reqs results sg pc1" by auto
    from ok B_resolve batch.resolve_in_ok [OF r ho]
    have R: "handler_ok h1 w1" "pc_ok (w_pg w1) (sig_ComponentID sg) pc1" "db_grows (w_pg w) (w_pg w1)"
        "w_mongo w1 = w_mongo w" "h_tasks h1 = h_tasks (ap_handler a)" by auto
    from handler_step [OF inv R(1,3,4), of "[]"] R(2,5) o show ?thesis by simp
  qed
next
  case (B_enqueue hs reqs results sg new)
  obtain k q where q: "TryEnqueue sg (app_queue a) = (k, q)" by fastforce
  define ts where "ts = (if k then [IncrementCounter] else [])"
  from st B_enqueue q have o: "h = (ap_handler a)\<lparr>h_queue := q, h_tasks := h_tasks (ap_handler a) @ ts\<rparr>" "w' = w"
      "batch_ok (w_pg w') pc'"
    by (auto simp: ts_def split: bool.splits)
  from enqueue_step [OF inv _ q o(1)] ok B_enqueue o(2,3) show ?thesis by (auto simp: ts_def)
next
  case (B_done r)
  with st same_stores_step [OF inv same_stores_refl, of "ap_handler a"] show ?thesis by auto
qed

end

subsection \<open>The other activities\<close>

text \<open>A step on the stores alone that keeps the log and the debounce keys.\<close>

lemma stores_step:
  assumes inv: "overlap_inv (a, w)" and g: "db_grows (w_pg w) (w_pg w')" and m: "w_mongo w' = w_mongo w"
    and k: "\<And>c. w_redis w' (debounceKey c) = w_redis w (debounceKey c)"
  shows "overlap_inv (a, w') \<and> overlap_grows (a, w) (a, w')"
proof -
  have "handler_ok (ap_handler a) w" using inv by (simp add: overlap_inv_def parts_ok_def)
  from handler_ok_mono [OF this _ k] g have "handler_ok (ap_handler a) w'" by (simp add: db_grows_def)
  from handler_step [OF inv this g m, of "[]"] show ?thesis by simp
qed

context postgres_service
begin

lemma GetWorkItem_frame: "GetWorkItem E i w = (r, w') \<Longrightarrow> same_stores w w'"
  using GetWorkItem_ok [of i w] GetWorkItem_err [of i w] by (cases r) auto

lemma transition_step_frame:
  assumes "redis_service E" and "transition_step E i st pc w = (pc', w')"
  shows "items_kept (w_pg w) (w_pg w') \<and> w_mongo w' = w_mongo w \<and> w_redis w' (debounceKey c) = w_redis w (debounceKey c)"
proof (cases pc)
  case T_read
  obtain r w1 where g: "GetWorkItem E i w = (r, w1)" by fastforce
  with T_read assms(2) have "w' = w1" by (auto split: sum.splits outcome.splits if_splits)
  with GetWorkItem_frame [OF g] show ?thesis by (simp add: same_stores_def)
next
  case T_precondition
  obtain r w1 where g: "close_precondition E i st w = (r, w1)" by fastforce
  with T_precondition assms(2) have "w' = w1" by (auto split: sum.splits)
  with close_precondition_frame [OF g] show ?thesis by (simp add: same_stores_def)
next
  case (T_update mttr)
  obtain r w1 where u: "UpdateWorkItemState E i st mttr w = (r, w1)" by fastforce
  have "items_kept (w_pg w) (w_pg w1)" using UpdateState_any [OF u] items_kept_run by auto
  with T_update assms(2) u UpdateState_any [OF u] show ?thesis by (auto split: option.splits)
next
  case T_invalidate
  obtain r w1 where i: "InvalidateDashboard E w = (r, w1)" by fastforce
  with T_invalidate assms InvalidateDashboard_frame [OF i] redis_service.Invalidate_any [OF assms(1) i] show ?thesis by auto
next
  case T_reread
  obtain r w1 where g: "GetWorkItem E i w = (r, w1)" by fastforce
  with T_reread assms(2) have "w' = w1" by (auto split: sum.splits)
  with GetWorkItem_frame [OF g] show ?thesis by (simp add: same_stores_def)
qed (use assms in auto)

lemma submit_step_frame:
  assumes "submit_step E rca pc w = (pc', w')"
  shows "items_kept (w_pg w) (w_pg w') \<and> w_mongo w' = w_mongo w \<and> w_redis w' = w_redis w"
proof (cases pc)
  case S_item
  obtain r w1 where g: "GetWorkItem E (rca_WorkItemID rca) w = (r, w1)" by fastforce
  with S_item assms have "w' = w \<or> w' = w1" by (auto split: sum.splits option.splits if_splits)
  with GetWorkItem_frame [OF g] show ?thesis by (auto simp: same_stores_def)
next
  case S_existing
  obtain c e w1 where g: "GetRCAByWorkItemID E (rca_WorkItemID rca) w = ((c, e), w1)" by (metis surj_pair)
  with S_existing assms have "w' = w1" by (auto split: option.splits)
  with GetRCA_frame [OF g] show ?thesis by (simp add: same_stores_def)
next
  case S_insert
  obtain now w1 where n: "time_Now E w = (now, w1)" by fastforce
  obtain r w2 where c: "CreateRCA E (rca\<lparr>rca_SubmittedAt := now\<rparr>) w1 = (r, w2)" by fastforce
  have "w' = w2" using assms S_insert n c by (auto simp: Let_def split: option.splits)
  with CreateRCA_any [OF c] time_Now_frame [OF n] show ?thesis by (auto simp: same_stores_def dest: items_kept_apply)
qed (use assms in auto)

lemma wf_step_frame:
  assumes "redis_service E" and "wf_step E req pc w = (pc', w')"
  shows "items_kept (w_pg w) (w_pg w') \<and> w_mongo w' = w_mongo w \<and> w_redis w' (debounceKey c) = w_redis w (debounceKey c)"
proof (cases "(E, req, pc, w)" rule: wf_step.cases)
  case (1 E' i st tpc v)
  then show ?thesis using assms transition_step_frame by (auto split: prod.splits)
next
  case (2 E' rca spc v)
  then show ?thesis using assms(2) submit_step_frame by (auto split: prod.splits)
qed (use assms in auto)

end

context backend
begin

lemma flow_step_ok:
  assumes inv: "overlap_inv (a, w)" and ok: "wf_pc_ok (w_pg w) req pc" and st: "wf_step E req pc w = (pc', w')"
  shows "overlap_inv (a, w') \<and> overlap_grows (a, w) (a, w') \<and> wf_pc_ok (w_pg w') req pc'"
proof -
  have "closed_ok (w_pg w)" using inv by (simp add: overlap_inv_def parts_ok_def)
  note S = pg.wf_step_ok [OF st this ok] and F = pg.wf_step_frame [OF rd.redis_service_axioms st]
  have "db_grows (w_pg w) (w_pg w')" using S F by (simp add: db_grows_def)
  with stores_step [OF inv this] F S show ?thesis by simp
qed

lemma escalation_step_ok:
  assumes inv: "overlap_inv (a, w)" and st: "escalation_step E pc w = (pc', w')"
  shows "overlap_inv (a, w') \<and> overlap_grows (a, w) (a, w')"
proof -
  have "db_grows (w_pg w) (w_pg w') \<and> w_mongo w' = w_mongo w \<and> (\<forall>c. w_redis w' (debounceKey c) = w_redis w (debounceKey c))"
  proof (cases pc)
    case E_list
    obtain items e w1 now w2 where l: "ListActiveWorkItems E w = ((items, e), w1)" "time_Now E w1 = (now, w2)" by (metis surj_pair)
    with E_list st pg.query_items_frame [OF l(1) [unfolded ListActiveWorkItems_def]] time_Now_frame [OF l(2)] show ?thesis
      by (auto simp: same_stores_def split: option.splits)
  next
    case (E_loop now items n)
    have upd: "db_grows (w_pg w) (w_pg w1) \<and> w_mongo w1 = w_mongo w \<and> w_redis w1 = w_redis w"
      if "UpdateWorkItemSeverity E i sv w = (r, w1)" for i sv r w1
      using pg.UpdateSeverity_any [OF that] db_grows_other [of "UPDATE_severity sv _ i" "w_pg w" "w_pg w1"]
      by (auto simp: apply_stmt_Some_iff)
    with E_loop st show ?thesis by (auto simp: Let_def split: list.splits if_splits prod.splits option.splits)
  next
    case (E_invalidate now items n)
    obtain r w1 where i: "InvalidateDashboard E w = (r, w1)" by fastforce
    with E_invalidate st InvalidateDashboard_frame [OF i] rd.Invalidate_any [OF i] show ?thesis by auto
  qed (use st in auto)
  then show ?thesis using stores_step [OF inv] by blast
qed

end

subsection \<open>Workers\<close>

lemma overlap_inv_pool [simp]: "overlap_inv (a\<lparr>ap_pool := p\<rparr>, w) = overlap_inv (a, w)"
  by (simp add: overlap_inv_def parts_ok_def alerted_def)

lemma dequeue_step:
  assumes inv: "overlap_inv (a, w)" and q: "Consume (app_queue a) = Some (sg, q)"
  shows "overlap_inv (a\<lparr>ap_handler := (ap_handler a)\<lparr>h_queue := q\<rparr>\<rparr>, w) \<and> linked_signal (w_pg w) sg"
proof -
  let ?h = "ap_handler a"
  have ho: "handler_ok ?h w" using inv by (simp add: overlap_inv_def parts_ok_def)
  from Consume_Some [OF q] have c: "q_ch (h_queue ?h) = sg # q_ch q" "q = (h_queue ?h)\<lparr>q_ch := q_ch q\<rparr>" by auto
  have "q_capacity q = q_capacity (h_queue ?h)" using arg_cong [OF c(2), of q_capacity] by simp
  with ho c(1) have h: "handler_ok (?h\<lparr>h_queue := q\<rparr>) w" "linked_signal (w_pg w) sg"
    by (auto simp: handler_ok_def Len_def Cap_def)
  from handler_step [OF inv h(1), of "[]"] h(2) show ?thesis by simp
qed

lemma log_step:
  assumes "overlap_inv (a, w)" and "linked_signal (w_pg w) d" "\<not> has_row sig_ID (sig_ID d) (w_mongo w)"
    and "w_pg w' = w_pg w" "w_redis w' = w_redis w" "w_mongo w' = w_mongo w @ [d]"
  shows "overlap_inv (a, w')"
proof -
  have "handler_ok (ap_handler a) w" using assms(1) by (simp add: overlap_inv_def parts_ok_def)
  then have "handler_ok (ap_handler a) w'" by (rule handler_ok_mono) (simp_all add: assms)
  with assms show ?thesis by (auto simp: overlap_inv_def parts_ok_def has_row_iff)
qed

context backend
begin

lemma run_job_grows:
  assumes "run_job E sg job errs w = (errs', w')" and "job \<noteq> Mongo_job"
  shows "db_grows (w_pg w) (w_pg w') \<and> w_mongo w' = w_mongo w \<and> w_redis w' = w_redis w"
proof (cases job)
  case Count_job
  obtain r w1 where c: "IncrementSignalCount E (sig_WorkItemID sg) w = (r, w1)" by fastforce
  from pg.IncrementSignalCount_any [OF c] obtain n
    where n: "executed (range (\<lambda>now. UPDATE_signal_count now (sig_WorkItemID sg))) n w w1" by blast
  have "db_grows (w_pg w) (w_pg w1)" by (rule db_grows_executed [OF n]) auto
  with assms(1) Count_job c executed_frame [OF n] show ?thesis
    by (auto simp: run_job_def split: if_splits option.splits)
next
  case Series_job
  then have w': "w' = writeTimeseries E sg w" using assms(1) by (simp add: run_job_def)
  obtain b where eff: "w_pg w' = w_pg w \<or>
        apply_stmt (UPSERT_timeseries b (sig_ComponentID sg) (sig_ComponentType sg) (sig_Severity sg)) (w_pg w) = Some (w_pg w')"
      "w_mongo w' = w_mongo w" "w_redis w' = w_redis w"
    unfolding w' by (rule writeTimeseries_any)
  from eff(1) have "db_grows (w_pg w) (w_pg w')" by (auto intro: db_grows_other [rotated])
  with eff show ?thesis by simp
qed (use assms in simp)

lemma run_job_ok:
  assumes inv: "overlap_inv (a, w)" and l: "linked_signal (w_pg w) sg" and r: "run_job E sg job errs w = (errs', w')"
  shows "overlap_inv (a, w') \<and> overlap_grows (a, w) (a, w')"
proof (cases "job = Mongo_job")
  case True
  from mongo_job [OF r [unfolded True]] have f: "w_pg w' = w_pg w" "w_redis w' = w_redis w"
      "w_mongo w' = w_mongo w \<or> \<not> has_row sig_ID (sig_ID sg) (w_mongo w) \<and> w_mongo w' = w_mongo w @ [x_bson E sg]"
    by (auto simp: logged_def Let_def)
  have b: "linked_signal (w_pg w) (x_bson E sg)" "sig_ID (x_bson E sg) = sig_ID sg"
    using l mg.bson_fields by (simp_all add: linked_signal_def)
  from f(3) show ?thesis
  proof (elim disjE conjE)
    assume "w_mongo w' = w_mongo w"
    with stores_step [OF inv, of w'] f(1,2) show ?thesis by simp
  next
    assume "\<not> has_row sig_ID (sig_ID sg) (w_mongo w)" "w_mongo w' = w_mongo w @ [x_bson E sg]"
    with log_step [OF inv b(1) _ f(1,2)] b(2) f(1) show ?thesis by (simp add: overlap_grows_def)
  qed
next
  case False
  from run_job_grows [OF r False] stores_step [OF inv, of w'] show ?thesis by simp
qed

lemma worker_step_ok:
  assumes inv: "overlap_inv (a, w)" and ok: "holds_linked (w_pg w) wk"
    and st: "worker_step E ev wk (app_queue a) (ap_pool a) w = Some (wk', q, p, w')"
  shows "overlap_inv (a\<lparr>ap_handler := (ap_handler a)\<lparr>h_queue := q\<rparr>, ap_pool := p\<rparr>, w') \<and>
    overlap_grows (a, w) (a\<lparr>ap_handler := (ap_handler a)\<lparr>h_queue := q\<rparr>, ap_pool := p\<rparr>, w') \<and> holds_linked (w_pg w') wk'"
proof -
  note defs = worker_step_def solo_def worker_at_def set_worker_def
  have same: "q = app_queue a \<Longrightarrow> (ap_handler a)\<lparr>h_queue := q\<rparr> = ap_handler a" by simp
  show ?thesis
  proof (cases ev)
    case W_stop
    with st inv show ?thesis by (auto simp: defs overlap_grows_def split: worker.splits)
  next
    case W_take
    with st have "w' = w" "p = ap_pool a" "\<exists>sg jobs errs. Consume (app_queue a) = Some (sg, q) \<and> wk' = Writing sg jobs errs"
      by (auto simp: defs split: worker.splits option.splits)
    with dequeue_step [OF inv] show ?thesis by (auto simp: overlap_grows_def)
  next
    case (W_write job)
    with st obtain sg jobs errs errs1 where j: "wk = Writing sg jobs errs" "run_job E sg job errs w = (errs1, w')"
        "wk' = Writing sg (remove1 job jobs) errs1" "q = app_queue a" "p = ap_pool a"
      by (auto simp: defs split: worker.splits if_splits prod.splits)
    have l: "linked_signal (w_pg w) sg" using ok j(1) by simp
    note R = run_job_ok [OF inv l j(2)]
    then have "linked_signal (w_pg w') sg" using l by (auto simp: overlap_grows_def db_grows_def intro: linked_signal_kept)
    with R j(3,4,5) show ?thesis by simp
  next
    case W_finish
    with st inv show ?thesis by (auto simp: defs overlap_grows_def split: worker.splits list.splits)
  qed
qed

end

subsection \<open>Every activity keeps the contract\<close>

lemma wf_begin_ok: "wf_pc_ok db req (wf_begin req)"
  by (cases req) simp_all

context backend
begin

lemma act_step_ok:
  assumes inv: "overlap_inv x" and ok: "act_ok (w_pg (snd x)) act" and st: "act_step E ev act x = (act', x')"
  shows "overlap_inv x' \<and> act_ok (w_pg (snd x')) act' \<and> overlap_grows x x'"
proof -
  obtain a w where x: "x = (a, w)" by (cases x)
  note inv = inv [unfolded x]
  show ?thesis
  proof (cases act)
    case (Ingest ip parsed pc)
    with st ok x ingest_step_ok [OF inv] show ?thesis by (auto split: prod.splits)
  next
    case (Batch ip parsed pc)
    with st ok x batch_step_ok [OF inv] show ?thesis by (auto split: prod.splits)
  next
    case (Flow req pc)
    with st ok x flow_step_ok [OF inv] show ?thesis by (auto split: prod.splits)
  next
    case (Pool_worker wk)
    with st ok x inv worker_step_ok [OF inv] show ?thesis
      by (auto simp: overlap_grows_def [of "(a, w)" "(a, w)"] split: option.splits prod.splits)
  next
    case (Escalation pc)
    with st ok x escalation_step_ok [OF inv] show ?thesis by (auto split: prod.splits)
  qed
qed

end

sublocale backend \<subseteq> acts: guarantee "act_step E" "\<lambda>x. act_ok (w_pg (snd x))" overlap_inv overlap_grows
  by unfold_locales (auto simp: overlap_grows_def dest: act_step_ok intro: act_ok_grows)

definition overlap_ok :: "activity list \<times> app \<times> 'o world \<Rightarrow> bool" where
  "overlap_ok s \<longleftrightarrow> overlap_inv (snd s) \<and> list_all (act_ok (w_pg (snd (snd s)))) (fst s)"

context backend
begin

text \<open>What does not change work items or RCAs.\<close>

lemma mild_step:
  fixes w w' :: "'o world"
  assumes "overlap_ok (acts, a, w)" and "parts_ok (\<lambda>db. closed_ok db \<and> rcas_kept (w_pg w) db) (a', w')"
    and "mild (\<lambda>db. closed_ok db \<and> rcas_kept (w_pg w) db) w w'" and "distinct (alerted a')"
  shows "overlap_ok (acts, a', w')"
proof -
  have "closed_ok (w_pg w)" using assms(1) by (simp add: overlap_ok_def overlap_inv_def parts_ok_def)
  with mild_grows [OF assms(3)] have "overlap_grows (a, w) (a', w')" by (simp add: overlap_grows_def)
  moreover have "overlap_inv (a', w')" using assms(2,4) by (auto simp: overlap_inv_def parts_ok_def)
  ultimately show ?thesis using assms(1) acts.others [of "(a, w)" acts "(a', w')"] by (simp add: overlap_ok_def)
qed

lemma parts_now:
  "overlap_ok (acts, a, w) \<Longrightarrow> parts_ok (\<lambda>db. closed_ok db \<and> rcas_kept (w_pg w) db) (a, w) \<and> distinct (alerted a)"
  by (auto simp: overlap_ok_def overlap_inv_def parts_ok_def)

lemma quiet_step:
  fixes w w' :: "'o world"
  assumes "overlap_ok (acts, a, w)" and "same_stores w w'" and "ap_handler a' = ap_handler a" "ap_alerts a' = ap_alerts a"
    "ap_users a' = ap_users a" "hub_ok (ap_hub a')"
  shows "overlap_ok (acts, a', w')"
proof (rule mild_step [OF assms(1)])
  show m: "mild (\<lambda>db. closed_ok db \<and> rcas_kept (w_pg w) db) w w'" by (rule same_stores_mild [OF assms(2)])
  note P = parts_now [OF assms(1)]
  then have "users_ok (ap_users a)" by (auto simp: parts_ok_def)
  with P assms show "parts_ok (\<lambda>db. closed_ok db \<and> rcas_kept (w_pg w) db) (a', w')"
    by (intro parts_ok_mild [OF _ m]) auto
  show "distinct (alerted a')" using P assms by (simp add: alerted_def)
qed

lemma overlap_ok_step:
  assumes "overlap_step E A x y" and ok: "overlap_ok x"
  shows "overlap_ok y"
  using assms(1)
proof cases
  case (arrive now token c act acts a w)
  have "act_ok db act" for db using arrive(4) by (auto simp: from_request_def wf_begin_ok split: activity.splits)
  with arrive ok show ?thesis by (simp add: overlap_ok_def)
next
  case (tick acts a w)
  with ok show ?thesis by (simp add: overlap_ok_def)
next
  case (move i acts ev a w act a' w')
  with ok acts.one_moves [of "(a, w)" acts i ev act "(a', w')"] show ?thesis by (simp add: overlap_ok_def)
next
  case (request req now token a w ans a' w' acts)
  have ok': "overlap_ok (acts, a, w)" using ok request(1) by simp
  note P = parts_now [OF ok']
  have "w' = w \<and> a' = a \<or> route E A req a w = (ans, a', w')"
    using request(4) by (auto simp: serve_def split: if_splits sum.splits)
  then show ?thesis
  proof
    assume R: "route E A req a w = (ans, a', w')"
    have "parts_ok (\<lambda>db. closed_ok db \<and> rcas_kept (w_pg w) db) (a', w') \<and>
        mild (\<lambda>db. closed_ok db \<and> rcas_kept (w_pg w) db) w w'"
      using P by (intro parts_ok_brief [OF _ R request(3)]) simp
    with mild_step [OF ok'] brief_alerted [OF request(3) R] P request(2) show ?thesis by simp
  qed (use ok request in simp)
next
  case (task a pre t post w a' w' acts)
  have ok': "overlap_ok (acts, a, w)" using ok task(1) by simp
  note P = parts_now [OF ok']
  then have "parts_ok (\<lambda>db. closed_ok db \<and> rcas_kept (w_pg w) db) (a', w') \<and>
      mild (\<lambda>db. closed_ok db \<and> rcas_kept (w_pg w) db) w w'"
    by (intro parts_ok_task [OF _ task(3,4)]) simp
  with mild_step [OF ok'] run_task_alerted [OF _ task(3,4)] P task(2) show ?thesis by simp
next
  case (collect_metrics a w g w' acts)
  have "hub_ok (ap_hub a)" using parts_now [of acts a w] ok collect_metrics(1) by (auto simp: parts_ok_def)
  with quiet_step [OF _ collect_frame [OF collect_metrics(3)]] ok collect_metrics(1,2) show ?thesis by simp
next
  case (log_throughput a w l n w' acts)
  have "hub_ok (ap_hub a)" using parts_now [of acts a w] ok log_throughput(1) by (auto simp: parts_ok_def)
  with quiet_step [OF _ logThroughput_frame [OF log_throughput(3)]] ok log_throughput(1,2) show ?thesis by simp
next
  case (sockets a h acts w)
  have "hub_ok h" using parts_now [of acts a w] ok sockets hub_ok_step by (auto simp: parts_ok_def)
  with quiet_step [OF _ same_stores_refl] ok sockets(1,2) show ?thesis by simp
next
  case (clean_up acts a w t)
  with ok show ?thesis by (auto simp: overlap_ok_def overlap_inv_def parts_ok_def handler_ok_def alerted_def)
next
  case (time_passes acts a w v)
  have "hub_ok (ap_hub a)" using parts_now [of acts a w] ok time_passes(1) by (auto simp: parts_ok_def)
  with quiet_step [of acts a w "w\<lparr>w_env := v\<rparr>" a] ok time_passes(1,2) show ?thesis by (simp add: same_stores_def)
qed

lemma overlap_ok_reach: "overlap_reach E A env s \<Longrightarrow> overlap_ok s"
proof (induction rule: overlap_reach.induct)
  case (start w started)
  have "alerted (main_app env started) = []" by (simp add: alerted_def main_app_def Let_def NewHandler_def)
  moreover have "parts_ok closed_ok (main_app env started, w)"
    using start lifecycle_closed [OF lifecycle_empty] by (intro parts_ok_start)
  ultimately show ?case
    by (simp add: overlap_ok_def overlap_inv_def workers_started_def list_all_iff)
next
  case (step x y)
  then show ?case by (blast intro: overlap_ok_step)
qed

end

subsection \<open>Schedules\<close>

text \<open>The activities move in a given order.\<close>

fun act_moves :: "'o ext \<Rightarrow> (nat \<times> worker_event) list \<Rightarrow> activity list \<times> app \<times> 'o world \<Rightarrow> activity list \<times> app \<times> 'o world" where
  "act_moves E [] s = s"
| "act_moves E ((i, ev) # ms) (acts, a, w) =
     (if i < length acts
      then (case act_step E ev (acts ! i) (a, w) of (act, x) \<Rightarrow> act_moves E ms (acts[i := act], x))
      else act_moves E ms (acts, a, w))"

lemma act_moves_reach: "overlap_reach E A env s \<Longrightarrow> overlap_reach E A env (act_moves E ms s)"
proof (induction E ms s rule: act_moves.induct)
  case (2 E i ev ms acts a w)
  obtain act a' w' where st: "act_step E ev (acts ! i) (a, w) = (act, a', w')" by (metis surj_pair)
  show ?case
  proof (cases "i < length acts")
    case True
    with 2 st overlap_reach.step [OF 2(3) overlap_step.move [OF True st]] show ?thesis by simp
  qed (use 2 in simp)
qed simp

text \<open>An ingestion, with a check of the escalator between its steps, and the worker that logs the signal.\<close>

definition ex_overlap_env :: "string \<Rightarrow> string" where
  "ex_overlap_env k = (if k = ''QUEUE_CAPACITY'' then ''8'' else if k = ''WORKER_COUNT'' then ''1'' else [])"

definition ex_overlap :: "activity list \<times> app \<times> ref_o world" where
  "ex_overlap =
     (let a = main_app ex_overlap_env 0
      in act_moves ref_env
        (map (\<lambda>i. (i, W_stop)) [1, 1, 1, 1, 1, 2, 1, 2, 1, 2, 1, 1] @ [(0, W_take), (0, W_write Mongo_job)])
        ((workers_started a @ [Ingest ''ip'' (Inr ex_request) I_limit]) @ [Escalation E_list], a, ref_world 5 []))"

lemma ex_overlap_reach: "overlap_reach ref_env ref_auth ex_overlap_env ex_overlap"
proof -
  let ?a = "main_app ex_overlap_env 0"
  have "\<not> isl (JWTMiddleware ref_auth 0 ex_token)" by code_simp
  then obtain c where c: "JWTMiddleware ref_auth 0 ex_token = Inr c" by (cases "JWTMiddleware ref_auth 0 ex_token") auto
  have "overlap_reach ref_env ref_auth ex_overlap_env (workers_started ?a, ?a, ref_world 5 [])"
    by (rule overlap_reach.start) (simp_all add: ref_world_def)
  then have "overlap_reach ref_env ref_auth ex_overlap_env
      (workers_started ?a @ [Ingest ''ip'' (Inr ex_request) I_limit], ?a, ref_world 5 [])"
    by (rule overlap_reach.step) (rule overlap_step.arrive [OF c], simp add: from_request_def)
  then have "overlap_reach ref_env ref_auth ex_overlap_env
      ((workers_started ?a @ [Ingest ''ip'' (Inr ex_request) I_limit]) @ [Escalation E_list], ?a, ref_world 5 [])"
    by (rule overlap_reach.step) (rule overlap_step.tick)
  then show ?thesis unfolding ex_overlap_def Let_def by (rule act_moves_reach)
qed

subsection \<open>Properties\<close>



end
