(* ===== verification/Routes.thy ===== *)
theory Routes
  imports System
begin

text \<open>
  The route table of \<open>SetupRoutes\<close> in \<open>api/router.go\<close>, as data in the order of registration. Fiber decides
  which entries match a path, runs the matching middlewares in that order and the first matching
  route; its matching is a parameter, and the locale \<open>fiber_router\<close> states what the table relies on. The
  theory shows that the guard of \<open>System.serve\<close> is the one of the table.
\<close>

subsection \<open>The table\<close>

datatype http_method = GET | HEAD | POST | PATCH | DELETE | OPTIONS

datatype middleware = Recover | Cors | Access_log | Upgrade_check | Jwt | Set_hub

datatype endpoint =
    Health_end | Metrics_end | Signup_end | Login_end | HandleWS_end_point
  | IngestSignal_end | IngestBatch_end | GetSignals_end
  | ListWorkItems_end | GetWorkItem_end | TransitionWorkItem_end
  | SubmitRCA_end | GetRCA_end | GetDashboard_end

datatype entry = Use string middleware | Route http_method string endpoint

definition api_group :: string where
  "api_group = ''/api/v1''"

definition routes :: "entry list" where
  "routes =
     [Use ''/'' Recover, Use ''/'' Cors, Use ''/'' Access_log,
      Route GET ''/health'' Health_end,
      Route GET ''/metrics'' Metrics_end,
      Route POST ''/api/v1/auth/signup'' Signup_end,
      Route POST ''/api/v1/auth/login'' Login_end,
      Use ''/ws'' Upgrade_check,
      Route GET ''/ws/incidents'' HandleWS_end_point,
      Use api_group Jwt,
      Route POST (api_group @ ''/signals'') IngestSignal_end,
      Route POST (api_group @ ''/signals/batch'') IngestBatch_end,
      Route GET (api_group @ ''/signals/:work_item_id'') GetSignals_end,
      Route GET (api_group @ ''/workitems'') ListWorkItems_end,
      Route GET (api_group @ ''/workitems/:id'') GetWorkItem_end,
      Route PATCH (api_group @ ''/workitems/:id/transition'') TransitionWorkItem_end,
      Route POST (api_group @ ''/workitems/:id/rca'') SubmitRCA_end,
      Route GET (api_group @ ''/workitems/:id/rca'') GetRCA_end,
      Route GET (api_group @ ''/dashboard'') GetDashboard_end,
      Use ''/'' Set_hub]"

subsection \<open>Matching\<close>

record router =
  rt_route :: "http_method \<Rightarrow> string \<Rightarrow> http_method \<Rightarrow> string \<Rightarrow> bool"
  rt_under :: "string \<Rightarrow> string \<Rightarrow> bool"

text \<open>The middlewares on the way, each of which may call \<open>Next\<close>, and the route at the end, if any.\<close>

fun chain :: "router \<Rightarrow> http_method \<Rightarrow> string \<Rightarrow> entry list \<Rightarrow> middleware list \<times> endpoint option" where
  "chain R m path [] = ([], None)"
| "chain R m path (Use p mw # es) =
     (if rt_under R p path then (case chain R m path es of (ms, ep) \<Rightarrow> (mw # ms, ep)) else chain R m path es)"
| "chain R m path (Route m' pat ep # es) =
     (if rt_route R m' pat m path then ([], Some ep) else chain R m path es)"

text \<open>
  What the table relies on: a middleware at the root matches every path, one at the prefix of a group
  matches the paths of the routes of the group, and \<open>/ws\<close> and \<open>/api/v1\<close> have no path in common.
\<close>

locale fiber_router =
  fixes R :: router
  assumes root: "rt_under R ''/'' path"
    and group: "CHR '':'' \<notin> set p \<Longrightarrow> rt_route R m' (p @ CHR ''/'' # q) m path \<Longrightarrow> rt_under R p path"
    and apart: "rt_under R api_group path \<Longrightarrow> \<not> rt_under R ''/ws'' path"

subsection \<open>Running the chain\<close>

text \<open>
  \<open>JWTMiddleware\<close> and the check of the upgrade may answer themselves; the others call \<open>Next\<close> for the
  methods of the table (CORS answers a preflight request, an OPTIONS, itself).
\<close>

fun run_chain ::
  "'o ext \<Rightarrow> 'o auth_ext \<Rightarrow> go_time \<Rightarrow> string \<Rightarrow> middleware list \<Rightarrow> request \<Rightarrow> app \<Rightarrow> 'o world \<Rightarrow> answer \<times> app \<times> 'o world" where
  "run_chain E A now token [] req a w = route E A req a w"
| "run_chain E A now token (mw # ms) req a w =
     (case mw of
        Jwt \<Rightarrow>
          (case JWTMiddleware A now token of
             Inl r \<Rightarrow> (Answer r, a, w)
           | Inr c \<Rightarrow> run_chain E A now token ms req a w)
      | Upgrade_check \<Rightarrow>
          (case req of
             Get_ws upgrade \<Rightarrow>
               if upgrade then run_chain E A now token ms req a w else (Answer (ErrorHandler ErrUpgradeRequired), a, w)
           | _ \<Rightarrow> (Answer (ErrorHandler ErrUpgradeRequired), a, w))
      | _ \<Rightarrow> run_chain E A now token ms req a w)"

primrec endpoint_of :: "request \<Rightarrow> endpoint" where
  "endpoint_of (Get_health p) = Health_end"
| "endpoint_of Get_metrics = Metrics_end"
| "endpoint_of (Post_signup p) = Signup_end"
| "endpoint_of (Post_login p) = Login_end"
| "endpoint_of (Get_ws u) = HandleWS_end_point"
| "endpoint_of (Post_signals ip p) = IngestSignal_end"
| "endpoint_of (Post_signals_batch ip p) = IngestBatch_end"
| "endpoint_of (Get_signals i) = GetSignals_end"
| "endpoint_of Get_workitems = ListWorkItems_end"
| "endpoint_of (Get_workitem i) = GetWorkItem_end"
| "endpoint_of (Patch_transition i p) = TransitionWorkItem_end"
| "endpoint_of (Post_rca i p) = SubmitRCA_end"
| "endpoint_of (Get_rca i) = GetRCA_end"
| "endpoint_of Get_dashboard = GetDashboard_end"

subsection \<open>What precedes an endpoint\<close>

fun ends :: "entry list \<Rightarrow> endpoint list" where
  "ends [] = []"
| "ends (Use p mw # es) = ends es"
| "ends (Route m p ep # es) = ep # ends es"

fun passed :: "router \<Rightarrow> string \<Rightarrow> endpoint \<Rightarrow> entry list \<Rightarrow> middleware list" where
  "passed R path ep [] = []"
| "passed R path ep (Use p mw # es) = (if rt_under R p path then [mw] else []) @ passed R path ep es"
| "passed R path ep (Route m p ep' # es) = (if ep' = ep then [] else passed R path ep es)"

lemma chain_passed:
  "chain R m path es = (ms, Some ep) \<Longrightarrow> distinct (ends es) \<Longrightarrow>
     ep \<in> set (ends es) \<and> ms = passed R path ep es \<and> (\<exists>m' pat. Route m' pat ep \<in> set es \<and> rt_route R m' pat m path)"
proof (induction es arbitrary: ms rule: ends.induct)
  case (2 p mw es)
  obtain ms1 e where c: "chain R m path es = (ms1, e)" by fastforce
  with 2(2) have "e = Some ep" "ms = (if rt_under R p path then [mw] else []) @ ms1" by (auto split: if_splits)
  with 2(1) [of ms1] 2(3) c show ?case by auto
next
  case (3 m' pat ep' es)
  show ?case
  proof (cases "rt_route R m' pat m path")
    case True
    with 3(2) show ?thesis by auto
  next
    case False
    with 3(1) [of ms] 3(2,3) show ?thesis by auto
  qed
qed simp

lemma routes_distinct: "distinct (ends routes)"
  by (simp add: routes_def)

context fiber_router
begin

lemma chain_guarded:
  assumes "chain R m path routes = (ms, Some (endpoint_of req))"
  shows "ms = [Recover, Cors, Access_log] @ (case req of Get_ws u \<Rightarrow> [Upgrade_check] | _ \<Rightarrow> if protected req then [Jwt] else [])"
proof -
  from chain_passed [OF assms routes_distinct] obtain m' pat where
      ms: "ms = passed R path (endpoint_of req) routes" and
      r: "Route m' pat (endpoint_of req) \<in> set routes" "rt_route R m' pat m path" by blast
  have api: "rt_under R api_group path" if "pat = api_group @ CHR ''/'' # q" for q
    by (rule group [of api_group m' q m]) (use r(2) that in \<open>simp_all add: api_group_def\<close>)
  have ws: "rt_under R ''/ws'' path" if "pat = ''/ws/incidents''"
    by (rule group [of "''/ws''" m' "''incidents''" m]) (use r(2) that in simp_all)
  show ?thesis
    using r(1) ms root [of path] api ws apart [of path] by (cases req) (auto simp: routes_def)
qed

lemma run_chain_serve:
  assumes "chain R m path routes = (ms, Some (endpoint_of req))"
  shows "run_chain E A now token ms req a w = serve E A now token req a w"
  using chain_guarded [OF assms] by (cases req) (simp_all add: serve_def split: sum.splits)

end

subsection \<open>A concrete router\<close>

text \<open>A parameter \<open>:name\<close> matches a non-empty segment, everything else itself; a prefix is one of the text.\<close>

abbreviation segment :: "string \<Rightarrow> string" where
  "segment \<equiv> takeWhile (\<lambda>c. c \<noteq> CHR ''/'')"

abbreviation after_segment :: "string \<Rightarrow> string" where
  "after_segment \<equiv> dropWhile (\<lambda>c. c \<noteq> CHR ''/'')"

function full_match :: "string \<Rightarrow> string \<Rightarrow> bool" where
  "full_match [] path = (path = [])"
| "full_match (c # p) path =
     (if c = CHR '':''
      then segment path \<noteq> [] \<and> full_match (after_segment p) (after_segment path)
      else (case path of [] \<Rightarrow> False | d # ds \<Rightarrow> c = d \<and> full_match p ds))"
  by pat_completeness auto
termination
  by (relation "measure (\<lambda>(p, path). length p)") (auto simp: less_Suc_eq_le length_dropWhile_le)

definition segment_router :: router where
  "segment_router = \<lparr>rt_route = (\<lambda>m' pat m path. m' = m \<and> full_match pat path),
     rt_under = (\<lambda>p path. p = ''/'' \<or> take (length p) path = p)\<rparr>"

lemma full_match_prefix: "CHR '':'' \<notin> set p \<Longrightarrow> full_match (p @ q) path \<Longrightarrow> take (length p) path = p"
  by (induction p arbitrary: path) (auto split: list.splits)

interpretation seg: fiber_router segment_router
proof
  fix p q path :: string and m m' :: http_method
  show "rt_under segment_router ''/'' path" by (simp add: segment_router_def)
  assume "CHR '':'' \<notin> set p" and "rt_route segment_router m' (p @ CHR ''/'' # q) m path"
  then show "rt_under segment_router p path"
    using full_match_prefix [of p "CHR ''/'' # q" path] by (simp add: segment_router_def)
next
  fix path :: string
  show "\<not> rt_under segment_router ''/ws'' path" if "rt_under segment_router api_group path"
  proof
    assume "rt_under segment_router ''/ws'' path"
    then have "take 3 path = ''/ws''" by (simp add: segment_router_def numeral_eq_Suc)
    moreover from that have "take 7 path = ''/api/v1''" by (simp add: segment_router_def api_group_def numeral_eq_Suc)
    then have "take 3 (take 7 path) = ''/ap''" by simp
    then have "take 3 path = ''/ap''" by (simp only: take_take) simp
    ultimately show False by simp
  qed
qed

subsection \<open>Properties\<close>

text \<open>
  C7. The guard follows from the order of registration. When a request reaches the endpoint of a route of
  the table, by whatever path, the middlewares that ran before it begin with the recovery of panics, contain the JWT
  middleware exactly when the route is one of the protected ones, and never the one that stores the hub;
  running them and then the handler is what \<open>serve\<close> does.
\<close>

theorem routes_guard:
  assumes "fiber_router R" and "chain R m path routes = (ms, Some (endpoint_of req))"
  shows "(\<exists>ms'. ms = Recover # ms') \<and> (Jwt \<in> set ms \<longleftrightarrow> protected req) \<and> Set_hub \<notin> set ms \<and>
    run_chain E A now token ms req a w = serve E A now token req a w"
proof -
  have "run_chain E A now token ms req a w = serve E A now token req a w"
    by (rule fiber_router.run_chain_serve [OF assms])
  moreover have "(\<exists>ms'. ms = Recover # ms') \<and> (Jwt \<in> set ms \<longleftrightarrow> protected req) \<and> Set_hub \<notin> set ms"
    using fiber_router.chain_guarded [OF assms] by (cases req) simp_all
  ultimately show ?thesis by blast
qed

theorem routes_guard_witness:
  "\<exists>ms. chain segment_router PATCH ''/api/v1/workitems/w1/transition'' routes = (ms, Some TransitionWorkItem_end) \<and>
     Jwt \<in> set ms \<and> Set_hub \<notin> set ms"
proof -
  let ?req = "Patch_transition ''w1'' (Inr StateClosed)"
  let ?chain = "chain segment_router PATCH ''/api/v1/workitems/w1/transition'' routes"
  have "snd ?chain = Some (endpoint_of ?req)" by code_simp
  then have c: "?chain = (fst ?chain, Some (endpoint_of ?req))" by (metis prod.collapse)
  from routes_guard [OF seg.fiber_router_axioms c] c show ?thesis by (metis endpoint_of.simps(11) protected.simps(11))
qed

text \<open>A path of the group that no route matches still runs the guard, then ends without an endpoint.\<close>

lemma unmatched_guarded:
  "chain segment_router DELETE ''/api/v1/workitems/w1'' routes = ([Recover, Cors, Access_log, Jwt, Set_hub], None)"
  by code_simp

end
