(* ===== verification/Spec2Isabelle.thy ===== *)
theory Spec2Isabelle
  imports Monitoring Overlap Routes
begin

text \<open>
  Verification of the backend of the incident management system (IMS), the Go code under \<open>src/backend\<close>.

  \<^bold>\<open>The program.\<close> Clients post signals about components. The ingestion handler limits the rate per
  client, validates, attaches each signal to a work item through the debouncer (a map in the process,
  then Redis, then a new row in PostgreSQL), sends an alert for a new item and puts the signal on a
  bounded queue. Workers take signals from the queue and write them to MongoDB, to the count of the work
  item and to a time series. Responders move work items along OPEN, INVESTIGATING, RESOLVED, CLOSED; to
  close one they must have submitted a root cause analysis (RCA). An escalator raises the severity of
  old items, a hub sends messages to WebSocket clients, and a dashboard is cached in Redis.

  \<^bold>\<open>Theories.\<close>
  \<^item> \<open>Prelude\<close>: time, durations and truncation, decimal text, tables as lists of rows.
  \<^item> \<open>Models\<close> (\<open>models/models.go\<close>, \<open>models/errors.go\<close>): records and constructors, \<open>Validate\<close>,
    \<open>MTTRMinutes\<close>, errors as values with wrapping.
  \<^item> \<open>Services\<close>: what is not part of the repository. PostgreSQL is three tables with the constraints of
    \<open>migrations/001_init_schema.sql\<close> and one constructor per statement of the code; MongoDB a list of
    documents; Redis keys with a time of expiry. Drivers, clock and UUIDs are the fields of the record
    \<open>ext\<close>, an argument of every definition that uses them; the state \<open>world\<close> holds the three stores and
    the rest of the environment. What the code relies on are the locales \<open>postgres_service\<close>,
    \<open>mongo_service\<close>, \<open>redis_service\<close> and \<open>uuid_service\<close>, joined in \<open>backend\<close>: a statement reported as
    executed has been executed, one reported as failed may or may not have been (a lost
    acknowledgement), a query that succeeds returns the selected rows. \<open>RefEnv\<close> interprets them on a
    concrete environment with injected faults, used by the witnesses.
  \<^item> \<open>Retry\<close> (\<open>withRetry\<close> of \<open>store/postgres.go\<close> and \<open>store/mongo.go\<close>), \<open>PostgresStore\<close>, \<open>MongoStore\<close>,
    \<open>RedisStore\<close> (\<open>store/*.go\<close>): every operation; the locale \<open>retried_call\<close> is the contract of a retried
    call, and its instances show that an insertion is executed once although it is retried.
  \<^item> \<open>SignalQueue\<close> (\<open>queue/queue.go\<close>): the channel as a bounded list, counters as 64-bit words; it
    implements the locale of a bounded FIFO buffer.
  \<^item> \<open>RateLimiter\<close> (\<open>ingestion/ratelimiter.go\<close>): token buckets over rational numbers.
  \<^item> \<open>Alerting\<close> (\<open>alerting/*.go\<close>): the interface \<open>AlertStrategy\<close> as a locale with its three instances.
  \<^item> \<open>Debounce\<close> (\<open>ingestion/debounce.go\<close>), \<open>Ingestion\<close> (\<open>ingestion/handler.go\<close>), \<open>Http\<close> (answers).
  \<^item> \<open>Workflow\<close> (\<open>workflow/state.go\<close>, \<open>workflow/machine.go\<close>), \<open>Escalator\<close> (\<open>workflow/escalator.go\<close>).
  \<^item> \<open>WorkerPool\<close> (\<open>worker/pool.go\<close>), \<open>WorkItemApi\<close> (\<open>api/workitems.go\<close>), \<open>Auth\<close> (\<open>api/auth.go\<close>),
    \<open>Hub\<close> (\<open>api/websocket.go\<close>), \<open>Server\<close> (\<open>store/store.go\<close>, the constructors of the stores,
    \<open>api/health.go\<close>, the functions of \<open>cmd/server/main.go\<close>).
  \<^item> \<open>Concurrency\<close>: \<open>Resolve\<close> and \<open>Transition\<close> cut at their calls to the stores, for overlapping requests;
    \<open>WorkflowRace\<close> adds \<open>SubmitRCA\<close> and lets any number of transitions and submissions overlap, with
    statements of the other components in between. \<open>IngestSteps\<close> cuts \<open>IngestSignal\<close>, \<open>IngestBatch\<close> and
    \<open>runEscalationCheck\<close> in the same way.
  \<^item> \<open>System\<close>: what \<open>main\<close> and \<open>SetupRoutes\<close> assemble, as a step relation in which requests, workers,
    goroutines and background loops alternate. \<open>Routes\<close> has the route table of \<open>api/router.go\<close> as data, in
    the order of registration; the matching of paths, done by Fiber, is a parameter with the locale
    \<open>fiber_router\<close>, interpreted on a concrete matcher.
  \<^item> \<open>PoolRun\<close>: the pool with any number of workers whose writes interleave, from \<open>Start\<close> to \<open>Wait\<close>.
  \<^item> \<open>Program\<close>: \<open>main\<close> from connecting to the end of the process. \<open>Monitoring\<close>: what the health report and
    the metrics say in the states that \<open>System\<close> reaches; \<open>AlertOnce\<close>: what alerts there are in them.
  \<^item> \<open>Overlap\<close>: the server as it runs. Posted signals, batches, transitions, submissions, the workers of the
    pool and escalation checks are activities, any number of which are under way at a time; they move one
    call at a time, in any order, with the other requests, the goroutines and the background loops of
    \<open>System\<close> in between. The locale \<open>guarantee\<close> is the contract of an activity: what it relies on, and
    what every one of its moves guarantees to the others.

  \<^bold>\<open>What is shown.\<close> For the whole system: referential integrity between queue, log, alerts, debouncer and
  work items in every reachable state; that every closed item has a complete RCA; that an accepted
  signal reaches the log; that nothing but accounts changes without a token, where the routes that need
  one are those registered after the middleware of their group; that the numbers of the health report
  add up; that a work item is alerted at most once. Per component: functional
  behaviour of each operation on every branch, with errors and lost acknowledgements; the life-cycle
  invariant; the bound and the progress of the rate limiter; the queue as a bounded FIFO; the round
  trips of debounce entries and of accounts; the ladder of the escalator; the safety of the hub; the
  bounded waits of start-up; the arithmetic of \<open>parseIntFast\<close>. For overlapping requests: the steps
  refine the code; with everything overlapping, the references between queue, log, alerts, debouncer and
  work items stay intact, no item is alerted twice, a closed item has its complete RCA and an ingestion
  answered with 202 names an existing item of its component; an
  item gets at most one RCA under every schedule; and three properties fail (one work item per component,
  CLOSED is final, an invalidated dashboard is not shown again), each shown by a schedule.

  \<^bold>\<open>Choices.\<close> No definition needs fuel: the retry and connection loops have measures (three and five
  attempts), all others recurse on a list. Counters that Go keeps in 64 bits are words; \<open>float64\<close> is the
  type of rational numbers, so rounding is not modelled; instants stored in PostgreSQL are rounded to its microseconds. Strings are lists of bytes, as \<open>len\<close> counts
  them. Instants are integers of nanoseconds, the zero time is 0. The three goroutines of
  \<open>processSignal\<close> run one after another in an arbitrary order, since they write to different tables. In
  \<open>System\<close> a request is one step; in \<open>Overlap\<close> a call of a store with its retries is one, and so is the
  insertion of a work item with the invalidation of the dashboard that follows it.

  \<^bold>\<open>Not modelled.\<close> Logging, CORS and the registration of metrics, which have no effect on the state; the
  parsing of HTTP and JSON, done by Fiber (a handler gets the parsed body or the error); time-outs of
  contexts, which appear as errors of the stores; the text format of the metrics endpoint, and the
  histogram of request durations, which nothing observes; indexes, the hypertable and the aggregate
  view of the schema, which no code reads; preflight requests, which CORS answers itself and no route
  of the table takes; the frontend and deployment, which are not Go.
\<close>

end
